(* ===== verification/MR_Prelude.thy ===== *)
theory MR_Prelude
  imports
    Main
    "HOL-Library.Word"
    "HOL-Library.Char_ord"
    "HOL-Library.List_Lexorder"
    "HOL-Library.Monad_Syntax"
begin

text \<open>
  Shared vocabulary of the development: bytes, C strings, the C library functions on strings
  that several components call, and list lemmas.

  Conventions used by every theory.
  \<^item> A \<open>char*\<close> is the list of the characters before its terminating NUL; a buffer with an
    explicit length is a list of bytes.
  \<^item> A function whose C text can run into undefined behaviour (a null or out-of-range access,
    a failed \<open>assert\<close>) returns an \<open>option\<close> whose \<open>None\<close> is that outcome; \<open>Option.bind\<close>
    (the \<open>do\<close> notation of the library) propagates it.  A C \<open>NULL\<close> result that the program
    itself handles is a second, inner \<open>option\<close>.
\<close>

type_synonym byte = "8 word"

type_synonym 'a ub = "'a option"

named_theorems c_lib
  "what the C library functions compute"

subsection \<open>Arrays\<close>

text \<open>An array read: outside the array the access is undefined.\<close>

definition array_get :: "'a list \<Rightarrow> nat \<Rightarrow> 'a ub" where
  "array_get xs i = (if i < length xs then Some (xs ! i) else None)"

lemma array_get_inside [simp]: "i < length xs \<Longrightarrow> array_get xs i = Some (xs ! i)"
  by (simp add: array_get_def)

lemma array_get_Some_iff: "array_get xs i = Some x \<longleftrightarrow> i < length xs \<and> xs ! i = x"
  by (auto simp: array_get_def)

lemma array_get_Cons_0 [simp]: "array_get (x # xs) 0 = Some x"
  by (simp add: array_get_def)

lemma array_get_Cons_Suc [simp]: "array_get (x # xs) (Suc i) = array_get xs i"
  by (simp add: array_get_def)

lemma array_get_Cons_1 [simp]: "array_get (x # y # xs) 1 = Some y"
  by (simp add: array_get_def)

lemma array_get_Nil [simp]: "array_get [] i = None"
  by (simp add: array_get_def)

lemma take_drop_split3:
  "i + n \<le> length xs \<Longrightarrow> take i xs @ take n (drop i xs) @ drop (i + n) xs = xs"
  by (metis add.commute append_take_drop_id drop_drop)

subsection \<open>C strings\<close>

definition strcmp :: "string \<Rightarrow> string \<Rightarrow> int" where
  "strcmp a b = (if a < b then -1 else if a = b then 0 else 1)"

lemma strcmp_0_iff [simp, c_lib]: "strcmp a b = 0 \<longleftrightarrow> a = b"
  by (simp add: strcmp_def)

lemma strcmp_neg_iff [c_lib]: "strcmp a b < 0 \<longleftrightarrow> a < b"
  by (auto simp: strcmp_def)

lemma strcmp_pos_iff [c_lib]: "0 < strcmp a b \<longleftrightarrow> b < a"
  by (auto simp: strcmp_def)

text \<open>\<open>strstr h n \<noteq> NULL\<close>: the needle occurs in the haystack.\<close>

fun strstr_found :: "string \<Rightarrow> string \<Rightarrow> bool" where
  "strstr_found [] n = (n = [])"
| "strstr_found (c # h) n = (take (length n) (c # h) = n \<or> strstr_found h n)"

lemma strstr_found_iff [c_lib]: "strstr_found h n \<longleftrightarrow> (\<exists>p s. h = p @ n @ s)"
proof (induction h)
  case Nil
  then show ?case by simp
next
  case (Cons c h)
  have "take (length n) (c # h) = n \<longleftrightarrow> (\<exists>s. c # h = n @ s)"
    by (metis append_eq_conv_conj append_take_drop_id)
  moreover have "(\<exists>p s. c # h = p @ n @ s) \<longleftrightarrow> (\<exists>s. c # h = n @ s) \<or> (\<exists>p s. h = p @ n @ s)"
    by (metis append_Cons append_Nil list.inject neq_Nil_conv)
  ultimately show ?case using Cons.IH by simp
qed

definition isspace :: "char \<Rightarrow> bool" where
  "isspace c \<longleftrightarrow> c \<in> {CHR '' '', CHR 0x09, CHR 0x0A, CHR 0x0B, CHR 0x0C, CHR 0x0D}"

definition isdigit :: "char \<Rightarrow> bool" where
  "isdigit c \<longleftrightarrow> 48 \<le> (of_char c :: nat) \<and> (of_char c :: nat) \<le> 57"

definition digit_val :: "char \<Rightarrow> nat" where
  "digit_val c = of_char c - 48"

definition digits_val :: "string \<Rightarrow> nat" where
  "digits_val ds = foldl (\<lambda>n c. 10 * n + digit_val c) 0 ds"

text \<open>
  \<open>strtol(s, &end, 10)\<close> on the 32-bit targets of this program: leading white space, an
  optional sign, digits; the value saturates at the range of \<open>long\<close>; without a digit the value
  is 0 and \<open>end = s\<close>.  The result is the value and the string \<open>end\<close> points to.
\<close>

definition LONG_MAX :: int where "LONG_MAX = 2 ^ 31 - 1"

definition LONG_MIN :: int where "LONG_MIN = - (2 ^ 31)"

definition clamp_long :: "int \<Rightarrow> int" where
  "clamp_long v = max LONG_MIN (min LONG_MAX v)"

definition strtol10 :: "string \<Rightarrow> int \<times> string" where
  "strtol10 s =
     (let s1 = dropWhile isspace s;
          neg = (s1 \<noteq> [] \<and> hd s1 = CHR ''-'');
          s2 = (if s1 \<noteq> [] \<and> (hd s1 = CHR ''-'' \<or> hd s1 = CHR ''+'') then tl s1 else s1);
          ds = takeWhile isdigit s2
      in if ds = [] then (0, s)
         else (clamp_long (if neg then - int (digits_val ds) else int (digits_val ds)),
               dropWhile isdigit s2))"

text \<open>Decimal printing, to state what \<open>strtol\<close> parses.\<close>

definition digit_char :: "nat \<Rightarrow> char" where
  "digit_char d = char_of (48 + d)"

fun show_nat :: "nat \<Rightarrow> string" where
  "show_nat n = (if n < 10 then [digit_char n] else show_nat (n div 10) @ [digit_char (n mod 10)])"

declare show_nat.simps [simp del]

definition show_int :: "int \<Rightarrow> string" where
  "show_int i = (if i < 0 then CHR ''-'' # show_nat (nat (- i)) else show_nat (nat i))"

lemma digit_char_cases:
  assumes "d < 10"
  shows "isdigit (digit_char d) \<and> digit_val (digit_char d) = d
    \<and> digit_char d \<noteq> CHR ''-'' \<and> digit_char d \<noteq> CHR ''+'' \<and> \<not> isspace (digit_char d)"
proof -
  from assms have "d \<in> set [0, 1, 2, 3, 4, 5, 6, 7, 8, 9]"
    by (simp, presburger)
  then show ?thesis
    by (auto simp: digit_char_def digit_val_def isdigit_def isspace_def char_of_def bit_0)
qed

lemma digits_val_snoc: "digits_val (ds @ [c]) = 10 * digits_val ds + digit_val c"
  by (simp add: digits_val_def)

lemma digits_val_show_nat: "digits_val (show_nat n) = n"
proof (induction n rule: show_nat.induct)
  case (1 n)
  show ?case
  proof (cases "n < 10")
    case True
    then show ?thesis by (simp add: show_nat.simps [of n] digits_val_def digit_char_cases)
  next
    case False
    then have "digits_val (show_nat (n div 10)) = n div 10" using 1 by simp
    with False show ?thesis
      by (simp add: show_nat.simps [of n] digits_val_snoc digit_char_cases)
  qed
qed

lemma isdigit_show_nat: "c \<in> set (show_nat n) \<Longrightarrow> isdigit c"
proof (induction n rule: show_nat.induct)
  case (1 n)
  then show ?case
    by (cases "n < 10") (auto simp: show_nat.simps [of n] digit_char_cases)
qed

lemma show_nat_nonempty: "show_nat n \<noteq> []"
  by (simp add: show_nat.simps [of n])

lemma digit_not_sign:
  "isdigit c \<Longrightarrow> c \<noteq> CHR ''-'' \<and> c \<noteq> CHR ''+'' \<and> \<not> isspace c"
  by (auto simp: isdigit_def isspace_def)

lemma show_nat_hd: "isdigit (hd (show_nat n))"
  using isdigit_show_nat show_nat_nonempty hd_in_set by blast

lemma takeWhile_digits_show [simp]: "takeWhile isdigit (show_nat n) = show_nat n"
  by (simp add: isdigit_show_nat)

lemma dropWhile_digits_show [simp]: "dropWhile isdigit (show_nat n) = []"
  by (simp add: isdigit_show_nat)

lemma dropWhile_space_show [simp]: "dropWhile isspace (show_nat n) = show_nat n"
  using show_nat_hd [of n] digit_not_sign by (cases "show_nat n") auto

lemma strtol10_show_int:
  assumes "LONG_MIN \<le> i" and "i \<le> LONG_MAX"
  shows "strtol10 (show_int i) = (i, [])"
proof (cases "i < 0")
  case True
  have "\<not> isspace (CHR ''-'')" by (simp add: isspace_def)
  with True assms show ?thesis
    by (simp add: strtol10_def show_int_def Let_def digits_val_show_nat show_nat_nonempty
        clamp_long_def)
next
  case False
  with assms digit_not_sign [OF show_nat_hd [of "nat i"]] show ?thesis
    by (simp add: strtol10_def show_int_def Let_def digits_val_show_nat show_nat_nonempty
        clamp_long_def)
qed

lemma show_int_nonempty: "show_int i \<noteq> []"
  by (simp add: show_int_def show_nat_nonempty)

subsection \<open>Memory\<close>

text \<open>\<open>memcmp\<close>, and reads through an offset that may be negative.\<close>

fun memcmp :: "byte list \<Rightarrow> byte list \<Rightarrow> nat \<Rightarrow> int" where
  "memcmp (a # as) (b # bs) (Suc n) = (if a \<noteq> b then uint a - uint b else memcmp as bs n)"
| "memcmp _ _ _ = 0"

lemma memcmp_eq_0: "length a = length b \<Longrightarrow> memcmp a b (length a) = 0 \<longleftrightarrow> a = b"
proof (induction a arbitrary: b)
  case (Cons x a)
  then obtain y b' where "b = y # b'" "length a = length b'" by (cases b) auto
  with Cons.IH [of b'] show ?case by (simp add: word_uint_eq_iff)
qed simp

definition geti :: "'a list \<Rightarrow> int \<Rightarrow> 'a ub" where
  "geti xs i = (if 0 \<le> i \<and> i < int (length xs) then Some (xs ! nat i) else None)"

lemma geti_inside [simp]: "0 \<le> i \<Longrightarrow> i < int (length xs) \<Longrightarrow> geti xs i = Some (xs ! nat i)"
  by (simp add: geti_def)

end
