(* ===== verification/Edify.thy ===== *)
theory Edify
  imports MR_Prelude
begin

text \<open>
  The edify interpreter, \<open>edify/expr.c\<close> and \<open>edify/expr.h\<close>: values, the evaluation
  state, expression trees, the built-in functions and the argument readers, then the contract
  every edify function obeys and what follows from it for whole expressions.

  A \<open>Function\<close> of the C code receives its unevaluated arguments and evaluates those it
  wants, in the order it wants.  Here an argument is an \<open>arg\<close>: the evaluator of the
  subexpression with the subexpression's source positions.  A result is \<open>None\<close> when the C code
  runs into undefined behaviour (an argument that is not there), otherwise the returned
  \<open>Value*\<close> (\<open>None\<close> for NULL) with the new state.
\<close>

section \<open>Values, state, expressions\<close>

text \<open>
  \<open>Value\<close>: the tag with its data.  A string value has no size of its own, it is the length of
  the string; a blob whose data is NULL (size -1) is \<open>VAL_BLOB None\<close>.
\<close>

datatype Value = VAL_STRING string | VAL_BLOB "byte list option"

definition value_type :: "Value \<Rightarrow> nat" where
  "value_type v = (case v of VAL_STRING _ \<Rightarrow> 1 | VAL_BLOB _ \<Rightarrow> 2)"

text \<open>
  \<open>State\<close>: the script and the error message; the fields after them are the effects of the
  built-ins on the process, the text written to \<open>stdout\<close> and the seconds passed to \<open>sleep\<close>.
  A program that embeds edify extends the record with what its \<open>cookie\<close> points to.
\<close>

record State =
  script :: string
  errmsg :: "string option"
  stdout_text :: string
  slept :: "int list"

datatype 's arg = Arg (arg_eval: "'s \<Rightarrow> (Value option \<times> 's) ub") (arg_start: nat) (arg_end: nat)

type_synonym 's Function = "string \<Rightarrow> 's arg list \<Rightarrow> 's \<Rightarrow> (Value option \<times> 's) ub"

text \<open>
  An expression node; \<open>'f\<close> is the type of function pointers, and \<open>argc\<close> is the length of
  \<open>argv\<close>.
\<close>

datatype 'f Expr = Expr (fn: 'f) (expr_name: string) (argv: "'f Expr list")
  (expr_start: nat) (expr_end: nat)

text \<open>Calling a node's function on its argument vector; \<open>call\<close> dereferences the pointer.\<close>

fun EvaluateValue :: "('f \<Rightarrow> 's Function) \<Rightarrow> 'f Expr \<Rightarrow> 's \<Rightarrow> (Value option \<times> 's) ub" where
  "EvaluateValue call (Expr f nm as b e) =
     call f nm (map (\<lambda>a. Arg (EvaluateValue call a) (expr_start a) (expr_end a)) as)"

section \<open>Helpers of the functions\<close>

definition BooleanString :: "string \<Rightarrow> bool" where
  "BooleanString s = (s \<noteq> [])"

definition StringValue :: "string option \<Rightarrow> Value option" where
  "StringValue s = map_option VAL_STRING s"

definition set_errmsg :: "string \<Rightarrow> 'a State_scheme \<Rightarrow> 'a State_scheme" where
  "set_errmsg msg st = st\<lparr>errmsg := Some msg\<rparr>"

text \<open>\<open>ErrorAbort\<close> formats into a buffer of 4096 bytes, the last of them the NUL.\<close>

definition ErrorAbort :: "string \<Rightarrow> 'a State_scheme \<Rightarrow> 'a State_scheme" where
  "ErrorAbort msg st = set_errmsg (take 4095 msg) st"

text \<open>\<open>Evaluate\<close> on an argument: the value must be a string.\<close>

definition Evaluate ::
  "'a State_scheme arg \<Rightarrow> 'a State_scheme \<Rightarrow> (string option \<times> 'a State_scheme) ub" where
  "Evaluate a st = do {
     (v, st) \<leftarrow> arg_eval a st;
     (case v of
        None \<Rightarrow> Some (None, st)
      | Some (VAL_STRING s) \<Rightarrow> Some (Some s, st)
      | Some (VAL_BLOB b) \<Rightarrow>
          Some (None, ErrorAbort (''expecting string, got value type ''
                                  @ show_nat (value_type (VAL_BLOB b))) st))
   }"

text \<open>\<open>ReadVarArgs\<close>: evaluate all arguments left to right, stop at the first NULL.\<close>

fun ReadVarArgs ::
  "'a State_scheme arg list \<Rightarrow> 'a State_scheme \<Rightarrow> (string list option \<times> 'a State_scheme) ub" where
  "ReadVarArgs [] st = Some (Some [], st)"
| "ReadVarArgs (a # as) st = do {
     (v, st) \<leftarrow> Evaluate a st;
     (case v of
        None \<Rightarrow> Some (None, st)
      | Some s \<Rightarrow> do {
          (r, st) \<leftarrow> ReadVarArgs as st;
          Some (map_option ((#) s) r, st)
        })
   }"

fun ReadValueVarArgs ::
  "'a State_scheme arg list \<Rightarrow> 'a State_scheme \<Rightarrow> (Value list option \<times> 'a State_scheme) ub" where
  "ReadValueVarArgs [] st = Some (Some [], st)"
| "ReadValueVarArgs (a # as) st = do {
     (v, st) \<leftarrow> arg_eval a st;
     (case v of
        None \<Rightarrow> Some (None, st)
      | Some v \<Rightarrow> do {
          (r, st) \<leftarrow> ReadValueVarArgs as st;
          Some (map_option ((#) v) r, st)
        })
   }"

text \<open>
  \<open>ReadArgs\<close> and \<open>ReadValueArgs\<close> read \<open>argv[0 .. count-1]\<close> without looking at \<open>argc\<close>: a
  missing argument is an access outside the vector, reached once the present ones evaluated.
\<close>

definition missing_arg :: "'s arg" where
  "missing_arg = Arg (\<lambda>_. None) 0 0"

definition first_args :: "nat \<Rightarrow> 's arg list \<Rightarrow> 's arg list" where
  "first_args count as = take count as @ replicate (count - length as) missing_arg"

definition ReadArgs ::
  "'a State_scheme arg list \<Rightarrow> nat \<Rightarrow> 'a State_scheme \<Rightarrow> (string list option \<times> 'a State_scheme) ub"
  where "ReadArgs as count st = ReadVarArgs (first_args count as) st"

definition ReadValueArgs ::
  "'a State_scheme arg list \<Rightarrow> nat \<Rightarrow> 'a State_scheme \<Rightarrow> (Value list option \<times> 'a State_scheme) ub"
  where "ReadValueArgs as count st = ReadValueVarArgs (first_args count as) st"

section \<open>The built-in functions\<close>

definition Literal :: "'a State_scheme Function" where
  "Literal name as st = Some (StringValue (Some name), st)"

definition ConcatFn :: "'a State_scheme Function" where
  "ConcatFn name as st =
     (if as = [] then Some (StringValue (Some []), st)
      else do {
        (strings, st) \<leftarrow> ReadVarArgs as st;
        Some (StringValue (map_option concat strings), st)
      })"

definition IfElseFn :: "'a State_scheme Function" where
  "IfElseFn name as st =
     (if length as \<noteq> 2 \<and> length as \<noteq> 3
      then Some (None, set_errmsg ''ifelse expects 2 or 3 arguments'' st)
      else do {
        a0 \<leftarrow> array_get as 0;
        (cond, st) \<leftarrow> Evaluate a0 st;
        (case cond of
           None \<Rightarrow> Some (None, st)
         | Some c \<Rightarrow>
             if BooleanString c then do { a1 \<leftarrow> array_get as 1; arg_eval a1 st }
             else if length as = 3 then do { a2 \<leftarrow> array_get as 2; arg_eval a2 st }
             else Some (StringValue (Some c), st))
      })"

definition AbortFn :: "'a State_scheme Function" where
  "AbortFn name as st = do {
     (msg, st) \<leftarrow> (case as of [] \<Rightarrow> Some (None, st) | a # _ \<Rightarrow> Evaluate a st);
     (case msg of
        Some m \<Rightarrow> Some (None, set_errmsg m st)
      | None \<Rightarrow> Some (None, set_errmsg ''called abort()'' st))
   }"

text \<open>
  The text of a failed assertion is copied out of the script; a position outside the script
  is undefined.
\<close>

definition script_text :: "nat \<Rightarrow> nat \<Rightarrow> string \<Rightarrow> string ub" where
  "script_text b e s = (if b \<le> e \<and> e \<le> length s then Some (take (e - b) (drop b s)) else None)"

fun AssertFn_loop ::
  "'a State_scheme arg list \<Rightarrow> 'a State_scheme \<Rightarrow> (Value option \<times> 'a State_scheme) ub" where
  "AssertFn_loop [] st = Some (StringValue (Some []), st)"
| "AssertFn_loop (a # as) st = do {
     (v, st) \<leftarrow> Evaluate a st;
     (case v of
        None \<Rightarrow> Some (None, st)
      | Some s \<Rightarrow>
          if BooleanString s then AssertFn_loop as st
          else do {
            src \<leftarrow> script_text (arg_start a) (arg_end a) (script st);
            Some (None, set_errmsg (''assert failed: '' @ src) st)
          })
   }"

definition AssertFn :: "'a State_scheme Function" where
  "AssertFn name as st = AssertFn_loop as st"

definition SleepFn :: "'a State_scheme Function" where
  "SleepFn name as st = do {
     a0 \<leftarrow> array_get as 0;
     (val, st) \<leftarrow> Evaluate a0 st;
     (case val of
        None \<Rightarrow> Some (None, st)
      | Some s \<Rightarrow> Some (StringValue (Some s), st\<lparr>slept := slept st @ [fst (strtol10 s)]\<rparr>))
   }"

fun StdoutFn_loop ::
  "'a State_scheme arg list \<Rightarrow> 'a State_scheme \<Rightarrow> (Value option \<times> 'a State_scheme) ub" where
  "StdoutFn_loop [] st = Some (StringValue (Some []), st)"
| "StdoutFn_loop (a # as) st = do {
     (v, st) \<leftarrow> Evaluate a st;
     (case v of
        None \<Rightarrow> Some (None, st)
      | Some s \<Rightarrow> StdoutFn_loop as (st\<lparr>stdout_text := stdout_text st @ s\<rparr>))
   }"

definition StdoutFn :: "'a State_scheme Function" where
  "StdoutFn name as st = StdoutFn_loop as st"

definition LogicalAndFn :: "'a State_scheme Function" where
  "LogicalAndFn name as st = do {
     a0 \<leftarrow> array_get as 0;
     (left, st) \<leftarrow> Evaluate a0 st;
     (case left of
        None \<Rightarrow> Some (None, st)
      | Some l \<Rightarrow>
          if BooleanString l then do { a1 \<leftarrow> array_get as 1; arg_eval a1 st }
          else Some (StringValue (Some l), st))
   }"

definition LogicalOrFn :: "'a State_scheme Function" where
  "LogicalOrFn name as st = do {
     a0 \<leftarrow> array_get as 0;
     (left, st) \<leftarrow> Evaluate a0 st;
     (case left of
        None \<Rightarrow> Some (None, st)
      | Some l \<Rightarrow>
          if \<not> BooleanString l then do { a1 \<leftarrow> array_get as 1; arg_eval a1 st }
          else Some (StringValue (Some l), st))
   }"

definition LogicalNotFn :: "'a State_scheme Function" where
  "LogicalNotFn name as st = do {
     a0 \<leftarrow> array_get as 0;
     (val, st) \<leftarrow> Evaluate a0 st;
     (case val of
        None \<Rightarrow> Some (None, st)
      | Some v \<Rightarrow> Some (StringValue (Some (if BooleanString v then [] else ''t'')), st))
   }"

text \<open>
  The two-argument functions below evaluate \<open>argv[0]\<close>, return NULL if it is NULL, then
  \<open>argv[1]\<close>, and combine the two strings.
\<close>

definition binary_strings ::
  "(string \<Rightarrow> string \<Rightarrow> string) \<Rightarrow> 'a State_scheme Function" where
  "binary_strings f name as st = do {
     a0 \<leftarrow> array_get as 0;
     (left, st) \<leftarrow> Evaluate a0 st;
     (case left of
        None \<Rightarrow> Some (None, st)
      | Some l \<Rightarrow> do {
          a1 \<leftarrow> array_get as 1;
          (right, st) \<leftarrow> Evaluate a1 st;
          (case right of
             None \<Rightarrow> Some (None, st)
           | Some r \<Rightarrow> Some (StringValue (Some (f l r)), st))
        })
   }"

definition SubstringFn :: "'a State_scheme Function" where
  "SubstringFn =
     binary_strings (\<lambda>needle haystack. if strstr_found haystack needle then ''t'' else [])"

definition EqualityFn :: "'a State_scheme Function" where
  "EqualityFn = binary_strings (\<lambda>left right. if strcmp left right = 0 then ''t'' else [])"

definition InequalityFn :: "'a State_scheme Function" where
  "InequalityFn = binary_strings (\<lambda>left right. if strcmp left right \<noteq> 0 then ''t'' else [])"

definition SequenceFn :: "'a State_scheme Function" where
  "SequenceFn name as st = do {
     a0 \<leftarrow> array_get as 0;
     (left, st) \<leftarrow> arg_eval a0 st;
     (case left of
        None \<Rightarrow> Some (None, st)
      | Some _ \<Rightarrow> do { a1 \<leftarrow> array_get as 1; arg_eval a1 st })
   }"

text \<open>
  A string is an integer when \<open>strtol\<close> reads all of it and it is not empty.
\<close>

definition parse_long :: "string \<Rightarrow> int option" where
  "parse_long s = (let (v, rest) = strtol10 s in if s = [] \<or> rest \<noteq> [] then None else Some v)"

definition LessThanIntFn :: "'a State_scheme Function" where
  "LessThanIntFn name as st =
     (if length as \<noteq> 2
      then Some (None, set_errmsg ''less_than_int expects 2 arguments'' st)
      else do {
        (r, st) \<leftarrow> ReadArgs as 2 st;
        (case r of
           None \<Rightarrow> Some (None, st)
         | Some strs \<Rightarrow>
             let result = (case parse_long (strs ! 0) of
                             None \<Rightarrow> False
                           | Some l \<Rightarrow> (case parse_long (strs ! 1) of
                                          None \<Rightarrow> False
                                        | Some r \<Rightarrow> l < r))
             in Some (StringValue (Some (if result then ''t'' else [])), st))
      })"

definition GreaterThanIntFn :: "'a State_scheme Function" where
  "GreaterThanIntFn name as st =
     (if length as \<noteq> 2
      then Some (None, set_errmsg ''greater_than_int expects 2 arguments'' st)
      else do {
        a1 \<leftarrow> array_get as 1;
        a0 \<leftarrow> array_get as 0;
        LessThanIntFn name [a1, a0] st
      })"

text \<open>The built-in functions' pointers and what they point to.\<close>

datatype builtin = Literal_p | ConcatFn_p | IfElseFn_p | AbortFn_p | AssertFn_p | SleepFn_p
  | StdoutFn_p | LogicalAndFn_p | LogicalOrFn_p | LogicalNotFn_p | SubstringFn_p | EqualityFn_p
  | InequalityFn_p | SequenceFn_p | LessThanIntFn_p | GreaterThanIntFn_p

fun builtin_call :: "builtin \<Rightarrow> 'a State_scheme Function" where
  "builtin_call Literal_p = Literal"
| "builtin_call ConcatFn_p = ConcatFn"
| "builtin_call IfElseFn_p = IfElseFn"
| "builtin_call AbortFn_p = AbortFn"
| "builtin_call AssertFn_p = AssertFn"
| "builtin_call SleepFn_p = SleepFn"
| "builtin_call StdoutFn_p = StdoutFn"
| "builtin_call LogicalAndFn_p = LogicalAndFn"
| "builtin_call LogicalOrFn_p = LogicalOrFn"
| "builtin_call LogicalNotFn_p = LogicalNotFn"
| "builtin_call SubstringFn_p = SubstringFn"
| "builtin_call EqualityFn_p = EqualityFn"
| "builtin_call InequalityFn_p = InequalityFn"
| "builtin_call SequenceFn_p = SequenceFn"
| "builtin_call LessThanIntFn_p = LessThanIntFn"
| "builtin_call GreaterThanIntFn_p = GreaterThanIntFn"

text \<open>\<open>Build\<close>: a node for an operator of the grammar.\<close>

definition Build :: "'f \<Rightarrow> nat \<times> nat \<Rightarrow> 'f Expr list \<Rightarrow> 'f Expr" where
  "Build f loc args = Expr f ''(operator)'' args (fst loc) (snd loc)"

section \<open>The contract of an edify function\<close>

text \<open>
  What the interpreter relies on: given arguments whose evaluation is defined, keeps the script
  and leaves an error message behind a NULL, a call does the same.  Source positions lie inside
  the script.
\<close>

definition res_sound :: "string \<Rightarrow> (Value option \<times> 'a State_scheme) ub \<Rightarrow> bool" where
  "res_sound src r \<longleftrightarrow>
     (\<exists>v st. r = Some (v, st) \<and> script st = src \<and> (v = None \<longrightarrow> errmsg st \<noteq> None))"

definition arg_sound :: "string \<Rightarrow> 'a State_scheme arg \<Rightarrow> bool" where
  "arg_sound src a \<longleftrightarrow> (\<forall>st. script st = src \<longrightarrow> res_sound src (arg_eval a st))
     \<and> arg_start a \<le> arg_end a \<and> arg_end a \<le> length src"

fun wf_expr :: "('f \<Rightarrow> nat \<Rightarrow> bool) \<Rightarrow> string \<Rightarrow> 'f Expr \<Rightarrow> bool" where
  "wf_expr arity_ok src (Expr f nm as b e) \<longleftrightarrow>
     arity_ok f (length as) \<and> b \<le> e \<and> e \<le> length src \<and> (\<forall>a \<in> set as. wf_expr arity_ok src a)"

lemma wf_expr_positions:
  "wf_expr arity_ok src e \<Longrightarrow> expr_start e \<le> expr_end e \<and> expr_end e \<le> length src"
  by (cases e) simp

locale edify_functions =
  fixes call :: "'f \<Rightarrow> 'a State_scheme Function"
    and arity_ok :: "'f \<Rightarrow> nat \<Rightarrow> bool"
  assumes call_sound:
    "arity_ok f (length as) \<Longrightarrow> (\<And>a. a \<in> set as \<Longrightarrow> arg_sound src a) \<Longrightarrow> script st = src
      \<Longrightarrow> res_sound src (call f nm as st)"
begin

lemma EvaluateValue_sound:
  "wf_expr arity_ok src e \<Longrightarrow> script st = src \<Longrightarrow> res_sound src (EvaluateValue call e st)"
proof (induction e arbitrary: st)
  case (Expr f nm as b e')
  have "arg_sound src (Arg (EvaluateValue call a) (expr_start a) (expr_end a))" if "a \<in> set as" for a
    using Expr that wf_expr_positions by (fastforce simp: arg_sound_def)
  then show ?case using Expr.prems by (auto intro!: call_sound)
qed

text \<open>A node can serve as an argument of a function that is called directly.\<close>

lemma expr_arg_sound:
  "wf_expr arity_ok src e \<Longrightarrow>
    arg_sound src (Arg (EvaluateValue call e) (expr_start e) (expr_end e))"
  using EvaluateValue_sound wf_expr_positions by (fastforce simp: arg_sound_def)

end

lemma res_soundE:
  assumes "res_sound src r"
  obtains v st where "r = Some (v, st)" "script st = src" "v = None \<longrightarrow> errmsg st \<noteq> None"
  using assms by (auto simp: res_sound_def)

lemma res_sound_Some [simp]:
  "res_sound src (Some (v, st)) \<longleftrightarrow> script st = src \<and> (v = None \<longrightarrow> errmsg st \<noteq> None)"
  by (simp add: res_sound_def)

lemma arg_sound_eval: "arg_sound src a \<Longrightarrow> script st = src \<Longrightarrow> res_sound src (arg_eval a st)"
  by (simp add: arg_sound_def)

lemma set_errmsg_simps [simp]:
  "script (set_errmsg m st) = script st" "errmsg (set_errmsg m st) = Some m"
  "script (ErrorAbort m st) = script st" "errmsg (ErrorAbort m st) = Some (take 4095 m)"
  by (simp_all add: set_errmsg_def ErrorAbort_def)

lemma StringValue_simps [simp]:
  "StringValue None = None" "StringValue (Some s) = Some (VAL_STRING s)"
  by (simp_all add: StringValue_def)

text \<open>The contract passes through the argument readers.\<close>

lemma Evaluate_sound:
  assumes "arg_sound src a" and "script st = src"
  obtains v st' where "Evaluate a st = Some (v, st')" "script st' = src"
    "v = None \<longrightarrow> errmsg st' \<noteq> None"
proof -
  from arg_sound_eval [OF assms] obtain w st1 where 1: "arg_eval a st = Some (w, st1)"
    "script st1 = src" "w = None \<longrightarrow> errmsg st1 \<noteq> None"
    by (rule res_soundE)
  show ?thesis
  proof (cases w)
    case None
    with 1 that show ?thesis by (auto simp: Evaluate_def)
  next
    case (Some x)
    with 1 that show ?thesis by (cases x) (auto simp: Evaluate_def)
  qed
qed

lemma ReadVarArgs_sound:
  assumes "\<And>a. a \<in> set as \<Longrightarrow> arg_sound src a" and "script st = src"
  shows "\<exists>r st'. ReadVarArgs as st = Some (r, st') \<and> script st' = src
    \<and> (r = None \<longrightarrow> errmsg st' \<noteq> None)
    \<and> (\<forall>strs. r = Some strs \<longrightarrow> length strs = length as)"
  using assms
proof (induction as arbitrary: st)
  case Nil
  then show ?case by simp
next
  case (Cons a as)
  then obtain v st1 where 1: "Evaluate a st = Some (v, st1)" "script st1 = src"
    "v = None \<longrightarrow> errmsg st1 \<noteq> None"
    by (metis Evaluate_sound list.set_intros(1))
  with Cons.IH [of st1] Cons.prems show ?case
    by (cases v) fastforce+
qed

lemma first_args_all [simp]: "length as = count \<Longrightarrow> first_args count as = as"
  by (simp add: first_args_def)

lemma AssertFn_loop_sound:
  assumes "\<And>a. a \<in> set as \<Longrightarrow> arg_sound src a" and "script st = src"
  shows "res_sound src (AssertFn_loop as st)"
  using assms
proof (induction as arbitrary: st)
  case Nil
  then show ?case by simp
next
  case (Cons a as)
  then obtain v st1 where 1: "Evaluate a st = Some (v, st1)" "script st1 = src"
    "v = None \<longrightarrow> errmsg st1 \<noteq> None"
    by (metis Evaluate_sound list.set_intros(1))
  moreover have "arg_start a \<le> arg_end a" "arg_end a \<le> length src"
    using Cons.prems(1) [of a] by (auto simp: arg_sound_def)
  ultimately show ?case using Cons
    by (cases v) (auto simp: script_text_def)
qed

lemma StdoutFn_loop_sound:
  assumes "\<And>a. a \<in> set as \<Longrightarrow> arg_sound src a" and "script st = src"
  shows "res_sound src (StdoutFn_loop as st)"
  using assms
proof (induction as arbitrary: st)
  case Nil
  then show ?case by simp
next
  case (Cons a as)
  then obtain v st1 where 1: "Evaluate a st = Some (v, st1)" "script st1 = src"
    "v = None \<longrightarrow> errmsg st1 \<noteq> None"
    by (metis Evaluate_sound list.set_intros(1))
  with Cons show ?case by (cases v) auto
qed

text \<open>
  The number of arguments each built-in needs: the functions without a check of \<open>argc\<close> rely
  on the grammar (operators) or on the script (\<open>sleep\<close>, \<open>is_substring\<close>).
\<close>

fun builtin_arity :: "builtin \<Rightarrow> nat \<Rightarrow> bool" where
  "builtin_arity SleepFn_p n = (1 \<le> n)"
| "builtin_arity LogicalAndFn_p n = (2 \<le> n)"
| "builtin_arity LogicalOrFn_p n = (2 \<le> n)"
| "builtin_arity LogicalNotFn_p n = (1 \<le> n)"
| "builtin_arity SubstringFn_p n = (2 \<le> n)"
| "builtin_arity EqualityFn_p n = (2 \<le> n)"
| "builtin_arity InequalityFn_p n = (2 \<le> n)"
| "builtin_arity SequenceFn_p n = (2 \<le> n)"
| "builtin_arity _ n = True"

lemma binary_strings_sound:
  assumes "2 \<le> length as" and "\<And>a. a \<in> set as \<Longrightarrow> arg_sound src a" and "script st = src"
  shows "res_sound src (binary_strings f nm as st)"
proof -
  from assms(1) have 0: "as ! 0 \<in> set as" "as ! 1 \<in> set as" "0 < length as" "Suc 0 < length as"
    by (auto intro!: nth_mem)
  obtain v st1 where 1: "Evaluate (as ! 0) st = Some (v, st1)" "script st1 = src"
    "v = None \<longrightarrow> errmsg st1 \<noteq> None"
    using Evaluate_sound [OF assms(2) [OF 0(1)] assms(3)] by blast
  obtain w st2 where 2: "Evaluate (as ! 1) st1 = Some (w, st2)" "script st2 = src"
    "w = None \<longrightarrow> errmsg st2 \<noteq> None"
    using Evaluate_sound [OF assms(2) [OF 0(2)] 1(2)] by blast
  from 0 1 2 show ?thesis
    by (auto simp: binary_strings_def split: option.splits)
qed

end
