(* ===== verification/Edify_Builtins.thy ===== *)
theory Edify_Builtins
  imports Edify
begin

text \<open>
  The built-in functions of \<open>edify/expr.c\<close>: they obey the contract of \<open>edify_functions\<close>, the
  pure ones compute the value a reference semantics gives, and the order and the laziness of
  their evaluation is as the code promises.
\<close>

section \<open>The contract holds for the built-ins\<close>

text \<open>The arguments of a call are sound, and so is what evaluating one of them gives.\<close>

definition args_sound :: "string \<Rightarrow> 'a State_scheme arg list \<Rightarrow> bool" where
  "args_sound src as \<longleftrightarrow> (\<forall>a \<in> set as. arg_sound src a)"

lemma args_sound_nth: "args_sound src as \<Longrightarrow> i < length as \<Longrightarrow> arg_sound src (as ! i)"
  by (simp add: args_sound_def)

lemma args_sound_Evaluate:
  assumes "args_sound src as" "i < length as" "script st = src"
  obtains v st' where "Evaluate (as ! i) st = Some (v, st')" "script st' = src"
    "v = None \<longrightarrow> errmsg st' \<noteq> None"
  using Evaluate_sound [OF args_sound_nth [OF assms(1,2)] assms(3)] by blast

lemma args_sound_arg_eval:
  assumes "args_sound src as" "i < length as" "script st = src"
  shows "res_sound src (arg_eval (as ! i) st)"
  using arg_sound_eval [OF args_sound_nth [OF assms(1,2)] assms(3)] .

lemma ConcatFn_sound:
  assumes "args_sound src as" "script st = src"
  shows "res_sound src (ConcatFn nm as st)"
proof -
  have "\<exists>r st'. ReadVarArgs as st = Some (r, st') \<and> script st' = src
    \<and> (r = None \<longrightarrow> errmsg st' \<noteq> None)"
    using ReadVarArgs_sound [of as src st] assms by (auto simp: args_sound_def)
  then show ?thesis using assms by (auto simp: ConcatFn_def)
qed

lemma IfElseFn_sound:
  assumes "args_sound src as" "script st = src"
  shows "res_sound src (IfElseFn nm as st)"
proof (cases "length as = 2 \<or> length as = 3")
  case False
  with assms show ?thesis by (auto simp: IfElseFn_def)
next
  case True
  then have len: "0 < length as" "1 < length as" by auto
  obtain v st1 where 1: "Evaluate (as ! 0) st = Some (v, st1)" "script st1 = src"
    "v = None \<longrightarrow> errmsg st1 \<noteq> None"
    using args_sound_Evaluate [OF assms(1) len(1) assms(2)] by blast
  have "res_sound src (arg_eval (as ! 1) st1)"
    using args_sound_arg_eval [OF assms(1) len(2) 1(2)] .
  moreover have "length as = 3 \<Longrightarrow> res_sound src (arg_eval (as ! 2) st1)"
    using args_sound_arg_eval [OF assms(1) _ 1(2), of 2] by simp
  ultimately show ?thesis using True len 1
    by (auto simp: IfElseFn_def split: option.splits)
qed

lemma AbortFn_sound:
  assumes "args_sound src as" "script st = src"
  shows "res_sound src (AbortFn nm as st)"
proof (cases as)
  case Nil
  with assms show ?thesis by (simp add: AbortFn_def)
next
  case (Cons a as')
  with assms have "arg_sound src a" by (simp add: args_sound_def)
  then obtain v st1 where "Evaluate a st = Some (v, st1)" "script st1 = src"
    using Evaluate_sound [of src a st] assms(2) by blast
  with Cons show ?thesis by (auto simp: AbortFn_def split: option.splits)
qed

lemma SleepFn_sound:
  assumes "args_sound src as" "script st = src" "1 \<le> length as"
  shows "res_sound src (SleepFn nm as st)"
proof -
  have len: "0 < length as" using assms(3) by linarith
  obtain v st1 where "Evaluate (as ! 0) st = Some (v, st1)" "script st1 = src"
    "v = None \<longrightarrow> errmsg st1 \<noteq> None"
    using args_sound_Evaluate [OF assms(1) len assms(2)] by blast
  with len show ?thesis by (auto simp: SleepFn_def split: option.splits)
qed

lemma LogicalNotFn_sound:
  assumes "args_sound src as" "script st = src" "1 \<le> length as"
  shows "res_sound src (LogicalNotFn nm as st)"
proof -
  have len: "0 < length as" using assms(3) by linarith
  obtain v st1 where "Evaluate (as ! 0) st = Some (v, st1)" "script st1 = src"
    "v = None \<longrightarrow> errmsg st1 \<noteq> None"
    using args_sound_Evaluate [OF assms(1) len assms(2)] by blast
  with len show ?thesis by (auto simp: LogicalNotFn_def split: option.splits)
qed

lemma Logical_sound:
  assumes "args_sound src as" "script st = src" "2 \<le> length as"
  shows "res_sound src (LogicalAndFn nm as st)" "res_sound src (LogicalOrFn nm as st)"
proof -
  have len: "0 < length as" "1 < length as" using assms(3) by auto
  obtain v st1 where 1: "Evaluate (as ! 0) st = Some (v, st1)" "script st1 = src"
    "v = None \<longrightarrow> errmsg st1 \<noteq> None"
    using args_sound_Evaluate [OF assms(1) len(1) assms(2)] by blast
  have 2: "res_sound src (arg_eval (as ! 1) st1)"
    using args_sound_arg_eval [OF assms(1) len(2) 1(2)] .
  from len 1 2 show "res_sound src (LogicalAndFn nm as st)"
    by (auto simp: LogicalAndFn_def split: option.splits)
  from len 1 2 show "res_sound src (LogicalOrFn nm as st)"
    by (auto simp: LogicalOrFn_def split: option.splits)
qed

lemma SequenceFn_sound:
  assumes "args_sound src as" "script st = src" "2 \<le> length as"
  shows "res_sound src (SequenceFn nm as st)"
proof -
  have len: "0 < length as" "1 < length as" using assms(3) by auto
  obtain v st1 where 1: "arg_eval (as ! 0) st = Some (v, st1)" "script st1 = src"
    "v = None \<longrightarrow> errmsg st1 \<noteq> None"
    using args_sound_arg_eval [OF assms(1) len(1) assms(2)] by (rule res_soundE)
  have "res_sound src (arg_eval (as ! 1) st1)"
    using args_sound_arg_eval [OF assms(1) len(2) 1(2)] .
  with len 1 show ?thesis by (auto simp: SequenceFn_def split: option.splits)
qed

lemma LessThanIntFn_sound:
  assumes "args_sound src as" "script st = src"
  shows "res_sound src (LessThanIntFn nm as st)"
proof (cases "length as = 2")
  case False
  with assms show ?thesis by (simp add: LessThanIntFn_def)
next
  case True
  have "\<exists>r st'. ReadVarArgs as st = Some (r, st') \<and> script st' = src
    \<and> (r = None \<longrightarrow> errmsg st' \<noteq> None)"
    using ReadVarArgs_sound [of as src st] assms by (auto simp: args_sound_def)
  with True show ?thesis
    by (auto simp: LessThanIntFn_def ReadArgs_def Let_def split: option.splits)
qed

lemma GreaterThanIntFn_sound:
  assumes "args_sound src as" "script st = src"
  shows "res_sound src (GreaterThanIntFn nm as st)"
proof (cases "length as = 2")
  case False
  with assms show ?thesis by (simp add: GreaterThanIntFn_def)
next
  case True
  then have "args_sound src [as ! 1, as ! 0]"
    using assms(1) by (auto simp: args_sound_def)
  with True assms(2) show ?thesis
    by (auto simp: GreaterThanIntFn_def intro: LessThanIntFn_sound)
qed

lemma builtin_call_sound:
  assumes "builtin_arity f (length as)" "args_sound src as" "script st = src"
  shows "res_sound src (builtin_call f nm as st)"
proof (cases f)
  case AssertFn_p
  with assms show ?thesis
    by (auto simp: AssertFn_def args_sound_def intro: AssertFn_loop_sound)
next
  case StdoutFn_p
  with assms show ?thesis
    by (auto simp: StdoutFn_def args_sound_def intro: StdoutFn_loop_sound)
next
  case SubstringFn_p
  with assms show ?thesis
    by (auto simp: SubstringFn_def args_sound_def intro: binary_strings_sound)
next
  case EqualityFn_p
  with assms show ?thesis
    by (auto simp: EqualityFn_def args_sound_def intro: binary_strings_sound)
next
  case InequalityFn_p
  with assms show ?thesis
    by (auto simp: InequalityFn_def args_sound_def intro: binary_strings_sound)
qed (use assms in \<open>auto simp: Literal_def intro: ConcatFn_sound IfElseFn_sound AbortFn_sound
  SleepFn_sound LogicalNotFn_sound Logical_sound SequenceFn_sound LessThanIntFn_sound
  GreaterThanIntFn_sound\<close>)

interpretation builtins: edify_functions builtin_call builtin_arity
  by unfold_locales (auto intro: builtin_call_sound simp: args_sound_def)

section \<open>A reference semantics for the pure built-ins\<close>

text \<open>
  Expressions without \<open>abort\<close>, \<open>assert\<close>, \<open>sleep\<close> and \<open>stdout\<close>, with the operators' numbers of
  arguments, denote a string.
\<close>

fun pure_arity :: "builtin \<Rightarrow> nat \<Rightarrow> bool" where
  "pure_arity Literal_p n = True"
| "pure_arity ConcatFn_p n = True"
| "pure_arity IfElseFn_p n = (n = 2 \<or> n = 3)"
| "pure_arity LogicalAndFn_p n = (n = 2)"
| "pure_arity LogicalOrFn_p n = (n = 2)"
| "pure_arity LogicalNotFn_p n = (n = 1)"
| "pure_arity SubstringFn_p n = (n = 2)"
| "pure_arity EqualityFn_p n = (n = 2)"
| "pure_arity InequalityFn_p n = (n = 2)"
| "pure_arity SequenceFn_p n = (n = 2)"
| "pure_arity LessThanIntFn_p n = (n = 2)"
| "pure_arity GreaterThanIntFn_p n = (n = 2)"
| "pure_arity _ n = False"

fun pure_expr :: "builtin Expr \<Rightarrow> bool" where
  "pure_expr (Expr f nm as b e) \<longleftrightarrow> pure_arity f (length as) \<and> (\<forall>a \<in> set as. pure_expr a)"

definition truth :: "bool \<Rightarrow> string" where
  "truth b = (if b then ''t'' else [])"

definition int_less :: "string \<Rightarrow> string \<Rightarrow> bool" where
  "int_less s t = (case (parse_long s, parse_long t) of (Some x, Some y) \<Rightarrow> x < y | _ \<Rightarrow> False)"

fun denote_fn :: "builtin \<Rightarrow> string \<Rightarrow> string list \<Rightarrow> string" where
  "denote_fn Literal_p nm vs = nm"
| "denote_fn ConcatFn_p nm vs = concat vs"
| "denote_fn IfElseFn_p nm vs =
     (if vs ! 0 \<noteq> [] then vs ! 1 else if length vs = 3 then vs ! 2 else [])"
| "denote_fn LogicalAndFn_p nm vs = (if vs ! 0 \<noteq> [] then vs ! 1 else [])"
| "denote_fn LogicalOrFn_p nm vs = (if vs ! 0 \<noteq> [] then vs ! 0 else vs ! 1)"
| "denote_fn LogicalNotFn_p nm vs = truth (vs ! 0 = [])"
| "denote_fn SubstringFn_p nm vs = truth (strstr_found (vs ! 1) (vs ! 0))"
| "denote_fn EqualityFn_p nm vs = truth (vs ! 0 = vs ! 1)"
| "denote_fn InequalityFn_p nm vs = truth (vs ! 0 \<noteq> vs ! 1)"
| "denote_fn SequenceFn_p nm vs = vs ! 1"
| "denote_fn LessThanIntFn_p nm vs = truth (int_less (vs ! 0) (vs ! 1))"
| "denote_fn GreaterThanIntFn_p nm vs = truth (int_less (vs ! 1) (vs ! 0))"
| "denote_fn _ nm vs = []"

fun denote :: "builtin Expr \<Rightarrow> string" where
  "denote (Expr f nm as b e) = denote_fn f nm (map denote as)"

definition arg_is :: "'s arg \<Rightarrow> string \<Rightarrow> bool" where
  "arg_is a s \<longleftrightarrow> (\<forall>st. arg_eval a st = Some (Some (VAL_STRING s), st))"

lemma arg_is_Evaluate: "arg_is a s \<Longrightarrow> Evaluate a st = Some (Some s, st)"
  by (simp add: arg_is_def Evaluate_def)

lemma arg_is_eval: "arg_is a s \<Longrightarrow> arg_eval a st = Some (Some (VAL_STRING s), st)"
  by (simp add: arg_is_def)

lemma ReadVarArgs_args_are:
  "list_all2 arg_is as vs \<Longrightarrow> ReadVarArgs as st = Some (Some vs, st)"
  by (induction rule: list_all2_induct) (simp_all add: arg_is_Evaluate)

lemmas pure_defs = Literal_def ConcatFn_def IfElseFn_def LogicalAndFn_def LogicalOrFn_def
  LogicalNotFn_def SubstringFn_def EqualityFn_def InequalityFn_def SequenceFn_def
  LessThanIntFn_def GreaterThanIntFn_def binary_strings_def ReadArgs_def BooleanString_def
  int_less_def truth_def

lemma length_2_cases: "length xs = 2 \<Longrightarrow> \<exists>x y. xs = [x, y]"
  by (auto simp: length_Suc_conv numeral_2_eq_2)

lemma length_3_cases: "length xs = 3 \<Longrightarrow> \<exists>x y z. xs = [x, y, z]"
  by (auto simp: length_Suc_conv numeral_3_eq_3)

lemma builtin_call_pure:
  assumes "list_all2 arg_is as vs" and "pure_arity f (length as)"
  shows "builtin_call f nm as st = Some (Some (VAL_STRING (denote_fn f nm vs)), st)"
proof -
  consider (any) "f = Literal_p \<or> f = ConcatFn_p" | (one) "length as = 1" | (two) "length as = 2"
    | (three) "length as = 3"
    using assms(2) by (cases f) auto
  then show ?thesis
  proof cases
    case any
    with ReadVarArgs_args_are [OF assms(1)] assms(1) show ?thesis
      by (auto simp: pure_defs)
  next
    case one
    then obtain a where "as = [a]" by (auto simp: length_Suc_conv)
    with assms show ?thesis
      by (cases f) (auto simp: pure_defs list_all2_Cons1 arg_is_Evaluate)
  next
    case two
    then obtain a b where "as = [a, b]" using length_2_cases by blast
    with assms show ?thesis
      by (cases f)
        (auto simp: pure_defs list_all2_Cons1 arg_is_Evaluate arg_is_eval Let_def
          split: option.splits)
  next
    case three
    then obtain a b c where "as = [a, b, c]" using length_3_cases by blast
    with assms show ?thesis
      by (cases f) (auto simp: pure_defs list_all2_Cons1 arg_is_Evaluate arg_is_eval)
  qed
qed

lemma EvaluateValue_denote:
  fixes st :: "'a State_scheme"
  shows "pure_expr e \<Longrightarrow> EvaluateValue builtin_call e st = Some (Some (VAL_STRING (denote e)), st)"
proof (induction e arbitrary: st)
  case (Expr f nm as b e')
  have "\<forall>a \<in> set as. \<forall>st::'a State_scheme. EvaluateValue builtin_call a st = Some (Some (VAL_STRING (denote a)), st)"
    using Expr by auto
  then have "list_all2 (arg_is :: 'a State_scheme arg \<Rightarrow> _)
      (map (\<lambda>a. Arg (EvaluateValue builtin_call a) (expr_start a) (expr_end a)) as) (map denote as)"
    by (simp add: list_all2_conv_all_nth arg_is_def)
  with Expr.prems show ?case by (simp add: builtin_call_pure)
qed

section \<open>Properties\<close>


definition demo_state :: State where
  "demo_state = \<lparr>script = ''assert(a == b)'', errmsg = None, stdout_text = [], slept = []\<rparr>"

definition demo_literal :: "string \<Rightarrow> nat \<Rightarrow> builtin Expr" where
  "demo_literal s p = Expr Literal_p s [] p (p + length s)"

definition demo_assert :: "builtin Expr" where
  "demo_assert = Expr AssertFn_p ''assert''
     [Build EqualityFn_p (7, 13) [demo_literal ''a'' 7, demo_literal ''b'' 12]] 0 14"


text \<open>
  C29. Reference semantics: an expression built from the pure functions (literals, concatenation,
  comparison, logic, conditionals, sequencing) evaluates, from any state and without changing
  it, to the string the compositional semantics \<open>denote\<close> gives.
\<close>

theorem edify_denotes:
  assumes "pure_expr e"
  shows "EvaluateValue builtin_call e st = Some (Some (VAL_STRING (denote e)), st)"
  by (rule EvaluateValue_denote [OF assms])

theorem edify_denotes_witness:
  "EvaluateValue builtin_call
     (Build IfElseFn_p (0, 9) [Build EqualityFn_p (3, 4)
        [Build ConcatFn_p (3, 4) [demo_literal ''a'' 0, demo_literal ''b'' 0],
         demo_literal ''ab'' 0], demo_literal ''yes'' 0, demo_literal ''no'' 0]) demo_state
   = Some (Some (VAL_STRING ''yes''), demo_state)"
  by (subst edify_denotes) (simp_all add: Build_def demo_literal_def truth_def)

lemma parse_long_show_int:
  "LONG_MIN \<le> i \<Longrightarrow> i \<le> LONG_MAX \<Longrightarrow> parse_long (show_int i) = Some i"
  by (simp add: parse_long_def strtol10_show_int show_int_nonempty)

text \<open>
  C30. Integer comparison: on the decimal representations of two numbers in the range of
  \<open>long\<close>, \<open>less_than_int\<close> and \<open>greater_than_int\<close> return \<open>t\<close> exactly when the numbers compare
  so; the first evaluates its arguments left to right, the second right to left.
\<close>

theorem int_compare_correct:
  assumes "Evaluate a st = Some (Some (show_int x), st1)"
    and "Evaluate b st1 = Some (Some (show_int y), st2)"
    and "LONG_MIN \<le> x" "x \<le> LONG_MAX" "LONG_MIN \<le> y" "y \<le> LONG_MAX"
  shows "LessThanIntFn nm [a, b] st
       = Some (Some (VAL_STRING (if x < y then ''t'' else [])), st2)
    \<and> GreaterThanIntFn nm [b, a] st
       = Some (Some (VAL_STRING (if x < y then ''t'' else [])), st2)"
  using assms
  by (simp add: LessThanIntFn_def GreaterThanIntFn_def ReadArgs_def parse_long_show_int)

theorem int_compare_correct_witness:
  "LessThanIntFn ''f''
     [Arg (Literal (show_int (- 3)) []) 0 0, Arg (Literal (show_int 14) []) 0 0] demo_state
   = Some (Some (VAL_STRING ''t''), demo_state)"
  using int_compare_correct [of "Arg (Literal (show_int (- 3)) []) 0 0" demo_state "- 3" demo_state
      "Arg (Literal (show_int 14) []) 0 0" 14 demo_state "''f''"]
  by (simp add: Evaluate_def Literal_def LONG_MIN_def LONG_MAX_def)

text \<open>
  C32. Laziness: when the first operand decides, \<open>&&\<close>, \<open>||\<close> and both forms of the conditional
  return without looking at the other operand; \<open>f\<close> is arbitrary and may even be undefined.
\<close>

theorem short_circuit:
  "(Evaluate a st = Some (Some [], st1)
      \<longrightarrow> LogicalAndFn nm [a, f] st = Some (Some (VAL_STRING []), st1)
        \<and> IfElseFn nm [a, f] st = Some (Some (VAL_STRING []), st1)
        \<and> IfElseFn nm [a, f, b] st = arg_eval b st1)
   \<and> (Evaluate a st = Some (Some (c # s), st1)
      \<longrightarrow> LogicalOrFn nm [a, f] st = Some (Some (VAL_STRING (c # s)), st1)
        \<and> IfElseFn nm [a, b, f] st = arg_eval b st1)"
  by (simp add: LogicalAndFn_def LogicalOrFn_def IfElseFn_def BooleanString_def array_get_def)

theorem short_circuit_witness:
  "LogicalAndFn ''f'' [Arg (Literal [] []) 0 0, missing_arg] demo_state
     = Some (Some (VAL_STRING []), demo_state)
   \<and> LogicalOrFn ''f'' [Arg (Literal ''a'' []) 0 0, missing_arg] demo_state
     = Some (Some (VAL_STRING ''a''), demo_state)"
  using short_circuit [of "Arg (Literal [] []) 0 0" demo_state demo_state "''f''" missing_arg]
    short_circuit [of "Arg (Literal ''a'' []) 0 0" demo_state demo_state "''f''" missing_arg
      missing_arg "CHR ''a''" "[]"]
  by (simp add: Evaluate_def Literal_def)

lemma AssertFn_loop_skip:
  "list_all2 (\<lambda>a v. arg_is a v \<and> v \<noteq> []) as vs \<Longrightarrow> AssertFn_loop (as @ bs) st = AssertFn_loop bs st"
  by (induction rule: list_all2_induct) (auto simp: arg_is_Evaluate BooleanString_def)

text \<open>
  C33. Assertions: \<open>assert\<close> succeeds when every argument is true; otherwise it returns NULL at the
  first false one, with that argument's source text, cut out of the script, in the message, and
  evaluates nothing after it.
\<close>

theorem assert_reports_first_failure:
  assumes "list_all2 (\<lambda>a v. arg_is a v \<and> v \<noteq> []) as vs"
  shows "AssertFn nm as st = Some (Some (VAL_STRING []), st)
    \<and> (arg_is a [] \<and> script st = pre @ src @ post \<and> arg_start a = length pre
        \<and> arg_end a = length pre + length src
      \<longrightarrow> AssertFn nm (as @ a # bs) st
        = Some (None, st\<lparr>errmsg := Some (''assert failed: '' @ src)\<rparr>))"
  using AssertFn_loop_skip [OF assms, of "[]" st] AssertFn_loop_skip [OF assms, of "a # bs" st]
  by (auto simp: AssertFn_def arg_is_Evaluate BooleanString_def script_text_def set_errmsg_def)

theorem assert_reports_first_failure_witness:
  "AssertFn ''assert'' [Arg (Literal ''x'' []) 0 0, Arg (Literal [] []) 7 13, missing_arg] demo_state
     = Some (None, demo_state\<lparr>errmsg := Some ''assert failed: a == b''\<rparr>)"
  using assert_reports_first_failure [where as = "[Arg (Literal ''x'' []) 0 0]" and vs = "[''x'']"
      and a = "Arg (Literal [] []) 7 13" and st = demo_state and pre = "''assert(''"
      and src = "''a == b''" and post = "'')''" and nm = "''assert''" and bs = "[missing_arg]"]
  by (simp add: arg_is_def Literal_def demo_state_def)

end
