(* ===== verification/Edify_Table.thy ===== *)
theory Edify_Table
  imports Edify
begin

text \<open>
  The function table of \<open>edify/expr.c\<close>: a growing array filled by \<open>RegisterFunction\<close>, sorted by
  \<open>FinishRegistration\<close>, searched by \<open>FindFunction\<close>.  The table refines the map from names to
  functions.
\<close>

section \<open>The table\<close>

text \<open>
  \<open>fn_table\<close> is an array of \<open>fn_size\<close> slots; a slot not written since \<open>realloc\<close> is \<open>None\<close>.
\<close>

record 'f Table =
  fn_entries :: nat
  fn_size :: nat
  fn_table :: "(string \<times> 'f) option list"

definition empty_table :: "'f Table" where
  "empty_table = \<lparr>fn_entries = 0, fn_size = 0, fn_table = []\<rparr>"

definition realloc_table :: "nat \<Rightarrow> 'f option list \<Rightarrow> 'f option list" where
  "realloc_table n xs = take n xs @ replicate (n - length xs) None"

definition RegisterFunction :: "string \<Rightarrow> 'f \<Rightarrow> 'f Table \<Rightarrow> 'f Table" where
  "RegisterFunction name f t =
     (let t = (if fn_entries t \<ge> fn_size t
               then let n = fn_size t * 2 + 1
                    in t\<lparr>fn_size := n, fn_table := realloc_table n (fn_table t)\<rparr>
               else t)
      in t\<lparr>fn_table := (fn_table t)[fn_entries t := Some (name, f)],
           fn_entries := Suc (fn_entries t)\<rparr>)"

definition fn_entry_compare :: "string \<times> 'f \<Rightarrow> string \<times> 'f \<Rightarrow> int" where
  "fn_entry_compare a b = strcmp (fst a) (fst b)"

text \<open>
  \<open>qsort\<close> of the first \<open>fn_entries\<close> slots; entries with equal keys keep their order here, which
  the C library does not promise and nothing below relies on.
\<close>

definition FinishRegistration :: "'f Table \<Rightarrow> 'f Table" where
  "FinishRegistration t =
     t\<lparr>fn_table := map Some (sort_key fst (map the (take (fn_entries t) (fn_table t))))
                   @ drop (fn_entries t) (fn_table t)\<rparr>"

text \<open>
  \<open>bsearch\<close> as the C library runs it, on \<open>lim\<close> elements from \<open>base\<close>; \<open>cmp p\<close> compares the key
  with element \<open>p\<close>.
\<close>

fun bsearch :: "(nat \<Rightarrow> int) \<Rightarrow> nat \<Rightarrow> nat \<Rightarrow> nat option" where
  "bsearch cmp base lim =
     (if lim = 0 then None
      else let p = base + lim div 2; c = cmp p
           in if c = 0 then Some p
              else if c > 0 then bsearch cmp (p + 1) ((lim - 1) div 2)
              else bsearch cmp base (lim div 2))"

declare bsearch.simps [simp del]

definition FindFunction :: "string \<Rightarrow> 'f Table \<Rightarrow> 'f option" where
  "FindFunction name t =
     map_option (\<lambda>p. snd (the (fn_table t ! p)))
       (bsearch (\<lambda>p. strcmp name (fst (the (fn_table t ! p)))) 0 (fn_entries t))"

definition builtin_functions :: "(string \<times> builtin) list" where
  "builtin_functions =
     [(''ifelse'', IfElseFn_p), (''abort'', AbortFn_p), (''assert'', AssertFn_p),
      (''concat'', ConcatFn_p), (''is_substring'', SubstringFn_p), (''stdout'', StdoutFn_p),
      (''sleep'', SleepFn_p), (''less_than_int'', LessThanIntFn_p),
      (''greater_than_int'', GreaterThanIntFn_p)]"

definition RegisterBuiltins :: "builtin Table \<Rightarrow> builtin Table" where
  "RegisterBuiltins t = fold (\<lambda>(n, f). RegisterFunction n f) builtin_functions t"

section \<open>Binary search\<close>

lemma bsearch_sound:
  "bsearch cmp base lim = Some p \<Longrightarrow> base \<le> p \<and> p < base + lim \<and> cmp p = 0"
proof (induction cmp base lim rule: bsearch.induct)
  case (1 cmp base lim)
  then show ?case
    by (subst (asm) bsearch.simps [of cmp base lim]) (fastforce simp: Let_def split: if_splits)
qed

text \<open>
  The comparisons are monotone: positive, then zero, then negative along the array.
\<close>

definition cmp_sorted :: "(nat \<Rightarrow> int) \<Rightarrow> nat \<Rightarrow> bool" where
  "cmp_sorted cmp n \<longleftrightarrow> (\<forall>i j. i \<le> j \<longrightarrow> j < n \<longrightarrow> sgn (cmp j) \<le> sgn (cmp i))"

lemma bsearch_complete:
  "cmp_sorted cmp n \<Longrightarrow> base + lim \<le> n \<Longrightarrow> base \<le> q \<Longrightarrow> q < base + lim \<Longrightarrow> cmp q = 0
    \<Longrightarrow> bsearch cmp base lim \<noteq> None"
proof (induction cmp base lim rule: bsearch.induct)
  case (1 cmp base lim)
  define p where "p = base + lim div 2"
  have pos: "0 < lim" and p: "p < base + lim" using "1.prems" by (auto simp: p_def)
  consider (eq) "cmp p = 0" | (right) "cmp p > 0" | (left) "cmp p < 0" by linarith
  then show ?case
  proof cases
    case eq
    with pos show ?thesis by (simp add: bsearch.simps [of cmp base lim] p_def)
  next
    case right
    have "\<not> q \<le> p"
    proof
      assume "q \<le> p"
      moreover have "p < n" using p "1.prems"(2) by simp
      ultimately have "sgn (cmp p) \<le> sgn (cmp q)" using "1.prems"(1) by (simp add: cmp_sorted_def)
      with right "1.prems" show False by simp
    qed
    then have "bsearch cmp (p + 1) ((lim - 1) div 2) \<noteq> None"
      using "1.IH"(1) [OF _ p_def refl] "1.prems" right pos by (auto simp: p_def)
    with right pos show ?thesis
      by (simp add: bsearch.simps [of cmp base lim] p_def Let_def)
  next
    case left
    have "\<not> p \<le> q"
    proof
      assume "p \<le> q"
      moreover have "q < n" using "1.prems"(2,4) by simp
      ultimately have "sgn (cmp q) \<le> sgn (cmp p)" using "1.prems"(1) by (simp add: cmp_sorted_def)
      with left "1.prems" show False by simp
    qed
    then have "bsearch cmp base (lim div 2) \<noteq> None"
      using "1.IH"(2) [OF _ p_def refl] "1.prems" left pos by (auto simp: p_def)
    with left pos show ?thesis
      by (simp add: bsearch.simps [of cmp base lim] p_def Let_def)
  qed
qed

section \<open>The table as a map\<close>

text \<open>The registered functions, in the order of their registration.\<close>

definition table_entries :: "'f Table \<Rightarrow> (string \<times> 'f) list" where
  "table_entries t = map the (take (fn_entries t) (fn_table t))"

definition table_inv :: "'f Table \<Rightarrow> bool" where
  "table_inv t \<longleftrightarrow> fn_entries t \<le> fn_size t \<and> length (fn_table t) = fn_size t
     \<and> (\<forall>i < fn_entries t. fn_table t ! i \<noteq> None)"

lemma table_inv_empty: "table_inv empty_table"
  by (simp add: table_inv_def empty_table_def)

lemma table_entries_empty [simp]: "table_entries empty_table = []"
  by (simp add: table_entries_def empty_table_def)

lemma RegisterFunction_inv:
  assumes "table_inv t"
  shows "table_inv (RegisterFunction name f t)"
    and "table_entries (RegisterFunction name f t) = table_entries t @ [(name, f)]"
proof -
  show "table_inv (RegisterFunction name f t)"
    using assms
    by (auto simp: table_inv_def RegisterFunction_def Let_def realloc_table_def nth_append
        nth_list_update)
  show "table_entries (RegisterFunction name f t) = table_entries t @ [(name, f)]"
    using assms
    by (auto simp: table_inv_def table_entries_def RegisterFunction_def Let_def realloc_table_def
        take_Suc_conv_app_nth)
qed

lemma register_all:
  "table_inv t \<Longrightarrow> table_inv (fold (\<lambda>(n, f). RegisterFunction n f) regs t)
    \<and> table_entries (fold (\<lambda>(n, f). RegisterFunction n f) regs t) = table_entries t @ regs"
  by (induction regs arbitrary: t) (auto simp: RegisterFunction_inv)

lemma FinishRegistration_entries:
  assumes "table_inv t"
  shows "table_entries (FinishRegistration t) = sort_key fst (table_entries t)"
    and "fn_entries (FinishRegistration t) = length (table_entries t)"
  using assms by (simp_all add: table_entries_def FinishRegistration_def table_inv_def)

lemma table_nth:
  "table_inv t \<Longrightarrow> i < fn_entries t \<Longrightarrow> the (fn_table t ! i) = table_entries t ! i"
  by (simp add: table_entries_def table_inv_def)

lemma FinishRegistration_inv: "table_inv t \<Longrightarrow> table_inv (FinishRegistration t)"
  by (auto simp: table_inv_def FinishRegistration_def nth_append)

lemma sorted_fst_cmp_sorted:
  assumes "sorted (map fst es)"
  shows "cmp_sorted (\<lambda>p. strcmp name (fst (es ! p))) (length es)"
proof -
  have "fst (es ! i) \<le> fst (es ! j)" if "i \<le> j" "j < length es" for i j
    using sorted_nth_mono [OF assms that(1)] that by simp
  then show ?thesis
    by (fastforce simp: cmp_sorted_def strcmp_def)
qed

lemma FindFunction_finished:
  assumes "table_inv t" and "sorted (map fst (table_entries t))"
    and "distinct (map fst (table_entries t))"
  shows "FindFunction name t = map_of (table_entries t) name"
proof -
  let ?es = "table_entries t" and ?n = "fn_entries t"
  let ?cmp = "\<lambda>p. strcmp name (fst (the (fn_table t ! p)))"
  have len: "length ?es = ?n" using assms(1) by (simp add: table_entries_def table_inv_def)
  have eq: "the (fn_table t ! p) = ?es ! p" if "p < ?n" for p
    using table_nth [OF assms(1) that] .
  show ?thesis
  proof (cases "bsearch ?cmp 0 ?n")
    case (Some p)
    then have p: "p < ?n" "fst (?es ! p) = name"
      using bsearch_sound [OF Some] eq [of p] by auto
    then have "map_of ?es name = Some (snd (?es ! p))"
      using assms(3) len by (metis map_of_is_SomeI nth_mem prod.collapse)
    with Some p eq show ?thesis by (simp add: FindFunction_def)
  next
    case None
    have sorted: "cmp_sorted ?cmp ?n"
      using sorted_fst_cmp_sorted [OF assms(2), of name] eq len by (auto simp: cmp_sorted_def)
    have cmp: "?cmp q \<noteq> 0" if "q < ?n" for q
    proof
      assume "?cmp q = 0"
      from bsearch_complete [OF sorted _ _ _ this, of 0 ?n] that None show False by simp
    qed
    have "fst (?es ! q) \<noteq> name" if "q < ?n" for q
      using cmp [OF that] eq [OF that] by auto
    then have "name \<notin> fst ` set ?es"
      using len by (force simp: in_set_conv_nth)
    then have "map_of ?es name = None" by (simp add: map_of_eq_None_iff)
    with None show ?thesis by (simp add: FindFunction_def)
  qed
qed

lemma map_of_sort_key:
  assumes "distinct (map fst es)"
  shows "map_of (sort_key fst es) = map_of es"
  using assms
  by (intro map_of_inject_set [THEN iffD2])
    (simp_all add: distinct_map inj_on_def)

lemma FindFunction_registered:
  assumes "distinct (map fst regs)"
  shows "FindFunction name
      (FinishRegistration (fold (\<lambda>(n, f). RegisterFunction n f) regs empty_table))
    = map_of regs name"
proof -
  let ?t = "fold (\<lambda>(n, f). RegisterFunction n f) regs empty_table"
  have t: "table_inv ?t" "table_entries ?t = regs"
    using register_all [OF table_inv_empty, of regs] by auto
  have d: "distinct (map fst (sort_key fst regs))"
    using assms by (simp add: distinct_map)
  have "FindFunction name (FinishRegistration ?t) = map_of (sort_key fst regs) name"
    using FindFunction_finished [OF FinishRegistration_inv [OF t(1)], of name]
    by (simp add: FinishRegistration_entries [OF t(1)] t(2) d)
  then show ?thesis by (simp add: map_of_sort_key [OF assms])
qed

text \<open>
  C34. The function table refines a map: after any sequence of registrations under distinct
  names (the array grows on the way) and \<open>FinishRegistration\<close>, \<open>FindFunction\<close> returns exactly
  the function registered under a name and NULL for any other name.
\<close>

theorem FindFunction_correct:
  assumes "distinct (map fst regs)"
  shows "FindFunction name
      (FinishRegistration (fold (\<lambda>(n, f). RegisterFunction n f) regs empty_table))
    = map_of regs name"
  using assms by (rule FindFunction_registered)

theorem FindFunction_correct_witness:
  "FindFunction ''sleep'' (FinishRegistration (RegisterBuiltins empty_table)) = Some SleepFn_p
   \<and> FindFunction ''sleepy'' (FinishRegistration (RegisterBuiltins empty_table)) = None"
  unfolding RegisterBuiltins_def builtin_functions_def by (subst (1 2) FindFunction_correct) simp_all

end
