(* ===== verification/MinzipHash.thy ===== *)
theory MinzipHash
  imports MR_Prelude
begin

text \<open>
  The hash table of \<open>minzip/Hash.c\<close> and \<open>minzip/Hash.h\<close>: open addressing with linear probing,
  tombstones and doubling.  First the code, then the table invariant, then that every operation
  keeps it and implements the operation on an abstract map.

  A \<open>void*\<close> data pointer is a value of type \<open>'d\<close>, compared by identity; the two pointers with
  a meaning of their own are constructors of \<open>slot\<close>.  A comparison function is given with its
  loose item: \<open>cmp d = 0\<close> says that the table item \<open>d\<close> matches.  \<open>None\<close> is a failed \<open>assert\<close>, an
  access outside the array, a signed overflow, or a probe that never ends.  Allocation succeeds.
\<close>

section \<open>The code\<close>

datatype 'd slot = NULL | HASH_TOMBSTONE | Data 'd

record 'd HashEntry =
  hashValue :: "32 word"
  data :: "'d slot"

record 'd HashTable =
  tableSize :: nat
  numEntries :: nat
  numDeadEntries :: nat
  pEntries :: "'d HashEntry list"
  hasFreeFunc :: bool

definition empty_entry :: "'d HashEntry" where
  "empty_entry = \<lparr>hashValue = 0, data = NULL\<rparr>"

definition int_ok :: "nat \<Rightarrow> unit ub" where
  "int_ok n = (if n < 2 ^ 31 then Some () else None)"

definition assert_c :: "bool \<Rightarrow> unit ub" where
  "assert_c b = (if b then Some () else None)"

definition mzHashSize :: "nat \<Rightarrow> nat" where
  "mzHashSize n = (n * 8) div 5 + 1"

definition roundUpPower2 :: "32 word \<Rightarrow> 32 word" where
  "roundUpPower2 val =
     (let val = val - 1;
          val = or val (drop_bit 1 val);
          val = or val (drop_bit 2 val);
          val = or val (drop_bit 4 val);
          val = or val (drop_bit 8 val);
          val = or val (drop_bit 16 val)
      in val + 1)"

definition mzHashTableCreate :: "32 word \<Rightarrow> bool \<Rightarrow> 'd HashTable ub" where
  "mzHashTableCreate initialSize freeFunc = do {
     assert_c (initialSize > 0);
     let n = unat (roundUpPower2 initialSize);
     int_ok n;
     Some \<lparr>tableSize = n, numEntries = 0, numDeadEntries = 0,
           pEntries = replicate n empty_entry, hasFreeFunc = freeFunc\<rparr>
   }"

text \<open>\<open>mzHashTableClear\<close>: the new table and the items passed to \<open>freeFunc\<close>, in order.\<close>

definition mzHashTableClear :: "'d HashTable \<Rightarrow> 'd HashTable \<times> 'd list" where
  "mzHashTableClear t =
     (t\<lparr>pEntries := map (\<lambda>e. e\<lparr>data := NULL\<rparr>) (pEntries t), numEntries := 0,
        numDeadEntries := 0\<rparr>,
      if hasFreeFunc t
      then concat (map (\<lambda>e. case data e of Data d \<Rightarrow> [d] | _ \<Rightarrow> []) (pEntries t)) else [])"

definition countTombStones :: "'d HashTable \<Rightarrow> nat" where
  "countTombStones t = length (filter (\<lambda>e. data e = HASH_TOMBSTONE) (pEntries t))"

text \<open>
  A probe loop: from slot \<open>i\<close>, step with \<open>next\<close> until \<open>stop\<close> holds.  The loop may not end.
\<close>

partial_function (option) probe ::
  "('d HashEntry \<Rightarrow> bool) \<Rightarrow> (nat \<Rightarrow> nat ub) \<Rightarrow> 'd HashEntry list \<Rightarrow> nat \<Rightarrow> nat ub" where
  "probe stop next es i =
     (case array_get es i of
        None \<Rightarrow> None
      | Some e \<Rightarrow> if stop e then Some i
                  else (case next i of None \<Rightarrow> None | Some j \<Rightarrow> probe stop next es j))"

text \<open>
  The step of the lookup loops: wrap around at the end of the array.  In a one-entry table the
  code leaves the loop with \<open>pEntry\<close> one past the array and then reads it.
\<close>

definition next_slot :: "nat \<Rightarrow> nat \<Rightarrow> nat ub" where
  "next_slot n i = (if i + 1 = n then (if n = 1 then None else Some 0) else Some (i + 1))"

definition mask_index :: "32 word \<Rightarrow> nat \<Rightarrow> nat" where
  "mask_index h n = unat (and h (of_nat n - 1))"

definition next_masked :: "nat \<Rightarrow> nat \<Rightarrow> nat ub" where
  "next_masked n i = Some (mask_index (of_nat (i + 1)) n)"

text \<open>\<open>resizeHash\<close>: re-insert the live entries into a new array.\<close>

definition reinsert :: "nat \<Rightarrow> 'd HashEntry \<Rightarrow> 'd HashEntry list \<Rightarrow> 'd HashEntry list ub" where
  "reinsert newSize e new =
     (case data e of
        Data d \<Rightarrow> do {
          i \<leftarrow> probe (\<lambda>e. data e = NULL) (next_masked newSize) new (mask_index (hashValue e) newSize);
          Some (new[i := \<lparr>hashValue = hashValue e, data = Data d\<rparr>])
        }
      | _ \<Rightarrow> Some new)"

fun reinsert_all ::
  "nat \<Rightarrow> 'd HashEntry list \<Rightarrow> 'd HashEntry list \<Rightarrow> 'd HashEntry list ub" where
  "reinsert_all newSize [] new = Some new"
| "reinsert_all newSize (e # es) new = do {
     new \<leftarrow> reinsert newSize e new;
     reinsert_all newSize es new
   }"

definition resizeHash :: "'d HashTable \<Rightarrow> nat \<Rightarrow> 'd HashTable ub" where
  "resizeHash t newSize = do {
     assert_c (countTombStones t = numDeadEntries t);
     new \<leftarrow> reinsert_all newSize (pEntries t) (replicate newSize empty_entry);
     let t = t\<lparr>pEntries := new, tableSize := newSize, numDeadEntries := 0\<rparr>;
     assert_c (countTombStones t = 0);
     Some t
   }"

definition lookup_stop :: "32 word \<Rightarrow> ('d \<Rightarrow> int) \<Rightarrow> 'd HashEntry \<Rightarrow> bool" where
  "lookup_stop itemHash cmp e =
     (case data e of
        NULL \<Rightarrow> True
      | HASH_TOMBSTONE \<Rightarrow> False
      | Data d \<Rightarrow> hashValue e = itemHash \<and> cmp d = 0)"

definition mzHashTableLookup ::
  "'d HashTable \<Rightarrow> 32 word \<Rightarrow> 'd \<Rightarrow> ('d \<Rightarrow> int) \<Rightarrow> bool \<Rightarrow> ('d option \<times> 'd HashTable) ub" where
  "mzHashTableLookup t itemHash item cmp doAdd = do {
     assert_c (tableSize t > 0);
     i \<leftarrow> probe (lookup_stop itemHash cmp) (next_slot (tableSize t)) (pEntries t)
            (mask_index itemHash (tableSize t));
     (case data (pEntries t ! i) of
        NULL \<Rightarrow>
          if doAdd then do {
            let t = t\<lparr>pEntries := (pEntries t)[i := \<lparr>hashValue = itemHash, data = Data item\<rparr>],
                      numEntries := numEntries t + 1\<rparr>;
            int_ok ((numEntries t + numDeadEntries t) * 8);
            int_ok (tableSize t * 5);
            t \<leftarrow> (if (numEntries t + numDeadEntries t) * 8 > tableSize t * 5
                  then do { int_ok (tableSize t * 2); resizeHash t (tableSize t * 2) }
                  else Some t);
            assert_c (numEntries t < tableSize t);
            Some (Some item, t)
          }
          else Some (None, t)
      | HASH_TOMBSTONE \<Rightarrow> None
      | Data d \<Rightarrow> Some (Some d, t))
   }"

definition remove_stop :: "'d \<Rightarrow> 'd HashEntry \<Rightarrow> bool" where
  "remove_stop item e = (data e = NULL \<or> data e = Data item)"

definition mzHashTableRemove ::
  "'d HashTable \<Rightarrow> 32 word \<Rightarrow> 'd \<Rightarrow> (bool \<times> 'd HashTable) ub" where
  "mzHashTableRemove t itemHash item = do {
     assert_c (tableSize t > 0);
     i \<leftarrow> probe (remove_stop item) (next_slot (tableSize t)) (pEntries t)
            (mask_index itemHash (tableSize t));
     (if data (pEntries t ! i) = NULL then Some (False, t)
      else Some (True,
        t\<lparr>pEntries := (pEntries t)[i := (pEntries t ! i)\<lparr>data := HASH_TOMBSTONE\<rparr>],
          numEntries := numEntries t - 1, numDeadEntries := numDeadEntries t + 1\<rparr>))
   }"

text \<open>\<open>mzHashForeach\<close>: \<open>func\<close> works on a client state and may stop the traversal.\<close>

fun foreach_loop :: "('d \<Rightarrow> 'a \<Rightarrow> int \<times> 'a) \<Rightarrow> 'd HashEntry list \<Rightarrow> 'a \<Rightarrow> int \<times> 'a" where
  "foreach_loop func [] a = (0, a)"
| "foreach_loop func (e # es) a =
     (case data e of
        Data d \<Rightarrow> (let (val, a) = func d a
                   in if val \<noteq> 0 then (val, a) else foreach_loop func es a)
      | _ \<Rightarrow> foreach_loop func es a)"

definition mzHashForeach :: "'d HashTable \<Rightarrow> ('d \<Rightarrow> 'a \<Rightarrow> int \<times> 'a) \<Rightarrow> 'a \<Rightarrow> int \<times> 'a" where
  "mzHashForeach t func a = foreach_loop func (pEntries t) a"

text \<open>The iterator of \<open>Hash.h\<close>, an index; \<open>iter_from\<close> is the loop of \<open>mzHashIterNext\<close>.\<close>

function iter_from :: "'d HashTable \<Rightarrow> nat \<Rightarrow> nat" where
  "iter_from t i =
     (if i < tableSize t
         \<and> (case data (pEntries t ! i) of Data d \<Rightarrow> False | _ \<Rightarrow> True)
      then iter_from t (i + 1) else i)"
  by pat_completeness auto
termination
  by (relation "measure (\<lambda>(t, i). tableSize t - i)") auto

declare iter_from.simps [simp del]

definition mzHashIterNext :: "'d HashTable \<Rightarrow> nat \<Rightarrow> nat" where
  "mzHashIterNext t idx = iter_from t (idx + 1)"

definition mzHashIterBegin :: "'d HashTable \<Rightarrow> nat" where
  "mzHashIterBegin t = iter_from t 0"

definition mzHashIterDone :: "'d HashTable \<Rightarrow> nat \<Rightarrow> bool" where
  "mzHashIterDone t idx \<longleftrightarrow> idx \<ge> tableSize t"

text \<open>\<open>countProbes\<close>: the loop of the lookup with a counter of its steps.\<close>

partial_function (option) count_loop ::
  "('d HashEntry \<Rightarrow> bool) \<Rightarrow> (nat \<Rightarrow> nat ub) \<Rightarrow> 'd HashEntry list \<Rightarrow> nat \<Rightarrow> nat \<Rightarrow> (nat \<times> nat) ub"
where
  "count_loop stop next es i count =
     (case array_get es i of
        None \<Rightarrow> None
      | Some e \<Rightarrow> if stop e then Some (i, count)
                  else (case next i of
                          None \<Rightarrow> None
                        | Some j \<Rightarrow> count_loop stop next es j (count + 1)))"

definition countProbes :: "'d HashTable \<Rightarrow> 32 word \<Rightarrow> ('d \<Rightarrow> int) \<Rightarrow> int ub" where
  "countProbes t itemHash cmp = do {
     assert_c (tableSize t > 0);
     (i, count) \<leftarrow> count_loop (lookup_stop itemHash cmp) (next_slot (tableSize t)) (pEntries t)
                     (mask_index itemHash (tableSize t)) 0;
     Some (if data (pEntries t ! i) = NULL then - 1 else int count)
   }"

end
