(* ===== verification/HashRefine.thy ===== *)
theory HashRefine
  imports MinzipHash "HOL-Library.Multiset"
begin

text \<open>
  Correctness of the hash table of \<open>minzip/Hash.c\<close>: sizes are powers of two, the probe loops end
  at the first stopping slot, and every operation keeps the table invariant and implements its
  operation on the abstract map from keys to items.
\<close>

section \<open>Powers of two and masks\<close>

lemma smear_step:
  fixes v x :: "32 word"
  assumes "\<And>i. bit x i \<longleftrightarrow> (\<exists>c<n. bit v (i + c))"
  shows "bit (or x (drop_bit n x)) i \<longleftrightarrow> (\<exists>c<2 * n. bit v (i + c))"
proof -
  have "bit (or x (drop_bit n x)) i \<longleftrightarrow> (\<exists>c<n. bit v (i + c)) \<or> (\<exists>c<n. bit v (n + i + c))"
    by (simp add: bit_or_iff bit_drop_bit_eq assms)
  also have "\<dots> \<longleftrightarrow> (\<exists>c<2 * n. bit v (i + c))"
  proof
    assume "(\<exists>c<n. bit v (i + c)) \<or> (\<exists>c<n. bit v (n + i + c))"
    then show "\<exists>c<2 * n. bit v (i + c)"
    proof
      assume "\<exists>c<n. bit v (n + i + c)"
      then obtain c where "c < n" "bit v (i + (n + c))" by (auto simp: ac_simps)
      then show ?thesis by (intro exI [of _ "n + c"]) simp
    next
      assume "\<exists>c<n. bit v (i + c)"
      then obtain c where "c < n" "bit v (i + c)" by auto
      then show ?thesis by (intro exI [of _ c]) simp
    qed
  next
    assume "\<exists>c<2 * n. bit v (i + c)"
    then obtain c where c: "c < 2 * n" "bit v (i + c)" by auto
    show "(\<exists>c<n. bit v (i + c)) \<or> (\<exists>c<n. bit v (n + i + c))"
    proof (cases "c < n")
      case False
      then have "c - n < n" "bit v (n + i + (c - n))" using c by (simp_all add: ac_simps)
      then show ?thesis by blast
    qed (use c in blast)
  qed
  finally show ?thesis .
qed

definition smear :: "32 word \<Rightarrow> 32 word" where
  "smear v = (let v = or v (drop_bit 1 v); v = or v (drop_bit 2 v); v = or v (drop_bit 4 v);
                  v = or v (drop_bit 8 v) in or v (drop_bit 16 v))"

lemma bit_smear: "bit (smear v) i \<longleftrightarrow> (\<exists>j\<ge>i. bit v j)"
proof -
  have 1: "\<And>i. bit v i \<longleftrightarrow> (\<exists>c<1. bit v (i + c))" by auto
  note 2 = smear_step [OF 1] note 3 = smear_step [OF 2] note 4 = smear_step [OF 3]
  note 5 = smear_step [OF 4] note 6 = smear_step [OF 5]
  have "bit (smear v) i \<longleftrightarrow> (\<exists>c<32. bit v (i + c))"
    using 6 [of i] by (simp add: smear_def Let_def)
  also have "\<dots> \<longleftrightarrow> (\<exists>j\<ge>i. bit v j)"
  proof
    assume "\<exists>j\<ge>i. bit v j"
    then obtain j where j: "i \<le> j" "bit v j" by auto
    then have "j < 32" using bit_imp_le_length [of v j] by simp
    with j have "j - i < 32" "bit v (i + (j - i))" by auto
    then show "\<exists>c<32. bit v (i + c)" by blast
  next
    assume "\<exists>c<32. bit v (i + c)"
    then obtain c where "bit v (i + c)" by auto
    then show "\<exists>j\<ge>i. bit v j" by (intro exI [of _ "i + c"]) simp
  qed
  finally show ?thesis .
qed

lemma bit_word_bound: "bit (v :: 32 word) j \<Longrightarrow> 2 ^ j \<le> unat v"
proof (rule ccontr)
  assume b: "bit v j" and "\<not> 2 ^ j \<le> unat v"
  then have "unat v div 2 ^ j = 0" by simp
  then have "\<not> bit (unat v) j" by (simp add: bit_iff_odd)
  with b show False using bit_imp_le_length [OF b] by (simp add: bit_unsigned_iff)
qed

lemma roundUpPower2_smear: "roundUpPower2 val = smear (val - 1) + 1"
  by (simp add: roundUpPower2_def smear_def Let_def)

lemma unat_2_power:
  assumes "k < 32"
  shows "unat (2 ^ k :: 32 word) = 2 ^ k"
proof -
  have "take_bit 32 ((2 :: nat) ^ k) = 2 ^ k"
    by (rule take_bit_nat_eq_self, rule power_strict_increasing [OF assms]) simp
  then have "unat (word_of_nat (2 ^ k) :: 32 word) = 2 ^ k"
    by (simp only: unsigned_of_nat) simp
  then show ?thesis by simp
qed

lemma roundUpPower2_spec:
  assumes "1 \<le> unat val" "unat val \<le> 2 ^ 31"
  shows "\<exists>k \<le> 31. unat (roundUpPower2 val) = 2 ^ k \<and> unat val \<le> 2 ^ k \<and> 2 ^ k < 2 * unat val"
proof (cases "unat val = 1")
  case True
  then have "val = 1" by (metis unsigned_1 unsigned_word_eqI)
  then show ?thesis by (intro exI [of _ 0]) (simp add: roundUpPower2_smear smear_def)
next
  case False
  let ?v = "val - 1"
  have v: "unat ?v = unat val - 1"
    using assms(1) by (metis One_nat_def diff_is_0_eq unat_minus_one unsigned_0 not_one_le_zero)
  then have pos: "1 \<le> unat ?v" using False assms by simp
  obtain k where k: "2 ^ k \<le> unat ?v" "unat ?v < 2 ^ (k + 1)"
    using ex_power_ivl1 [OF _ pos, of 2] by auto
  have bitk: "bit ?v k"
  proof -
    have "unat ?v div 2 ^ k = 1" using k by (simp add: div_nat_eqI)
    then have "bit (unat ?v) k" by (simp add: bit_iff_odd)
    then show ?thesis by (simp add: bit_unsigned_iff)
  qed
  have k31: "k < 31"
  proof -
    have "(2 :: nat) ^ k < 2 ^ 31" using k(1) v assms by linarith
    then show ?thesis by (rule power_less_imp_less_exp [rotated]) simp
  qed
  have "bit (smear ?v) i \<longleftrightarrow> i \<le> k" for i
  proof
    assume "bit (smear ?v) i"
    then obtain j where j: "i \<le> j" "bit ?v j" by (auto simp: bit_smear)
    from j(2) have "(2 :: nat) ^ j < 2 ^ (k + 1)"
      using bit_word_bound [of ?v j] k(2) by linarith
    then have "j < k + 1" by (rule power_less_imp_less_exp [rotated]) simp
    with j(1) show "i \<le> k" by simp
  next
    assume "i \<le> k"
    with bitk show "bit (smear ?v) i" by (auto simp: bit_smear)
  qed
  then have "smear ?v = mask (k + 1)"
    using k31 by (intro bit_word_eqI) (auto simp: bit_mask_iff less_Suc_eq_le)
  then have "roundUpPower2 val = 2 ^ (k + 1)"
    by (simp add: roundUpPower2_smear mask_eq_exp_minus_1)
  then have "unat (roundUpPower2 val) = 2 ^ (k + 1)"
    using k31 unat_2_power [of "k + 1"] by simp
  moreover have "unat val \<le> 2 ^ (k + 1)" "2 ^ (k + 1) < 2 * unat val"
    using k v assms(1) unfolding power_add power_one_right by linarith+
  ultimately show ?thesis using k31 by (intro exI [of _ "k + 1"]) simp
qed

lemma mask_index_power2:
  assumes "k < 32"
  shows "mask_index h (2 ^ k) = unat h mod 2 ^ k"
proof -
  have "(of_nat (2 ^ k) :: 32 word) - 1 = mask k"
    by (simp add: mask_eq_exp_minus_1)
  then have "and h (of_nat (2 ^ k) - 1) = take_bit k h"
    by (simp only: take_bit_eq_mask)
  then have "mask_index h (2 ^ k) = take_bit k (unat h)"
    by (simp only: mask_index_def unsigned_take_bit_eq)
  then show ?thesis by (simp only: take_bit_eq_mod)
qed

section \<open>Slots and their contents\<close>

definition slot_items :: "'d HashEntry \<Rightarrow> 'd list" where
  "slot_items e = (case data e of Data d \<Rightarrow> [d] | _ \<Rightarrow> [])"

definition live :: "'d HashEntry list \<Rightarrow> 'd list" where
  "live es = concat (map slot_items es)"

definition tombs :: "'d HashEntry list \<Rightarrow> nat" where
  "tombs es = length (filter (\<lambda>e. data e = HASH_TOMBSTONE) es)"

definition nulls :: "'d HashEntry list \<Rightarrow> nat" where
  "nulls es = length (filter (\<lambda>e. data e = NULL) es)"

lemma slot_items_simps [simp]:
  "data e = NULL \<Longrightarrow> slot_items e = []" "data e = HASH_TOMBSTONE \<Longrightarrow> slot_items e = []"
  "data e = Data d \<Longrightarrow> slot_items e = [d]"
  by (simp_all add: slot_items_def)

lemma live_simps [simp]:
  "live [] = []" "live (e # es) = slot_items e @ live es" "live (xs @ ys) = live xs @ live ys"
  by (simp_all add: live_def)

lemma slots_partition: "length (live es) + tombs es + nulls es = length es"
proof (induction es)
  case (Cons e es)
  then show ?case by (cases "data e") (simp_all add: tombs_def nulls_def)
qed (simp add: tombs_def nulls_def)

lemma in_live_iff: "d \<in> set (live es) \<longleftrightarrow> (\<exists>i < length es. data (es ! i) = Data d)"
proof -
  have "d \<in> set (slot_items e) \<longleftrightarrow> data e = Data d" for e :: "'a HashEntry"
    by (cases "data e") auto
  then have "d \<in> set (live es) \<longleftrightarrow> (\<exists>e \<in> set es. data e = Data d)"
    by (auto simp: live_def)
  then show ?thesis by (metis in_set_conv_nth)
qed

lemma live_split:
  assumes "i < length es"
  shows "live es = live (take i es) @ slot_items (es ! i) @ live (drop (Suc i) es)"
    and "live (es[i := e]) = live (take i es) @ slot_items e @ live (drop (Suc i) es)"
proof -
  show "live es = live (take i es) @ slot_items (es ! i) @ live (drop (Suc i) es)"
    by (subst id_take_nth_drop [OF assms]) simp
  show "live (es[i := e]) = live (take i es) @ slot_items e @ live (drop (Suc i) es)"
    by (simp add: upd_conv_take_nth_drop [OF assms])
qed

lemma tombs_split:
  assumes "i < length es"
  shows "tombs (es[i := e]) + of_bool (data (es ! i) = HASH_TOMBSTONE)
       = tombs es + of_bool (data e = HASH_TOMBSTONE)"
proof -
  have "tombs es = tombs (take i es @ es ! i # drop (Suc i) es)"
    by (simp add: id_take_nth_drop [OF assms, symmetric])
  then show ?thesis
    by (simp add: upd_conv_take_nth_drop [OF assms] tombs_def)
qed

lemma live_replicate_empty [simp]: "live (replicate n empty_entry) = []"
  by (simp add: live_def empty_entry_def)

lemma tombs_replicate_empty [simp]: "tombs (replicate n empty_entry) = 0"
  by (simp add: tombs_def empty_entry_def)

lemma countTombStones_tombs: "countTombStones t = tombs (pEntries t)"
  by (simp add: countTombStones_def tombs_def)

section \<open>Probing\<close>

lemma cyclic_offset:
  fixes n :: nat
  assumes "s < n" "i < n"
  obtains k where "k < n" "(s + k) mod n = i"
proof
  show "(i + n - s) mod n < n" using assms by simp
  have "(s + (i + n - s)) mod n = i" using assms by simp
  then show "(s + (i + n - s) mod n) mod n = i" by (simp add: mod_add_right_eq)
qed

definition next_ok :: "(nat \<Rightarrow> nat ub) \<Rightarrow> nat \<Rightarrow> bool" where
  "next_ok step n \<longleftrightarrow> (n \<noteq> 1 \<longrightarrow> (\<forall>i < n. step i = Some ((i + 1) mod n)))"

lemma next_slot_ok: "next_ok (next_slot n) n"
  by (auto simp: next_ok_def next_slot_def)

lemma next_masked_ok:
  assumes "k \<le> 31"
  shows "next_ok (next_masked (2 ^ k)) (2 ^ k)"
proof -
  have "unat (word_of_nat (i + 1) :: 32 word) = i + 1" if "i < 2 ^ k" for i
  proof -
    have "(2 :: nat) ^ k \<le> 2 ^ 31" using assms by (intro power_increasing) auto
    with that have "i + 1 < 2 ^ 32" by simp
    then show ?thesis
      by (simp only: unsigned_of_nat) (simp add: take_bit_nat_eq_self_iff)
  qed
  then show ?thesis using assms
    by (simp only: next_ok_def next_masked_def mask_index_power2) auto
qed

lemma probe_first:
  assumes "length es = n" "s < n"
    and "\<And>j. j < k \<Longrightarrow> \<not> stop (es ! ((s + j) mod n)) \<and> step ((s + j) mod n) = Some ((s + j + 1) mod n)"
    and "stop (es ! ((s + k) mod n))"
  shows "probe stop step es s = Some ((s + k) mod n)"
  using assms
proof (induction k arbitrary: s)
  case 0
  then show ?case by (simp add: probe.simps)
next
  case (Suc k)
  let ?s = "(s + 1) mod n"
  from Suc.prems(3) [of 0] Suc.prems(2)
  have s: "\<not> stop (es ! s)" "step s = Some ?s" by simp_all
  have shift: "(?s + j) mod n = (s + Suc j) mod n" for j by (simp add: mod_simps)
  have "probe stop step es ?s = Some ((?s + k) mod n)"
  proof (rule Suc.IH)
    fix j assume "j < k"
    with Suc.prems(3) [of "Suc j"]
    show "\<not> stop (es ! ((?s + j) mod n)) \<and> step ((?s + j) mod n) = Some ((?s + j + 1) mod n)"
      using shift [of j] shift [of "Suc j"] by simp
  qed (use Suc.prems shift [of k] in auto)
  with s Suc.prems(1,2) shift [of k] show ?case by (simp add: probe.simps [of stop step es s])
qed

lemma probe_finds:
  assumes len: "length es = n" and s: "s < n" and nxt: "next_ok step n"
    and ex: "\<exists>i < n. stop (es ! i)"
  obtains k where "k < n" "probe stop step es s = Some ((s + k) mod n)"
    "stop (es ! ((s + k) mod n))" "\<And>j. j < k \<Longrightarrow> \<not> stop (es ! ((s + j) mod n))"
proof -
  from ex obtain i where i: "i < n" "stop (es ! i)" by auto
  from cyclic_offset [OF s i(1)] obtain k0 where k0: "k0 < n" "stop (es ! ((s + k0) mod n))"
    using i(2) by metis
  define k where "k = (LEAST k. stop (es ! ((s + k) mod n)))"
  have stop: "stop (es ! ((s + k) mod n))" unfolding k_def by (rule LeastI [of _ k0]) (rule k0)
  have "k \<le> k0" unfolding k_def by (rule Least_le) (rule k0)
  then have "k < n" using k0 by simp
  have before: "\<not> stop (es ! ((s + j) mod n))" if "j < k" for j
    using not_less_Least that unfolding k_def by blast
  have "probe stop step es s = Some ((s + k) mod n)"
  proof (rule probe_first [where stop = stop and k = k, OF len s _ stop])
    fix j assume j: "j < k"
    then have "n \<noteq> 1" using \<open>k < n\<close> by auto
    moreover have "(s + j) mod n < n" using s by (auto intro: mod_less_divisor)
    ultimately have "step ((s + j) mod n) = Some ((s + j + 1) mod n)"
      using nxt by (simp add: next_ok_def mod_simps)
    with before [OF j]
    show "\<not> stop (es ! ((s + j) mod n)) \<and> step ((s + j) mod n) = Some ((s + j + 1) mod n)" by simp
  qed
  then show ?thesis using that \<open>k < n\<close> stop before by blast
qed

text \<open>Slot \<open>i\<close> can be reached from slot \<open>s\<close> without passing an empty slot.\<close>

definition reach :: "'d HashEntry list \<Rightarrow> nat \<Rightarrow> nat \<Rightarrow> bool" where
  "reach es s i \<longleftrightarrow> (\<exists>k < length es. i = (s + k) mod length es
     \<and> (\<forall>j < k. data (es ! ((s + j) mod length es)) \<noteq> NULL))"

lemma reach_mono:
  assumes "reach es s i" "length es' = length es"
    and "\<And>j. j < length es \<Longrightarrow> data (es ! j) \<noteq> NULL \<Longrightarrow> data (es' ! j) \<noteq> NULL"
  shows "reach es' s i"
proof -
  from assms(1) obtain k where k: "k < length es" "i = (s + k) mod length es"
    "\<And>j. j < k \<Longrightarrow> data (es ! ((s + j) mod length es)) \<noteq> NULL" by (auto simp: reach_def)
  have "(s + j) mod length es < length es" for j using k(1) by (auto intro: mod_less_divisor)
  with k assms(2,3) show ?thesis by (auto simp: reach_def)
qed

section \<open>The invariant\<close>

text \<open>
  \<open>key\<close> is what the comparison functions compare, \<open>hash\<close> the hash the callers pass for a key.
  The slots: a power of two of them, every live item reachable from its hash slot, no two live
  items with the same key.
\<close>

definition hash_slot :: "('k \<Rightarrow> 32 word) \<Rightarrow> 'd HashEntry list \<Rightarrow> 'k \<Rightarrow> nat" where
  "hash_slot hash es q = mask_index (hash q) (length es)"

definition slots_ok :: "('d \<Rightarrow> 'k) \<Rightarrow> ('k \<Rightarrow> 32 word) \<Rightarrow> 'd HashEntry list \<Rightarrow> bool" where
  "slots_ok key hash es \<longleftrightarrow>
     (\<exists>k \<le> 31. length es = 2 ^ k)
   \<and> (\<forall>i < length es. \<forall>d. data (es ! i) = Data d \<longrightarrow>
        hashValue (es ! i) = hash (key d) \<and> reach es (hash_slot hash es (key d)) i)
   \<and> distinct (map key (live es))"

definition table_ok :: "('d \<Rightarrow> 'k) \<Rightarrow> ('k \<Rightarrow> 32 word) \<Rightarrow> 'd HashTable \<Rightarrow> bool" where
  "table_ok key hash t \<longleftrightarrow>
     slots_ok key hash (pEntries t)
   \<and> tableSize t = length (pEntries t)
   \<and> numEntries t = length (live (pEntries t))
   \<and> numDeadEntries t = tombs (pEntries t)
   \<and> (numEntries t + numDeadEntries t) * 8 \<le> tableSize t * 5"

definition table_map :: "('d \<Rightarrow> 'k) \<Rightarrow> 'd HashTable \<Rightarrow> 'k \<Rightarrow> 'd option" where
  "table_map key t = map_of (map (\<lambda>d. (key d, d)) (live (pEntries t)))"

lemma hash_slot_less: "slots_ok key hash es \<Longrightarrow> hash_slot hash es q < length es"
  by (auto simp: slots_ok_def hash_slot_def mask_index_power2)

lemma items_map_eq_Some:
  assumes "distinct (map key ds)"
  shows "map_of (map (\<lambda>d. (key d, d)) ds) q = Some d \<longleftrightarrow> d \<in> set ds \<and> key d = q"
proof -
  have "distinct (map fst (map (\<lambda>d. (key d, d)) ds))" using assms by (simp add: comp_def)
  then show ?thesis by (simp add: map_of_eq_Some_iff) auto
qed

lemma items_map_eq_None:
  "map_of (map (\<lambda>d. (key d, d)) ds) q = None \<longleftrightarrow> (\<forall>d \<in> set ds. key d \<noteq> q)"
  by (auto simp: map_of_eq_None_iff image_image)

lemma load_room: "0 < n \<Longrightarrow> (a + b) * 8 \<le> n * 5 \<Longrightarrow> a + b < (n :: nat)"
  by presburger

lemma null_exists:
  assumes "length (live es) + tombs es < length es"
  shows "\<exists>i < length es. data (es ! i) = NULL"
proof -
  have "nulls es \<noteq> 0" using slots_partition [of es] assms by simp
  then have "filter (\<lambda>e. data e = NULL) es \<noteq> []" by (auto simp: nulls_def)
  then show ?thesis by (auto simp: filter_empty_conv in_set_conv_nth)
qed

text \<open>Where a probe for key \<open>q\<close> stops: at the item, or at a free slot when there is none.\<close>

definition free_slot :: "('k \<Rightarrow> 32 word) \<Rightarrow> 'd HashEntry list \<Rightarrow> 'k \<Rightarrow> nat \<Rightarrow> bool" where
  "free_slot hash es q i \<longleftrightarrow>
     i < length es \<and> data (es ! i) = NULL \<and> reach es (hash_slot hash es q) i"

lemma probe_for_key:
  assumes ok: "slots_ok key hash es" and some_null: "\<exists>i < length es. data (es ! i) = NULL"
    and nxt: "next_ok step (length es)"
    and null: "\<And>e. data e = NULL \<Longrightarrow> stop e"
    and item: "\<And>e d. data e = Data d \<Longrightarrow> stop e \<Longrightarrow> P d"
    and stops: "\<And>e d. data e = Data d \<Longrightarrow> hashValue e = hash q \<Longrightarrow> P d \<Longrightarrow> stop e"
    and tomb: "\<And>e. data e = HASH_TOMBSTONE \<Longrightarrow> \<not> stop e"
    and keyP: "\<And>d. P d \<Longrightarrow> key d = q"
  obtains (found) i d where "probe stop step es (hash_slot hash es q) = Some i" "i < length es"
      "data (es ! i) = Data d" "P d"
  | (free) i where "probe stop step es (hash_slot hash es q) = Some i" "free_slot hash es q i"
      "\<And>d. d \<in> set (live es) \<Longrightarrow> \<not> P d"
proof -
  let ?n = "length es" and ?s = "hash_slot hash es q"
  have "\<exists>i < ?n. stop (es ! i)" using some_null null by blast
  from probe_finds [OF refl hash_slot_less [OF ok] nxt this]
  obtain k where k: "k < ?n" "probe stop step es ?s = Some ((?s + k) mod ?n)"
    "stop (es ! ((?s + k) mod ?n))" "\<And>j. j < k \<Longrightarrow> \<not> stop (es ! ((?s + j) mod ?n))"
    by blast
  let ?i = "(?s + k) mod ?n"
  have i: "?i < ?n" using k(1) by (auto intro: mod_less_divisor)
  show thesis
  proof (cases "data (es ! ?i)")
    case (Data d)
    with k i item show thesis by (intro found [of ?i d]) auto
  next
    case HASH_TOMBSTONE
    with k(3) tomb show thesis by blast
  next
    case NULL
    have before: "data (es ! ((?s + j) mod ?n)) \<noteq> NULL" if "j < k" for j
      using k(4) [OF that] null by blast
    have "\<not> P d" if d: "d \<in> set (live es)" for d
    proof
      assume P: "P d"
      from d obtain i' where i': "i' < ?n" "data (es ! i') = Data d" by (auto simp: in_live_iff)
      with ok keyP [OF P] have "hashValue (es ! i') = hash q" "reach es ?s i'"
        by (auto simp: slots_ok_def)
      moreover from this(2) obtain k' where k': "k' < ?n" "i' = (?s + k') mod ?n"
        "\<And>j. j < k' \<Longrightarrow> data (es ! ((?s + j) mod ?n)) \<noteq> NULL" by (auto simp: reach_def)
      ultimately have "stop (es ! ((?s + k') mod ?n))" using stops i' P by simp
      then have "\<not> k' < k" using k(4) by blast
      moreover have "k' \<noteq> k" using NULL i'(2) k'(2) by auto
      ultimately show False using k'(3) [of k] NULL by simp
    qed
    with NULL k i before show thesis
      by (intro free [of ?i]) (auto simp: free_slot_def reach_def)
  qed
qed

text \<open>Filling a free slot keeps the slots in order.\<close>

lemma slots_ok_insert:
  assumes ok: "slots_ok key hash es" and free: "free_slot hash es (key d) i"
    and new: "\<And>e. e \<in> set (live es) \<Longrightarrow> key e \<noteq> key d"
  shows "slots_ok key hash (es[i := \<lparr>hashValue = hash (key d), data = Data d\<rparr>])"
    (is "slots_ok _ _ ?es")
proof -
  from free have i: "i < length es" "data (es ! i) = NULL" "reach es (hash_slot hash es (key d)) i"
    by (auto simp: free_slot_def)
  have slot: "hash_slot hash ?es q = hash_slot hash es q" for q by (simp add: hash_slot_def)
  have mono: "reach es s j \<Longrightarrow> reach ?es s j" for s j
    using i(1) by (elim reach_mono) (auto simp: nth_list_update)
  have "key d \<notin> key ` set (live es)" using new by (metis imageE)
  moreover have "distinct (map key (live es))" using ok by (simp add: slots_ok_def)
  ultimately have "distinct (map key (live ?es))"
    using live_split [OF i(1)] i(2) by auto
  with ok i slot mono show ?thesis
    by (auto simp: slots_ok_def nth_list_update split: if_splits)
qed

lemma live_insert:
  assumes "i < length es" "data (es ! i) = NULL"
  shows "mset (live (es[i := \<lparr>hashValue = h, data = Data d\<rparr>])) = add_mset d (mset (live es))"
    and "tombs (es[i := \<lparr>hashValue = h, data = Data d\<rparr>]) = tombs es"
  using live_split [OF assms(1)] tombs_split [OF assms(1)] assms(2) by simp_all

lemma live_insert_set:
  assumes "i < length es" "data (es ! i) = NULL"
  shows "set (live (es[i := \<lparr>hashValue = h, data = Data d\<rparr>])) = insert d (set (live es))"
    and "length (live (es[i := \<lparr>hashValue = h, data = Data d\<rparr>])) = Suc (length (live es))"
  using live_split [OF assms(1)] assms(2) by auto

end
