(* ===== verification/HashOps.thy ===== *)
theory HashOps
  imports HashRefine
begin

text \<open>
  Every operation of the hash table of \<open>minzip/Hash.c\<close> against the abstract map from keys to
  items: lookup with and without insertion (growing the table on the way), removal, clearing,
  traversal and the probe count.
\<close>

section \<open>Resizing\<close>

lemma reinsert_ok:
  assumes ok: "slots_ok key hash new" and tb: "tombs new = 0"
    and room: "length (live new) < length new"
    and e: "data e = Data d" "hashValue e = hash (key d)"
    and fresh: "key d \<notin> key ` set (live new)"
  obtains new' where "reinsert (length new) e new = Some new'" "slots_ok key hash new'"
    "tombs new' = 0" "length new' = length new" "mset (live new') = add_mset d (mset (live new))"
proof -
  from ok obtain k where k: "k \<le> 31" "length new = 2 ^ k" by (auto simp: slots_ok_def)
  have nxt: "next_ok (next_masked (length new)) (length new)"
    using next_masked_ok k by simp
  have ex: "\<exists>i < length new. data (new ! i) = NULL"
    using null_exists [of new] room tb by simp
  have "\<exists>i. probe (\<lambda>e. data e = NULL) (next_masked (length new)) new (hash_slot hash new (key d))
      = Some i \<and> free_slot hash new (key d) i"
    by (rule probe_for_key [OF ok ex nxt, of "\<lambda>e. data e = NULL" "\<lambda>_. False" "key d"]) auto
  then obtain i where i: "probe (\<lambda>e. data e = NULL) (next_masked (length new)) new
      (mask_index (hashValue e) (length new)) = Some i" "free_slot hash new (key d) i"
    by (auto simp: hash_slot_def e)
  let ?new = "new[i := \<lparr>hashValue = hash (key d), data = Data d\<rparr>]"
  show thesis
  proof (rule that [of ?new])
    show "reinsert (length new) e new = Some ?new"
      using i(1) e by (simp add: reinsert_def)
    show "slots_ok key hash ?new"
      by (rule slots_ok_insert [OF ok i(2)]) (use fresh in \<open>metis imageI\<close>)
  qed (use i(2) tb live_insert [of i new] in \<open>auto simp: free_slot_def\<close>)
qed

lemma reinsert_skip:
  "slot_items e = [] \<Longrightarrow> reinsert n e new = Some new"
  by (cases "data e") (auto simp: reinsert_def slot_items_def)

lemma reinsert_all_ok:
  assumes "slots_ok key hash new" "tombs new = 0"
    and "length (live new) + length (live es) < length new"
    and "\<And>e d. e \<in> set es \<Longrightarrow> data e = Data d \<Longrightarrow> hashValue e = hash (key d)"
    and "distinct (map key (live es))"
    and "key ` set (live es) \<inter> key ` set (live new) = {}"
  shows "\<exists>new'. reinsert_all (length new) es new = Some new' \<and> slots_ok key hash new'
    \<and> tombs new' = 0 \<and> length new' = length new
    \<and> mset (live new') = mset (live new) + mset (live es)"
  using assms
proof (induction es arbitrary: new)
  case Nil
  then show ?case by simp
next
  case (Cons e es)
  show ?case
  proof (cases "data e")
    case (Data d)
    have h: "hashValue e = hash (key d)" using Cons.prems(4) [of e d] Data by simp
    have "key d \<notin> key ` set (live new)" "length (live new) < length new"
      using Cons.prems(3,6) Data by auto
    with reinsert_ok [OF Cons.prems(1,2) _ Data h] obtain new1
      where 1: "reinsert (length new) e new = Some new1" "slots_ok key hash new1"
        "tombs new1 = 0" "length new1 = length new"
        "mset (live new1) = add_mset d (mset (live new))"
      by blast
    have sets: "set (live new1) = insert d (set (live new))"
      and lens: "length (live new1) = Suc (length (live new))"
      using arg_cong [OF 1(5), of set_mset] arg_cong [OF 1(5), of size] by simp_all
    have "\<exists>new'. reinsert_all (length new1) es new1 = Some new' \<and> slots_ok key hash new'
      \<and> tombs new' = 0 \<and> length new' = length new1
      \<and> mset (live new') = mset (live new1) + mset (live es)"
      by (rule Cons.IH [OF 1(2,3)]) (use Cons.prems sets lens 1(4) Data in auto)
    with 1 Data show ?thesis by auto
  next
    case NULL
    then show ?thesis using Cons by (auto simp: reinsert_skip)
  next
    case HASH_TOMBSTONE
    then show ?thesis using Cons by (auto simp: reinsert_skip)
  qed
qed

lemma slots_ok_empty:
  "k \<le> 31 \<Longrightarrow> slots_ok key hash (replicate (2 ^ k) empty_entry)"
  by (auto simp: slots_ok_def empty_entry_def live_def)

lemma resizeHash_ok:
  fixes t :: "'d HashTable"
  assumes "slots_ok key hash (pEntries t)" "numDeadEntries t = tombs (pEntries t)"
    and "length (live (pEntries t)) < 2 ^ k" "k \<le> 31"
  obtains t' where "resizeHash t (2 ^ k) = Some t'" "slots_ok key hash (pEntries t')"
    "tableSize t' = 2 ^ k" "length (pEntries t') = 2 ^ k" "numEntries t' = numEntries t"
    "numDeadEntries t' = 0" "tombs (pEntries t') = 0"
    "mset (live (pEntries t')) = mset (live (pEntries t))"
proof -
  let ?new = "replicate (2 ^ k) empty_entry :: 'd HashEntry list"
  have "\<exists>new'. reinsert_all (length ?new) (pEntries t) ?new = Some new' \<and> slots_ok key hash new'
    \<and> tombs new' = 0 \<and> length new' = length ?new
    \<and> mset (live new') = mset (live ?new) + mset (live (pEntries t))"
  proof (rule reinsert_all_ok [OF slots_ok_empty [OF assms(4)]])
    fix e d assume "e \<in> set (pEntries t)" "data e = Data d"
    with assms(1) show "hashValue e = hash (key d)"
      by (auto simp: slots_ok_def in_set_conv_nth)
  qed (use assms in \<open>auto simp: slots_ok_def\<close>)
  then obtain new' where "reinsert_all (2 ^ k) (pEntries t) ?new = Some new'"
    "slots_ok key hash new'" "tombs new' = 0" "length new' = 2 ^ k"
    "mset (live new') = mset (live (pEntries t))" by auto
  with assms(2) show thesis
    by (intro that [of "t\<lparr>pEntries := new', tableSize := 2 ^ k, numDeadEntries := 0\<rparr>"])
      (simp_all add: resizeHash_def assert_c_def countTombStones_tombs)
qed

section \<open>Lookup\<close>

lemma table_map_Some:
  assumes "table_ok key hash t"
  shows "table_map key t q = Some d \<longleftrightarrow> d \<in> set (live (pEntries t)) \<and> key d = q"
  using assms by (auto simp: table_map_def table_ok_def slots_ok_def items_map_eq_Some)

lemma table_map_None:
  "table_map key t q = None \<longleftrightarrow> (\<forall>d \<in> set (live (pEntries t)). key d \<noteq> q)"
  by (simp add: table_map_def items_map_eq_None)

lemma table_map_insert:
  assumes "table_ok key hash t" "table_ok key hash t'"
    and "set (live (pEntries t')) = insert d (set (live (pEntries t)))"
    and "table_map key t (key d) = None"
  shows "table_map key t' = (table_map key t)(key d \<mapsto> d)"
proof
  fix q
  show "table_map key t' q = ((table_map key t)(key d \<mapsto> d)) q"
  proof (cases "key d = q")
    case True
    then have "table_map key t' q = Some d"
      using table_map_Some [OF assms(2)] assms(3) by simp
    with True show ?thesis by simp
  next
    case False
    have "table_map key t' q = Some e \<longleftrightarrow> table_map key t q = Some e" for e
      using table_map_Some [OF assms(1)] table_map_Some [OF assms(2)] assms(3) False by auto
    then have "table_map key t' q = table_map key t q"
      by (metis not_None_eq)
    with False show ?thesis by simp
  qed
qed

lemma table_ok_null:
  assumes "table_ok key hash t"
  shows "\<exists>i < length (pEntries t). data (pEntries t ! i) = NULL"
proof (rule null_exists)
  have "0 < length (pEntries t)" using assms by (auto simp: table_ok_def slots_ok_def)
  moreover have "(length (live (pEntries t)) + tombs (pEntries t)) * 8 \<le> length (pEntries t) * 5"
    using assms by (simp add: table_ok_def)
  ultimately show "length (live (pEntries t)) + tombs (pEntries t) < length (pEntries t)"
    by (rule load_room)
qed

text \<open>The probe of a lookup in a well-formed table.\<close>

lemma lookup_probe:
  assumes ok: "table_ok key hash t" and cmp: "\<And>d. cmp d = 0 \<longleftrightarrow> key d = q"
  obtains (found) i d where
    "probe (lookup_stop (hash q) cmp) (next_slot (tableSize t)) (pEntries t)
       (mask_index (hash q) (tableSize t)) = Some i"
    "i < length (pEntries t)" "data (pEntries t ! i) = Data d" "table_map key t q = Some d"
  | (free) i where
    "probe (lookup_stop (hash q) cmp) (next_slot (tableSize t)) (pEntries t)
       (mask_index (hash q) (tableSize t)) = Some i"
    "free_slot hash (pEntries t) q i" "table_map key t q = None"
proof -
  have sl: "slots_ok key hash (pEntries t)" and sz: "tableSize t = length (pEntries t)"
    using ok by (simp_all add: table_ok_def)
  show thesis
  proof (rule probe_for_key [OF sl table_ok_null [OF ok] next_slot_ok,
        of "lookup_stop (hash q) cmp" "\<lambda>d. key d = q" q])
    fix i d
    assume "probe (lookup_stop (hash q) cmp) (next_slot (length (pEntries t))) (pEntries t)
        (hash_slot hash (pEntries t) q) = Some i"
      and "i < length (pEntries t)" "data (pEntries t ! i) = Data d" "key d = q"
    then show thesis
      by (intro found [of i d]) (auto simp: hash_slot_def sz table_map_Some [OF ok] in_live_iff)
  next
    fix i
    assume "probe (lookup_stop (hash q) cmp) (next_slot (length (pEntries t))) (pEntries t)
        (hash_slot hash (pEntries t) q) = Some i"
      and "free_slot hash (pEntries t) q i" "\<And>d. d \<in> set (live (pEntries t)) \<Longrightarrow> key d \<noteq> q"
    then show thesis
      by (intro free [of i]) (auto simp: hash_slot_def sz table_map_None)
  qed (auto simp: lookup_stop_def cmp)
qed

lemma table_size_bounds:
  assumes "table_ok key hash t" "tableSize t < 2 ^ 28"
  obtains k where "tableSize t = 2 ^ k" "k \<le> 27" "length (pEntries t) = 2 ^ k"
    "(numEntries t + numDeadEntries t) * 8 \<le> 2 ^ k * 5"
proof -
  from assms(1) obtain k where k: "tableSize t = 2 ^ k" "length (pEntries t) = 2 ^ k"
    by (auto simp: table_ok_def slots_ok_def)
  with assms(2) have "(2 :: nat) ^ k < 2 ^ 28" by simp
  then have "k < 28" by (rule power_less_imp_less_exp [rotated]) simp
  with k assms(1) show thesis by (intro that [of k]) (auto simp: table_ok_def)
qed

text \<open>Adding at a free slot, with the resize when the table gets too full.\<close>

lemma lookup_add:
  assumes ok: "table_ok key hash t" and small: "tableSize t < 2 ^ 28"
    and free: "free_slot hash (pEntries t) (key item) i" and none: "table_map key t (key item) = None"
  defines "t1 \<equiv> t\<lparr>pEntries := (pEntries t)[i := \<lparr>hashValue = hash (key item), data = Data item\<rparr>],
                  numEntries := numEntries t + 1\<rparr>"
  obtains t' where
    "(if (numEntries t1 + numDeadEntries t1) * 8 > tableSize t1 * 5
      then do { int_ok (tableSize t1 * 2); resizeHash t1 (tableSize t1 * 2) } else Some t1) = Some t'"
    "table_ok key hash t'" "numEntries t' < tableSize t'" "tableSize t' \<le> 2 * tableSize t"
    "table_map key t' = (table_map key t)(key item \<mapsto> item)"
    "(numEntries t1 + numDeadEntries t1) * 8 \<le> tableSize t1 * 5 \<Longrightarrow> tableSize t' = tableSize t"
    "numEntries t' + numDeadEntries t' \<le> numEntries t + numDeadEntries t + 1"
    "tableSize t' = tableSize t
      \<or> tableSize t' * 5 < 16 * (numEntries t + numDeadEntries t + 1)"
proof -
  from table_size_bounds [OF ok small] obtain k where k: "tableSize t = 2 ^ k" "k \<le> 27"
    "length (pEntries t) = 2 ^ k" "(numEntries t + numDeadEntries t) * 8 \<le> 2 ^ k * 5" .
  from free have i: "i < length (pEntries t)" "data (pEntries t ! i) = NULL"
    by (auto simp: free_slot_def)
  have new: "key e \<noteq> key item" if "e \<in> set (live (pEntries t))" for e
    using none that by (simp add: table_map_None)
  have sl1: "slots_ok key hash (pEntries t1)"
    using slots_ok_insert [where key = key and d = item, OF _ free new] ok
    by (simp add: t1_def table_ok_def)
  have live1: "mset (live (pEntries t1)) = add_mset item (mset (live (pEntries t)))"
    "tombs (pEntries t1) = tombs (pEntries t)"
    using live_insert [OF i] by (simp_all add: t1_def)
  have cnt1: "numEntries t1 = length (live (pEntries t1))" "numDeadEntries t1 = tombs (pEntries t1)"
    "tableSize t1 = 2 ^ k" "length (pEntries t1) = 2 ^ k"
    using ok live1(2) arg_cong [OF live1(1), of size] k by (simp_all add: t1_def table_ok_def)
  show thesis
  proof (cases "(numEntries t1 + numDeadEntries t1) * 8 > tableSize t1 * 5")
    case False
    then have ok1: "table_ok key hash t1" using sl1 cnt1 by (simp add: table_ok_def)
    have "set (live (pEntries t1)) = insert item (set (live (pEntries t)))"
      using arg_cong [OF live1(1), of set_mset] by simp
    moreover have "numEntries t1 < tableSize t1"
      using load_room [of "tableSize t1" "numEntries t1" "numDeadEntries t1"] False cnt1(3) by simp
    ultimately show thesis
      using table_map_insert [OF ok ok1 _ none] ok1 False cnt1(3) k(1)
      by (intro that [of t1]) (simp_all add: t1_def)
  next
    case True
    have base: "numEntries t + numDeadEntries t < 2 ^ k" by (rule load_room) (use k(4) in simp_all)
    moreover have "length (live (pEntries t1)) = numEntries t + 1"
      using cnt1(1) by (simp add: t1_def)
    ultimately have lt: "length (live (pEntries t1)) < 2 ^ (k + 1)" by simp
    have k31: "k + 1 \<le> 31" using k by simp
    obtain t' where t': "resizeHash t1 (2 ^ (k + 1)) = Some t'" "slots_ok key hash (pEntries t')"
      "tableSize t' = 2 ^ (k + 1)" "length (pEntries t') = 2 ^ (k + 1)"
      "numEntries t' = numEntries t1" "numDeadEntries t' = 0" "tombs (pEntries t') = 0"
      "mset (live (pEntries t')) = mset (live (pEntries t1))"
      using resizeHash_ok [OF sl1 cnt1(2) lt k31] .
    have "(2 :: nat) ^ k \<le> 2 ^ 27" using k(2) by (intro power_increasing) auto
    then have int: "int_ok (tableSize t1 * 2) = Some ()" by (simp add: int_ok_def cnt1)
    have sz: "numEntries t' = length (live (pEntries t'))"
      using t'(5,8) cnt1(1) by (metis size_mset)
    have small1: "numEntries t1 = numEntries t + 1" by (simp add: t1_def)
    have ok': "table_ok key hash t'"
      using t' sz small1 base by (simp add: table_ok_def)
    have "set (live (pEntries t')) = insert item (set (live (pEntries t)))"
      using arg_cong [OF t'(8), of set_mset] arg_cong [OF live1(1), of set_mset] by simp
    note upd = table_map_insert [OF ok ok' this none]
    have dead1: "numDeadEntries t1 = numDeadEntries t" by (simp add: t1_def)
    have "tableSize t' * 5 < 16 * (numEntries t + numDeadEntries t + 1)"
      using True t'(3) cnt1(3) small1 dead1 by (simp add: power_add)
    with upd ok' True int t' cnt1(3) k small1 dead1 lt [folded cnt1(1)] sz show thesis
      by (intro that [of t']) (simp_all add: mult.commute)
  qed
qed


lemma mzHashTableLookup_refines:
  assumes ok: "table_ok key hash t" and small: "tableSize t < 2 ^ 28"
    and cmp: "\<And>d. cmp d = 0 \<longleftrightarrow> key d = q" and item: "doAdd \<Longrightarrow> key item = q"
  shows "\<exists>t'. mzHashTableLookup t (hash q) item cmp doAdd
      = Some (case table_map key t q of Some d \<Rightarrow> Some d
              | None \<Rightarrow> if doAdd then Some item else None, t')
    \<and> table_ok key hash t' \<and> tableSize t' \<le> 2 * tableSize t
    \<and> table_map key t' = (if doAdd \<and> table_map key t q = None
                          then (table_map key t)(q \<mapsto> item) else table_map key t)
    \<and> ((numEntries t + 1 + numDeadEntries t) * 8 \<le> tableSize t * 5
        \<longrightarrow> tableSize t' = tableSize t)
    \<and> numEntries t' + numDeadEntries t' \<le> numEntries t + numDeadEntries t + of_bool doAdd
    \<and> (tableSize t' = tableSize t
        \<or> tableSize t' * 5 < 16 * (numEntries t + numDeadEntries t + 1))"
proof -
  from table_size_bounds [OF ok small] obtain k where k: "tableSize t = 2 ^ k" "k \<le> 27"
    "length (pEntries t) = 2 ^ k" "(numEntries t + numDeadEntries t) * 8 \<le> 2 ^ k * 5" .
  have pos: "0 < tableSize t" using k by simp
  show ?thesis
  proof (rule lookup_probe [OF ok cmp], goal_cases found free)
    case (found i d)
    with ok pos show ?case by (simp add: mzHashTableLookup_def assert_c_def)
  next
    case (free i)
    then have null: "data (pEntries t ! i) = NULL" by (simp add: free_slot_def)
    show ?case
    proof (cases doAdd)
      case False
      with free null ok pos show ?thesis by (simp add: mzHashTableLookup_def assert_c_def)
    next
      case True
      then have q: "key item = q" by (rule item)
      have pow: "(2 :: nat) ^ k \<le> 2 ^ 27" using k(2) by (intro power_increasing) auto
      have "numEntries t + numDeadEntries t < 2 ^ k" by (rule load_room) (use k(4) in simp_all)
      with pow have int: "int_ok ((numEntries t + 1 + numDeadEntries t) * 8) = Some ()"
        "int_ok (tableSize t * 5) = Some ()"
        by (simp_all add: int_ok_def k(1))
      define t1 where "t1 = t\<lparr>pEntries :=
          (pEntries t)[i := \<lparr>hashValue = hash (key item), data = Data item\<rparr>],
        numEntries := numEntries t + 1\<rparr>"
      note add = lookup_add [OF ok small free(2) [folded q] free(3) [folded q], folded t1_def]
      obtain t' where t':
        "(if (numEntries t1 + numDeadEntries t1) * 8 > tableSize t1 * 5
          then do { int_ok (tableSize t1 * 2); resizeHash t1 (tableSize t1 * 2) }
          else Some t1) = Some t'"
        "table_ok key hash t'" "numEntries t' < tableSize t'" "tableSize t' \<le> 2 * tableSize t"
        "table_map key t' = (table_map key t)(key item \<mapsto> item)"
        "(numEntries t1 + numDeadEntries t1) * 8 \<le> tableSize t1 * 5 \<Longrightarrow> tableSize t' = tableSize t"
        "numEntries t' + numDeadEntries t' \<le> numEntries t + numDeadEntries t + 1"
        "tableSize t' = tableSize t
          \<or> tableSize t' * 5 < 16 * (numEntries t + numDeadEntries t + 1)"
        using add by blast
      have "mzHashTableLookup t (hash q) item cmp doAdd
          = do { t \<leftarrow> (if (numEntries t1 + numDeadEntries t1) * 8 > tableSize t1 * 5
                     then do { int_ok (tableSize t1 * 2); resizeHash t1 (tableSize t1 * 2) }
                     else Some t1);
                 assert_c (numEntries t < tableSize t); Some (Some item, t) }"
        using free(1) null True int pos
        by (simp add: mzHashTableLookup_def assert_c_def t1_def q add.assoc)
      then have "mzHashTableLookup t (hash q) item cmp doAdd = Some (Some item, t')"
        using t'(1,3) by (simp add: assert_c_def)
      moreover have "numEntries t1 + numDeadEntries t1 = numEntries t + 1 + numDeadEntries t"
        "tableSize t1 = tableSize t" by (simp_all add: t1_def)
      ultimately show ?thesis using t' free(3) True by (auto simp: q)
    qed
  qed
qed

section \<open>Removal\<close>

lemma slots_ok_remove:
  assumes ok: "slots_ok key hash es" and i: "i < length es" "data (es ! i) = Data d"
  defines "es' \<equiv> es[i := (es ! i)\<lparr>data := HASH_TOMBSTONE\<rparr>]"
  shows "slots_ok key hash es'" and "set (live es') = set (live es) - {d}"
    and "Suc (length (live es')) = length (live es)" and "tombs es' = Suc (tombs es)"
proof -
  have split: "live es = live (take i es) @ d # live (drop (Suc i) es)"
    "live es' = live (take i es) @ live (drop (Suc i) es)"
    using live_split [OF i(1)] i(2) by (simp_all add: es'_def)
  have dist: "distinct (map key (live es))" using ok by (simp add: slots_ok_def)
  then have "d \<notin> set (live (take i es))" "d \<notin> set (live (drop (Suc i) es))"
    using split(1) by (auto simp: image_iff)
  with split show "set (live es') = set (live es) - {d}" by auto
  show "Suc (length (live es')) = length (live es)" using split by simp
  show "tombs es' = Suc (tombs es)"
    using tombs_split [OF i(1), of "(es ! i)\<lparr>data := HASH_TOMBSTONE\<rparr>"] i(2)
    by (simp add: es'_def)
  have mono: "reach es s j \<Longrightarrow> reach es' s j" for s j
    using i(1) by (elim reach_mono) (auto simp: es'_def nth_list_update)
  have slot: "hash_slot hash es' q = hash_slot hash es q" for q
    by (simp add: hash_slot_def es'_def)
  have "distinct (map key (live es'))" using dist split by auto
  with ok i slot mono show "slots_ok key hash es'"
    by (auto simp: slots_ok_def es'_def nth_list_update split: if_splits)
qed

lemma mzHashTableRemove_refines:
  assumes ok: "table_ok key hash t"
  shows "\<exists>t'. mzHashTableRemove t (hash (key item)) item
      = Some (table_map key t (key item) = Some item, t')
    \<and> table_ok key hash t' \<and> tableSize t' = tableSize t
    \<and> numEntries t' + numDeadEntries t' = numEntries t + numDeadEntries t
    \<and> table_map key t' = (if table_map key t (key item) = Some item
                          then (table_map key t)(key item := None) else table_map key t)"
proof -
  have sl: "slots_ok key hash (pEntries t)" and sz: "tableSize t = length (pEntries t)"
    using ok by (simp_all add: table_ok_def)
  have pos: "0 < tableSize t" using sl sz by (auto simp: slots_ok_def)
  show ?thesis
  proof (rule probe_for_key [OF sl table_ok_null [OF ok] next_slot_ok,
        of "remove_stop item" "\<lambda>d. d = item" "key item"])
    fix i d
    assume i: "probe (remove_stop item) (next_slot (length (pEntries t))) (pEntries t)
        (hash_slot hash (pEntries t) (key item)) = Some i"
      "i < length (pEntries t)" "data (pEntries t ! i) = Data d" "d = item"
    define t' where "t' = t\<lparr>pEntries := (pEntries t)[i := (pEntries t ! i)\<lparr>data := HASH_TOMBSTONE\<rparr>],
      numEntries := numEntries t - 1, numDeadEntries := numDeadEntries t + 1\<rparr>"
    have rem: "mzHashTableRemove t (hash (key item)) item = Some (True, t')"
      using i pos by (simp add: mzHashTableRemove_def t'_def hash_slot_def sz assert_c_def)
    have "item \<in> set (live (pEntries t))" using i by (auto simp: in_live_iff)
    then have here: "table_map key t (key item) = Some item" by (simp add: table_map_Some [OF ok])
    note upd = slots_ok_remove [OF sl i(2,3)]
    have pos_n: "0 < numEntries t" using ok upd(3) unfolding table_ok_def by linarith
    have ok': "table_ok key hash t'"
    proof -
      from pos_n have "numEntries t - 1 + (numDeadEntries t + 1) = numEntries t + numDeadEntries t"
        by simp
      moreover have "numEntries t - 1 = length (live (pEntries t'))"
        "numDeadEntries t + 1 = tombs (pEntries t')"
        using ok upd(3,4) by (simp_all add: table_ok_def t'_def)
      moreover have "(numEntries t + numDeadEntries t) * 8 \<le> tableSize t * 5"
        using ok by (simp add: table_ok_def)
      ultimately have "numEntries t - 1 = length (live (pEntries t'))"
        "numDeadEntries t + 1 = tombs (pEntries t')"
        "(numEntries t - 1 + (numDeadEntries t + 1)) * 8 \<le> tableSize t * 5"
        by (simp_all only:)
      with upd(1) sz show ?thesis by (simp add: table_ok_def t'_def)
    qed
    have "table_map key t' q = ((table_map key t)(key item := None)) q" for q
    proof -
      have lv: "set (live (pEntries t')) = set (live (pEntries t)) - {item}"
        using upd(2) i(4) by (simp add: t'_def)
      show ?thesis
      proof (cases "q = key item")
        case True
        have "e = item" if "e \<in> set (live (pEntries t))" "key e = key item" for e
        proof -
          have "table_map key t (key item) = Some e"
            unfolding table_map_Some [OF ok] using that by (rule conjI)
          with here show ?thesis by (metis option.inject)
        qed
        then have "table_map key t' q = None"
          unfolding table_map_None lv True by blast
        with True show ?thesis by simp
      next
        case False
        have "table_map key t' q = Some e \<longleftrightarrow> table_map key t q = Some e" for e
          unfolding table_map_Some [OF ok'] table_map_Some [OF ok] lv using False by auto
        then have "table_map key t' q = table_map key t q" by (metis not_None_eq)
        with False show ?thesis by simp
      qed
    qed
    then have "table_map key t' = (table_map key t)(key item := None)" by (rule ext)
    moreover have "tableSize t' = tableSize t"
      "numEntries t' + numDeadEntries t' = numEntries t + numDeadEntries t"
      using pos_n by (simp_all add: t'_def)
    ultimately show ?thesis using rem here ok' by simp
  next
    fix i
    assume i: "probe (remove_stop item) (next_slot (length (pEntries t))) (pEntries t)
        (hash_slot hash (pEntries t) (key item)) = Some i"
      "free_slot hash (pEntries t) (key item) i" "\<And>d. d \<in> set (live (pEntries t)) \<Longrightarrow> d \<noteq> item"
    then have "mzHashTableRemove t (hash (key item)) item = Some (False, t)"
      using pos by (simp add: mzHashTableRemove_def hash_slot_def sz assert_c_def free_slot_def)
    moreover have "table_map key t (key item) \<noteq> Some item"
      using i(3) by (auto simp: table_map_Some [OF ok])
    ultimately show ?thesis using ok by simp
  qed (auto simp: remove_stop_def)
qed

section \<open>Creation, clearing, traversal\<close>

lemma mzHashTableCreate_ok:
  assumes "1 \<le> unat n" "unat n \<le> 2 ^ 30"
  obtains t where "mzHashTableCreate n ff = Some t" "table_ok key hash t"
    "table_map key t = (\<lambda>_. None)" "unat n \<le> tableSize t" "tableSize t < 2 * unat n"
    "numEntries t = 0" "numDeadEntries t = 0"
proof -
  from roundUpPower2_spec [of n] assms obtain k where k: "k \<le> 31"
    "unat (roundUpPower2 n) = 2 ^ k" "unat n \<le> 2 ^ k" "2 ^ k < 2 * unat n" by auto
  let ?t = "\<lparr>tableSize = 2 ^ k, numEntries = 0, numDeadEntries = 0,
    pEntries = replicate (2 ^ k) empty_entry, hasFreeFunc = ff\<rparr>"
  have "n > 0" using assms(1) by (metis not_one_le_zero unat_eq_zero word_gt_0)
  moreover have "int_ok (2 ^ k) = Some ()" using k(4) assms(2) by (simp add: int_ok_def)
  ultimately have "mzHashTableCreate n ff = Some ?t"
    by (simp add: mzHashTableCreate_def assert_c_def k(2) Let_def)
  moreover have "table_ok key hash ?t"
    using slots_ok_empty [OF k(1)] by (simp add: table_ok_def)
  ultimately show thesis
    using k by (intro that [of ?t]) (simp_all add: table_map_def)
qed

text \<open>The size computed by \<open>mzHashSize\<close> leaves room for all the elements.\<close>

lemma mzHashSize_room: "n * 8 \<le> mzHashSize n * 5"
  unfolding mzHashSize_def by presburger

lemma mzHashTableClear_ok:
  assumes "table_ok key hash t"
  shows "table_ok key hash (fst (mzHashTableClear t))"
    and "table_map key (fst (mzHashTableClear t)) = (\<lambda>_. None)"
    and "snd (mzHashTableClear t) = (if hasFreeFunc t then live (pEntries t) else [])"
proof -
  have live0: "live (map (\<lambda>e. e\<lparr>data := NULL\<rparr>) es) = []" for es :: "'a HashEntry list"
    by (induction es) simp_all
  have tombs0: "tombs (map (\<lambda>e. e\<lparr>data := NULL\<rparr>) es) = 0" for es :: "'a HashEntry list"
    by (simp add: tombs_def)
  show "table_ok key hash (fst (mzHashTableClear t))"
    using assms live0 tombs0 by (simp add: table_ok_def slots_ok_def mzHashTableClear_def)
  show "table_map key (fst (mzHashTableClear t)) = (\<lambda>_. None)"
    by (simp add: table_map_def mzHashTableClear_def live0)
  have "slot_items e = (case data e of Data d \<Rightarrow> [d] | _ \<Rightarrow> [])" for e :: "'a HashEntry"
    by (simp add: slot_items_def)
  then show "snd (mzHashTableClear t) = (if hasFreeFunc t then live (pEntries t) else [])"
    by (simp add: mzHashTableClear_def live_def slot_items_def [abs_def])
qed

text \<open>\<open>mzHashForeach\<close> runs over the live items, up to the first nonzero result.\<close>

fun visit :: "('d \<Rightarrow> 'a \<Rightarrow> int \<times> 'a) \<Rightarrow> 'd list \<Rightarrow> 'a \<Rightarrow> int \<times> 'a" where
  "visit func [] a = (0, a)"
| "visit func (d # ds) a =
     (let (val, a) = func d a in if val \<noteq> 0 then (val, a) else visit func ds a)"

lemma foreach_visits: "mzHashForeach t func a = visit func (live (pEntries t)) a"
proof -
  have "foreach_loop func es a = visit func (live es) a" for es a
    by (induction es arbitrary: a) (auto simp: Let_def split: slot.splits prod.splits)
  then show ?thesis by (simp add: mzHashForeach_def)
qed

lemma iter_from_spec:
  assumes "tableSize t = length (pEntries t)" "i \<le> tableSize t"
  shows "i \<le> iter_from t i \<and> iter_from t i \<le> tableSize t
    \<and> live (drop i (pEntries t)) = live (drop (iter_from t i) (pEntries t))
    \<and> (iter_from t i < tableSize t \<longrightarrow> (\<exists>d. data (pEntries t ! iter_from t i) = Data d))"
  using assms(2)
proof (induction t i rule: iter_from.induct)
  case (1 t i)
  show ?case
  proof (cases "i < tableSize t \<and> (case data (pEntries t ! i) of Data d \<Rightarrow> False | _ \<Rightarrow> True)")
    case True
    then have "iter_from t i = iter_from t (i + 1)" by (simp add: iter_from.simps [of t i])
    moreover have "live (drop i (pEntries t)) = live (drop (Suc i) (pEntries t))"
    proof (cases "i < length (pEntries t)")
      case inside: True
      have "slot_items (pEntries t ! i) = []"
        using True by (simp add: slot_items_def split: slot.splits)
      then show ?thesis by (simp add: Cons_nth_drop_Suc [OF inside, symmetric])
    qed simp
    ultimately show ?thesis using 1 True by auto
  next
    case False
    then have "iter_from t i = i" by (subst iter_from.simps) (rule if_not_P)
    with False 1 show ?thesis by (auto split: slot.splits)
  qed
qed

section \<open>Counting probes\<close>

lemma count_loop_probe:
  assumes ret: "probe stop step es i = Some j"
  shows "\<exists>n. count_loop stop step es i c = Some (j, c + n)"
proof -
  have "\<forall>c. \<exists>n. count_loop stop step es i c = Some (j, c + n)"
  proof (rule probe.raw_induct [where P =
        "\<lambda>stop step es i j. \<forall>c. \<exists>n. count_loop stop step es i c = Some (j, c + n)", OF _ ret])
    fix f :: "('d HashEntry \<Rightarrow> bool) \<Rightarrow> (nat \<Rightarrow> nat ub) \<Rightarrow> 'd HashEntry list \<Rightarrow> nat \<Rightarrow> nat ub"
      and stop step es i j
    assume IH: "\<And>stop step es i j. f stop step es i = Some j
        \<Longrightarrow> \<forall>c. \<exists>n. count_loop stop step es i c = Some (j, c + n)"
      and eq: "(case array_get es i of None \<Rightarrow> None
         | Some e \<Rightarrow> if stop e then Some i
             else (case step i of None \<Rightarrow> None | Some j \<Rightarrow> f stop step es j)) = Some j"
    show "\<forall>c. \<exists>n. count_loop stop step es i c = Some (j, c + n)"
    proof
      fix c
      from eq have i: "i < length es" by (auto simp: array_get_def split: if_splits)
      show "\<exists>n. count_loop stop step es i c = Some (j, c + n)"
      proof (cases "stop (es ! i)")
        case True
        with eq i show ?thesis by (subst count_loop.simps) simp
      next
        case False
        with eq i obtain i' where i': "step i = Some i'" "f stop step es i' = Some j"
          by (auto split: option.splits)
        from IH [OF i'(2)] obtain n where
          "count_loop stop step es i' (c + 1) = Some (j, c + 1 + n)" by blast
        with False i i'(1) show ?thesis
          by (subst count_loop.simps) (auto intro: exI [of _ "Suc n"])
      qed
    qed
  qed
  then show ?thesis by blast
qed

lemma countProbes_spec:
  assumes "table_ok key hash t" and "\<And>d. cmp d = 0 \<longleftrightarrow> key d = q"
  shows "\<exists>c. countProbes t (hash q) cmp = Some c \<and> (c = - 1 \<longleftrightarrow> table_map key t q = None) \<and> - 1 \<le> c"
proof -
  have pos: "0 < tableSize t" using assms(1) by (auto simp: table_ok_def slots_ok_def)
  show ?thesis
  proof (rule lookup_probe [OF assms], goal_cases found free)
    case (found i d)
    from count_loop_probe [OF found(1), of 0] pos found(3,4) show ?case
      by (auto simp: countProbes_def assert_c_def)
  next
    case (free i)
    from count_loop_probe [OF free(1), of 0] pos free(2,3) show ?case
      by (auto simp: countProbes_def assert_c_def free_slot_def)
  qed
qed

text \<open>The client's loop over an iterator, \<open>for (Begin; !Done; Next) use(Data)\<close>.\<close>

lemma iter_from_ge: "i \<le> iter_from t i"
proof (induction t i rule: iter_from.induct)
  case (1 t i)
  show ?case
    by (subst iter_from.simps) (use 1 in \<open>cases "i < tableSize t
        \<and> (case data (pEntries t ! i) of Data d \<Rightarrow> False | _ \<Rightarrow> True)", auto\<close>)
qed

function iter_items :: "'d HashTable \<Rightarrow> nat \<Rightarrow> 'd list" where
  "iter_items t i =
     (if mzHashIterDone t i then []
      else (case data (pEntries t ! i) of Data d \<Rightarrow> [d] | _ \<Rightarrow> []) @ iter_items t (mzHashIterNext t i))"
  by pat_completeness auto
termination
proof (relation "measure (\<lambda>(t, i). tableSize t - i)", goal_cases)
  case (2 t i)
  then show ?case
    using iter_from_ge [of "i + 1" t] by (simp add: mzHashIterDone_def mzHashIterNext_def)
qed simp

declare iter_items.simps [simp del]

lemma iter_items_live:
  assumes "tableSize t = length (pEntries t)"
    and "i < tableSize t \<longrightarrow> (\<exists>d. data (pEntries t ! i) = Data d)"
  shows "iter_items t i = live (drop i (pEntries t))"
  using assms
proof (induction t i rule: iter_items.induct)
  case (1 t i)
  show ?case
  proof (cases "mzHashIterDone t i")
    case True
    with "1.prems"(1) have "drop i (pEntries t) = []" by (simp add: mzHashIterDone_def)
    with True show ?thesis by (simp add: iter_items.simps [of t i])
  next
    case False
    let ?j = "iter_from t (i + 1)"
    from False have i: "i < tableSize t" by (simp add: mzHashIterDone_def)
    with "1.prems"(2) obtain d where d: "data (pEntries t ! i) = Data d" by auto
    have "live (drop i (pEntries t)) = d # live (drop (Suc i) (pEntries t))"
      using i d "1.prems"(1) Cons_nth_drop_Suc [of i "pEntries t"] by (metis append_Cons append_Nil
        live_simps(2) slot_items_simps(3))
    moreover have "live (drop (Suc i) (pEntries t)) = live (drop ?j (pEntries t))"
      and next_data: "?j < tableSize t \<longrightarrow> (\<exists>d. data (pEntries t ! ?j) = Data d)"
      using iter_from_spec [OF "1.prems"(1), of "i + 1"] i by auto
    ultimately show ?thesis
      using "1.IH" [OF False "1.prems"(1)] False d
      by (simp add: iter_items.simps [of t i] mzHashIterNext_def)
  qed
qed

section \<open>Runs of operations\<close>

text \<open>
  A client's calls on a table: it passes the hash of the item's key and its comparison function
  with the item.
\<close>

datatype 'd table_op = Find 'd | Add 'd | Remove 'd

datatype 'd table_result = Found "'d option" | Removed bool

fun table_step ::
  "('d \<Rightarrow> 'k) \<Rightarrow> ('k \<Rightarrow> 32 word) \<Rightarrow> ('d \<Rightarrow> 'd \<Rightarrow> int) \<Rightarrow> 'd table_op \<Rightarrow> 'd HashTable
    \<Rightarrow> ('d table_result \<times> 'd HashTable) ub" where
  "table_step key hash cmp (Find d) t =
     do { (r, t) \<leftarrow> mzHashTableLookup t (hash (key d)) d (\<lambda>x. cmp x d) False; Some (Found r, t) }"
| "table_step key hash cmp (Add d) t =
     do { (r, t) \<leftarrow> mzHashTableLookup t (hash (key d)) d (\<lambda>x. cmp x d) True; Some (Found r, t) }"
| "table_step key hash cmp (Remove d) t =
     do { (r, t) \<leftarrow> mzHashTableRemove t (hash (key d)) d; Some (Removed r, t) }"

fun table_run ::
  "('d \<Rightarrow> 'k) \<Rightarrow> ('k \<Rightarrow> 32 word) \<Rightarrow> ('d \<Rightarrow> 'd \<Rightarrow> int) \<Rightarrow> 'd table_op list \<Rightarrow> 'd HashTable
    \<Rightarrow> ('d table_result list \<times> 'd HashTable) ub" where
  "table_run key hash cmp [] t = Some ([], t)"
| "table_run key hash cmp (op # ops) t = do {
     (r, t) \<leftarrow> table_step key hash cmp op t;
     (rs, t) \<leftarrow> table_run key hash cmp ops t;
     Some (r # rs, t)
   }"

text \<open>The specification: a map from keys to items in which the first item of a key stays.\<close>

fun map_step :: "('d \<Rightarrow> 'k) \<Rightarrow> 'd table_op \<Rightarrow> ('k \<rightharpoonup> 'd) \<Rightarrow> 'd table_result \<times> ('k \<rightharpoonup> 'd)" where
  "map_step key (Find d) m = (Found (m (key d)), m)"
| "map_step key (Add d) m =
     (case m (key d) of Some e \<Rightarrow> (Found (Some e), m) | None \<Rightarrow> (Found (Some d), m(key d \<mapsto> d)))"
| "map_step key (Remove d) m =
     (if m (key d) = Some d then (Removed True, m(key d := None)) else (Removed False, m))"

fun map_run ::
  "('d \<Rightarrow> 'k) \<Rightarrow> 'd table_op list \<Rightarrow> ('k \<rightharpoonup> 'd) \<Rightarrow> 'd table_result list \<times> ('k \<rightharpoonup> 'd)" where
  "map_run key [] m = ([], m)"
| "map_run key (op # ops) m =
     (let (r, m) = map_step key op m; (rs, m) = map_run key ops m in (r # rs, m))"

text \<open>What a client of the table supplies: a comparison that decides equality of keys.\<close>

locale hash_client =
  fixes key :: "'d \<Rightarrow> 'k" and hash :: "'k \<Rightarrow> 32 word" and cmp :: "'d \<Rightarrow> 'd \<Rightarrow> int"
  assumes cmp_key: "cmp x d = 0 \<longleftrightarrow> key x = key d"
begin

lemma step_refines:
  assumes ok: "table_ok key hash t" and sz: "tableSize t < 2 ^ 28"
    and n: "numEntries t + numDeadEntries t < 2 ^ 24"
  shows "\<exists>t'. table_step key hash cmp op t = Some (fst (map_step key op (table_map key t)), t')
    \<and> table_ok key hash t' \<and> tableSize t' < 2 ^ 28
    \<and> numEntries t' + numDeadEntries t' \<le> numEntries t + numDeadEntries t + 1
    \<and> table_map key t' = snd (map_step key op (table_map key t))"
proof (cases op)
  case (Find d)
  from mzHashTableLookup_refines [OF ok sz, of "\<lambda>x. cmp x d" "key d" False d] cmp_key
  obtain t' where "mzHashTableLookup t (hash (key d)) d (\<lambda>x. cmp x d) False
      = Some (table_map key t (key d), t')" "table_ok key hash t'"
    "table_map key t' = table_map key t"
    "numEntries t' + numDeadEntries t' \<le> numEntries t + numDeadEntries t"
    "tableSize t' = tableSize t \<or> tableSize t' * 5 < 16 * (numEntries t + numDeadEntries t + 1)"
    by (auto split: option.splits)
  with Find sz n show ?thesis by auto
next
  case (Add d)
  from mzHashTableLookup_refines [OF ok sz, of "\<lambda>x. cmp x d" "key d" True d] cmp_key
  obtain t' where "mzHashTableLookup t (hash (key d)) d (\<lambda>x. cmp x d) True
      = Some (case table_map key t (key d) of Some e \<Rightarrow> Some e | None \<Rightarrow> Some d, t')"
    "table_ok key hash t'"
    "table_map key t' = (if table_map key t (key d) = None
       then (table_map key t)(key d \<mapsto> d) else table_map key t)"
    "numEntries t' + numDeadEntries t' \<le> numEntries t + numDeadEntries t + 1"
    "tableSize t' = tableSize t \<or> tableSize t' * 5 < 16 * (numEntries t + numDeadEntries t + 1)"
    by auto
  with Add sz n show ?thesis by (cases "table_map key t (key d)") auto
next
  case (Remove d)
  from mzHashTableRemove_refines [OF ok, of d] obtain t' where
    "mzHashTableRemove t (hash (key d)) d = Some (table_map key t (key d) = Some d, t')"
    "table_ok key hash t'" "tableSize t' = tableSize t"
    "numEntries t' + numDeadEntries t' = numEntries t + numDeadEntries t"
    "table_map key t' = (if table_map key t (key d) = Some d
       then (table_map key t)(key d := None) else table_map key t)" by blast
  with Remove sz show ?thesis by auto
qed

lemma run_refines:
  assumes "table_ok key hash t" "tableSize t < 2 ^ 28"
    and "numEntries t + numDeadEntries t + length ops \<le> 2 ^ 24"
  shows "\<exists>t'. table_run key hash cmp ops t = Some (fst (map_run key ops (table_map key t)), t')
    \<and> table_ok key hash t' \<and> table_map key t' = snd (map_run key ops (table_map key t))
    \<and> tableSize t' < 2 ^ 28"
  using assms
proof (induction ops arbitrary: t)
  case Nil
  then show ?case by simp
next
  case (Cons op ops)
  from step_refines [OF Cons.prems(1,2), of op] Cons.prems(3) obtain t1 where
    1: "table_step key hash cmp op t = Some (fst (map_step key op (table_map key t)), t1)"
      "table_ok key hash t1" "tableSize t1 < 2 ^ 28"
      "numEntries t1 + numDeadEntries t1 \<le> numEntries t + numDeadEntries t + 1"
      "table_map key t1 = snd (map_step key op (table_map key t))" by auto
  with Cons.prems(3) have "numEntries t1 + numDeadEntries t1 + length ops \<le> 2 ^ 24" by simp
  from Cons.IH [OF 1(2,3) this] 1 show ?case
    by (auto simp: Let_def split: prod.splits)
qed

end

section \<open>Properties\<close>

lemma iter_items_begin:
  assumes "table_ok key hash t"
  shows "iter_items t (mzHashIterBegin t) = live (pEntries t)"
proof -
  have len: "tableSize t = length (pEntries t)" using assms by (simp add: table_ok_def)
  note spec = iter_from_spec [OF len, of 0]
  have "iter_items t (iter_from t 0) = live (drop (iter_from t 0) (pEntries t))"
    by (rule iter_items_live [OF len]) (use spec in simp)
  with spec show ?thesis by (simp add: mzHashIterBegin_def)
qed

text \<open>
  C19. The hash table implements a map: any sequence of lookups, insertions and removals, on a
  well-formed table and with a comparison that decides equality of keys, ends (every probe loop
  finds its slot, no assertion fails), returns what the map from keys to items returns, and
  leaves a well-formed table that represents the resulting map, however often it grew on the way.
\<close>

theorem hash_table_refines_map:
  assumes "\<And>x d. cmp x d = 0 \<longleftrightarrow> key x = key d"
    and "table_ok key hash t" "tableSize t < 2 ^ 28"
    and "numEntries t + numDeadEntries t + length ops \<le> 2 ^ 24"
  shows "\<exists>t'. table_run key hash cmp ops t = Some (fst (map_run key ops (table_map key t)), t')
    \<and> table_ok key hash t' \<and> table_map key t' = snd (map_run key ops (table_map key t))"
  using hash_client.run_refines [OF hash_client.intro [OF assms(1)] assms(2,3,4)] by blast

definition demo_table :: "nat HashTable" where
  "demo_table = \<lparr>tableSize = 1, numEntries = 0, numDeadEntries = 0,
     pEntries = [empty_entry], hasFreeFunc = False\<rparr>"

lemma demo_table_ok: "table_ok (\<lambda>d. d mod 10) (\<lambda>_. 3) demo_table"
  using slots_ok_empty [of 0 "\<lambda>d::nat. d mod 10" "\<lambda>_. 3"]
  by (simp add: demo_table_def table_ok_def tombs_def empty_entry_def)

theorem hash_table_refines_map_witness:
  "\<exists>t'. table_run (\<lambda>d. d mod 10) (\<lambda>_. 3) (\<lambda>x d. int (x mod 10) - int (d mod 10))
      [Add 14, Add 25, Remove 14, Add 5, Find 34, Add 4] demo_table
    = Some ([Found (Some 14), Found (Some 25), Removed True, Found (Some 25), Found None,
             Found (Some 4)], t')
    \<and> table_map (\<lambda>d. d mod 10) t' = [4 \<mapsto> 4, 5 \<mapsto> 25]"
proof -
  have m: "table_map (\<lambda>d. d mod 10) demo_table = Map.empty"
    by (simp add: table_map_def demo_table_def empty_entry_def)
  have "map_run (\<lambda>d. d mod 10) [Add 14, Add 25, Remove 14, Add 5, Find 34, Add 4] Map.empty
    = ([Found (Some 14), Found (Some 25), Removed True, Found (Some 25), Found None,
        Found (Some (4 :: nat))], [4 \<mapsto> 4, 5 \<mapsto> 25])"
    by (simp add: fun_upd_twist)
  moreover have "tableSize demo_table < 2 ^ 28"
    "numEntries demo_table + numDeadEntries demo_table
      + length [Add (14 :: nat), Add 25, Remove 14, Add 5, Find 34, Add 4] \<le> 2 ^ 24"
    by (simp_all add: demo_table_def)
  ultimately show ?thesis
    using hash_table_refines_map [OF _ demo_table_ok, where
      cmp = "\<lambda>x d. int (x mod 10) - int (d mod 10)" and
      ops = "[Add 14, Add 25, Remove 14, Add 5, Find 34, Add 4]"]
    unfolding m by (auto simp del: table_run.simps map_run.simps)
qed



text \<open>
  C37. Traversal: the iterator, \<open>mzHashForeach\<close> with a function that collects and the probe
  counter agree with the contents: the iterator yields exactly the live items, each once, and
  counting the probes of a key gives -1 exactly when the key is absent.
\<close>

theorem traversal_complete:
  assumes "table_ok key hash t" and "\<And>d. cmp d = 0 \<longleftrightarrow> key d = q"
  shows "distinct (iter_items t (mzHashIterBegin t))
    \<and> set (iter_items t (mzHashIterBegin t)) = ran (table_map key t)
    \<and> mzHashForeach t (\<lambda>d ds. (0, ds @ [d])) [] = (0, iter_items t (mzHashIterBegin t))
    \<and> (\<exists>c. countProbes t (hash q) cmp = Some c \<and> (c = - 1 \<longleftrightarrow> table_map key t q = None))"
proof -
  have dist: "distinct (map key (live (pEntries t)))"
    using assms(1) by (simp add: table_ok_def slots_ok_def)
  have visit: "visit (\<lambda>d ds. (0, ds @ [d])) ds acc = (0, acc @ ds)" for ds and acc :: "'a list"
    by (induction ds arbitrary: acc) simp_all
  have "ran (table_map key t) = set (live (pEntries t))"
    by (auto simp: ran_def table_map_Some [OF assms(1)])
  with dist visit countProbes_spec [OF assms] show ?thesis
    by (auto simp: iter_items_begin [OF assms(1)] foreach_visits distinct_map)
qed

theorem traversal_complete_witness:
  "iter_items demo_table (mzHashIterBegin demo_table) = []
   \<and> countProbes demo_table 3 (\<lambda>d. int (d mod 10) - 4) = Some (- 1)"
proof -
  have m: "table_map (\<lambda>d. d mod 10) demo_table = Map.empty"
    by (simp add: table_map_def demo_table_def empty_entry_def)
  show ?thesis
    using traversal_complete [OF demo_table_ok, of "\<lambda>d. int (d mod 10) - 4" 4] by (auto simp: m)
qed

end
