(* ===== verification/Bits.thy ===== *)
theory Bits
  imports MR_Prelude
begin

text \<open>
  Byte order helpers: \<open>minzip/Bits.h\<close> (reading and writing 1, 2, 4 and 8 byte values in either
  byte order, in place or through an advancing pointer) and \<open>applypatch/utils.c\<close> (the same on
  the header fields of a patch).  A pointer is an offset into the buffer it points into; a read
  or write outside the buffer is undefined.  The lemmas are the round trips between a reader and
  the writer of the same width and order, and that one order is the reverse of the other.
\<close>

unbundle bit_operations_syntax

section \<open>Reading\<close>

definition get1 :: "byte list \<Rightarrow> nat \<Rightarrow> byte ub" where
  "get1 m p = array_get m p"

definition get2BE :: "byte list \<Rightarrow> nat \<Rightarrow> 16 word ub" where
  "get2BE m p = do {
     b0 \<leftarrow> array_get m p;
     b1 \<leftarrow> array_get m (p + 1);
     Some (push_bit 8 (ucast b0) OR ucast b1)
   }"

definition get4BE :: "byte list \<Rightarrow> nat \<Rightarrow> 32 word ub" where
  "get4BE m p = do {
     b0 \<leftarrow> array_get m p;
     b1 \<leftarrow> array_get m (p + 1);
     b2 \<leftarrow> array_get m (p + 2);
     b3 \<leftarrow> array_get m (p + 3);
     Some (push_bit 24 (ucast b0) OR push_bit 16 (ucast b1) OR push_bit 8 (ucast b2) OR ucast b3)
   }"

definition get8BE :: "byte list \<Rightarrow> nat \<Rightarrow> 64 word ub" where
  "get8BE m p = do {
     b0 \<leftarrow> array_get m p;
     b1 \<leftarrow> array_get m (p + 1);
     b2 \<leftarrow> array_get m (p + 2);
     b3 \<leftarrow> array_get m (p + 3);
     b4 \<leftarrow> array_get m (p + 4);
     b5 \<leftarrow> array_get m (p + 5);
     b6 \<leftarrow> array_get m (p + 6);
     b7 \<leftarrow> array_get m (p + 7);
     Some (push_bit 56 (ucast b0) OR push_bit 48 (ucast b1) OR push_bit 40 (ucast b2)
           OR push_bit 32 (ucast b3) OR push_bit 24 (ucast b4) OR push_bit 16 (ucast b5)
           OR push_bit 8 (ucast b6) OR ucast b7)
   }"

definition get2LE :: "byte list \<Rightarrow> nat \<Rightarrow> 16 word ub" where
  "get2LE m p = do {
     b0 \<leftarrow> array_get m p;
     b1 \<leftarrow> array_get m (p + 1);
     Some (ucast b0 OR push_bit 8 (ucast b1))
   }"

definition get4LE :: "byte list \<Rightarrow> nat \<Rightarrow> 32 word ub" where
  "get4LE m p = do {
     b0 \<leftarrow> array_get m p;
     b1 \<leftarrow> array_get m (p + 1);
     b2 \<leftarrow> array_get m (p + 2);
     b3 \<leftarrow> array_get m (p + 3);
     Some (ucast b0 OR push_bit 8 (ucast b1) OR push_bit 16 (ucast b2) OR push_bit 24 (ucast b3))
   }"

definition get8LE :: "byte list \<Rightarrow> nat \<Rightarrow> 64 word ub" where
  "get8LE m p = do {
     b0 \<leftarrow> array_get m p;
     b1 \<leftarrow> array_get m (p + 1);
     b2 \<leftarrow> array_get m (p + 2);
     b3 \<leftarrow> array_get m (p + 3);
     b4 \<leftarrow> array_get m (p + 4);
     b5 \<leftarrow> array_get m (p + 5);
     b6 \<leftarrow> array_get m (p + 6);
     b7 \<leftarrow> array_get m (p + 7);
     Some (ucast b0 OR push_bit 8 (ucast b1) OR push_bit 16 (ucast b2) OR push_bit 24 (ucast b3)
           OR push_bit 32 (ucast b4) OR push_bit 40 (ucast b5) OR push_bit 48 (ucast b6)
           OR push_bit 56 (ucast b7))
   }"

text \<open>The readers that advance the pointer: the value and the new offset.\<close>

definition read1 :: "byte list \<Rightarrow> nat \<Rightarrow> (byte \<times> nat) ub" where
  "read1 m p = do { v \<leftarrow> array_get m p; Some (v, p + 1) }"

definition read2BE :: "byte list \<Rightarrow> nat \<Rightarrow> (16 word \<times> nat) ub" where
  "read2BE m p = do {
     (b0, p) \<leftarrow> read1 m p;
     (b1, p) \<leftarrow> read1 m p;
     Some (push_bit 8 (ucast b0) OR ucast b1, p)
   }"

definition read4BE :: "byte list \<Rightarrow> nat \<Rightarrow> (32 word \<times> nat) ub" where
  "read4BE m p = do {
     (b0, p) \<leftarrow> read1 m p;
     (b1, p) \<leftarrow> read1 m p;
     (b2, p) \<leftarrow> read1 m p;
     (b3, p) \<leftarrow> read1 m p;
     Some (push_bit 24 (ucast b0) OR push_bit 16 (ucast b1) OR push_bit 8 (ucast b2) OR ucast b3, p)
   }"

definition read8BE :: "byte list \<Rightarrow> nat \<Rightarrow> (64 word \<times> nat) ub" where
  "read8BE m p = do {
     (b0, p) \<leftarrow> read1 m p;
     (b1, p) \<leftarrow> read1 m p;
     (b2, p) \<leftarrow> read1 m p;
     (b3, p) \<leftarrow> read1 m p;
     (b4, p) \<leftarrow> read1 m p;
     (b5, p) \<leftarrow> read1 m p;
     (b6, p) \<leftarrow> read1 m p;
     (b7, p) \<leftarrow> read1 m p;
     Some (push_bit 56 (ucast b0) OR push_bit 48 (ucast b1) OR push_bit 40 (ucast b2)
           OR push_bit 32 (ucast b3) OR push_bit 24 (ucast b4) OR push_bit 16 (ucast b5)
           OR push_bit 8 (ucast b6) OR ucast b7, p)
   }"

definition read2LE :: "byte list \<Rightarrow> nat \<Rightarrow> (16 word \<times> nat) ub" where
  "read2LE m p = do {
     (b0, p) \<leftarrow> read1 m p;
     (b1, p) \<leftarrow> read1 m p;
     Some (ucast b0 OR push_bit 8 (ucast b1), p)
   }"

definition read4LE :: "byte list \<Rightarrow> nat \<Rightarrow> (32 word \<times> nat) ub" where
  "read4LE m p = do {
     (b0, p) \<leftarrow> read1 m p;
     (b1, p) \<leftarrow> read1 m p;
     (b2, p) \<leftarrow> read1 m p;
     (b3, p) \<leftarrow> read1 m p;
     Some (ucast b0 OR push_bit 8 (ucast b1) OR push_bit 16 (ucast b2) OR push_bit 24 (ucast b3), p)
   }"

definition read8LE :: "byte list \<Rightarrow> nat \<Rightarrow> (64 word \<times> nat) ub" where
  "read8LE m p = do {
     (b0, p) \<leftarrow> read1 m p;
     (b1, p) \<leftarrow> read1 m p;
     (b2, p) \<leftarrow> read1 m p;
     (b3, p) \<leftarrow> read1 m p;
     (b4, p) \<leftarrow> read1 m p;
     (b5, p) \<leftarrow> read1 m p;
     (b6, p) \<leftarrow> read1 m p;
     (b7, p) \<leftarrow> read1 m p;
     Some (ucast b0 OR push_bit 8 (ucast b1) OR push_bit 16 (ucast b2) OR push_bit 24 (ucast b3)
           OR push_bit 32 (ucast b4) OR push_bit 40 (ucast b5) OR push_bit 48 (ucast b6)
           OR push_bit 56 (ucast b7), p)
   }"

section \<open>Writing\<close>

text \<open>\<open>byte_at k v\<close> is \<open>(unsigned char)(v >> 8 * k)\<close>.\<close>

definition byte_at :: "nat \<Rightarrow> 'a::len word \<Rightarrow> byte" where
  "byte_at k v = ucast (drop_bit (8 * k) v)"

definition array_set :: "nat \<Rightarrow> 'a \<Rightarrow> 'a list \<Rightarrow> 'a list ub" where
  "array_set i x xs = (if i < length xs then Some (xs[i := x]) else None)"

definition set1 :: "byte list \<Rightarrow> nat \<Rightarrow> byte \<Rightarrow> byte list ub" where
  "set1 buf p val = array_set p val buf"

definition set2BE :: "byte list \<Rightarrow> nat \<Rightarrow> 16 word \<Rightarrow> byte list ub" where
  "set2BE buf p val = do {
     buf \<leftarrow> array_set p (byte_at 1 val) buf;
     array_set (p + 1) (byte_at 0 val) buf
   }"

definition set4BE :: "byte list \<Rightarrow> nat \<Rightarrow> 32 word \<Rightarrow> byte list ub" where
  "set4BE buf p val = do {
     buf \<leftarrow> array_set p (byte_at 3 val) buf;
     buf \<leftarrow> array_set (p + 1) (byte_at 2 val) buf;
     buf \<leftarrow> array_set (p + 2) (byte_at 1 val) buf;
     array_set (p + 3) (byte_at 0 val) buf
   }"

definition set8BE :: "byte list \<Rightarrow> nat \<Rightarrow> 64 word \<Rightarrow> byte list ub" where
  "set8BE buf p val = do {
     buf \<leftarrow> array_set p (byte_at 7 val) buf;
     buf \<leftarrow> array_set (p + 1) (byte_at 6 val) buf;
     buf \<leftarrow> array_set (p + 2) (byte_at 5 val) buf;
     buf \<leftarrow> array_set (p + 3) (byte_at 4 val) buf;
     buf \<leftarrow> array_set (p + 4) (byte_at 3 val) buf;
     buf \<leftarrow> array_set (p + 5) (byte_at 2 val) buf;
     buf \<leftarrow> array_set (p + 6) (byte_at 1 val) buf;
     array_set (p + 7) (byte_at 0 val) buf
   }"

definition set2LE :: "byte list \<Rightarrow> nat \<Rightarrow> 16 word \<Rightarrow> byte list ub" where
  "set2LE buf p val = do {
     buf \<leftarrow> array_set p (byte_at 0 val) buf;
     array_set (p + 1) (byte_at 1 val) buf
   }"

definition set4LE :: "byte list \<Rightarrow> nat \<Rightarrow> 32 word \<Rightarrow> byte list ub" where
  "set4LE buf p val = do {
     buf \<leftarrow> array_set p (byte_at 0 val) buf;
     buf \<leftarrow> array_set (p + 1) (byte_at 1 val) buf;
     buf \<leftarrow> array_set (p + 2) (byte_at 2 val) buf;
     array_set (p + 3) (byte_at 3 val) buf
   }"

definition set8LE :: "byte list \<Rightarrow> nat \<Rightarrow> 64 word \<Rightarrow> byte list ub" where
  "set8LE buf p val = do {
     buf \<leftarrow> array_set p (byte_at 0 val) buf;
     buf \<leftarrow> array_set (p + 1) (byte_at 1 val) buf;
     buf \<leftarrow> array_set (p + 2) (byte_at 2 val) buf;
     buf \<leftarrow> array_set (p + 3) (byte_at 3 val) buf;
     buf \<leftarrow> array_set (p + 4) (byte_at 4 val) buf;
     buf \<leftarrow> array_set (p + 5) (byte_at 5 val) buf;
     buf \<leftarrow> array_set (p + 6) (byte_at 6 val) buf;
     array_set (p + 7) (byte_at 7 val) buf
   }"

section \<open>Length-prefixed strings\<close>

text \<open>
  \<open>skipUtf8String\<close>, \<open>readNewUtf8String\<close> and \<open>readUtf8String\<close>: a big-endian length and the
  bytes.  \<open>bytes_at\<close> is the source of a \<open>memcpy\<close>.
\<close>

definition bytes_at :: "byte list \<Rightarrow> nat \<Rightarrow> nat \<Rightarrow> byte list ub" where
  "bytes_at m p n = (if p + n \<le> length m then Some (take n (drop p m)) else None)"

definition bytes_put :: "byte list \<Rightarrow> nat \<Rightarrow> byte list \<Rightarrow> byte list ub" where
  "bytes_put buf p bs =
     (if p + length bs \<le> length buf
      then Some (take p buf @ bs @ drop (p + length bs) buf) else None)"

definition skipUtf8String :: "byte list \<Rightarrow> nat \<Rightarrow> nat ub" where
  "skipUtf8String m p = do {
     (n, p) \<leftarrow> read4BE m p;
     Some (p + unat n)
   }"

definition readUtf8String :: "byte list \<Rightarrow> nat \<Rightarrow> byte list \<Rightarrow> (32 word \<times> byte list \<times> nat) ub" where
  "readUtf8String m p buf = do {
     (n, p) \<leftarrow> read4BE m p;
     let copyLen = (if unat n < length buf then unat n else length buf - 1);
     bs \<leftarrow> bytes_at m p copyLen;
     buf \<leftarrow> bytes_put buf 0 bs;
     buf \<leftarrow> array_set copyLen 0 buf;
     Some (n, buf, p + unat n)
   }"

definition readNewUtf8String :: "byte list \<Rightarrow> nat \<Rightarrow> (byte list \<times> 32 word \<times> nat) ub" where
  "readNewUtf8String m p = do {
     (n, p) \<leftarrow> read4BE m p;
     bs \<leftarrow> bytes_at m p (unat n);
     Some (bs @ [0], n, p + unat n)
   }"

definition setUtf8String :: "byte list \<Rightarrow> nat \<Rightarrow> byte list \<Rightarrow> byte list ub" where
  "setUtf8String buf p str = do {
     buf \<leftarrow> set4BE buf p (word_of_nat (length str));
     bytes_put buf (p + 4) str
   }"

section \<open>\<open>applypatch/utils.c\<close>\<close>

text \<open>
  \<open>Write4\<close> and \<open>Write8\<close> append to the file they are given; \<open>Read2\<close>, \<open>Read4\<close> and \<open>Read8\<close>
  read at a pointer.  The \<open>int\<close> and \<open>long long\<close> values are the words that hold them.
\<close>

definition Write4 :: "32 word \<Rightarrow> byte list \<Rightarrow> byte list" where
  "Write4 value f = f @ [byte_at 0 value, byte_at 1 value, byte_at 2 value, byte_at 3 value]"

definition Write8 :: "64 word \<Rightarrow> byte list \<Rightarrow> byte list" where
  "Write8 value f = f @
     [byte_at 0 value, byte_at 1 value, byte_at 2 value, byte_at 3 value,
      byte_at 4 value, byte_at 5 value, byte_at 6 value, byte_at 7 value]"

definition Read2 :: "byte list \<Rightarrow> nat \<Rightarrow> 32 word ub" where
  "Read2 m p = do {
     p1 \<leftarrow> array_get m (p + 1);
     p0 \<leftarrow> array_get m p;
     Some (push_bit 8 (ucast p1) OR ucast p0)
   }"

definition Read4 :: "byte list \<Rightarrow> nat \<Rightarrow> 32 word ub" where
  "Read4 m p = do {
     p3 \<leftarrow> array_get m (p + 3);
     p2 \<leftarrow> array_get m (p + 2);
     p1 \<leftarrow> array_get m (p + 1);
     p0 \<leftarrow> array_get m p;
     Some (push_bit 24 (ucast p3) OR push_bit 16 (ucast p2) OR push_bit 8 (ucast p1) OR ucast p0)
   }"

definition Read8 :: "byte list \<Rightarrow> nat \<Rightarrow> 64 word ub" where
  "Read8 m p = do {
     p7 \<leftarrow> array_get m (p + 7);
     p6 \<leftarrow> array_get m (p + 6);
     p5 \<leftarrow> array_get m (p + 5);
     p4 \<leftarrow> array_get m (p + 4);
     p3 \<leftarrow> array_get m (p + 3);
     p2 \<leftarrow> array_get m (p + 2);
     p1 \<leftarrow> array_get m (p + 1);
     p0 \<leftarrow> array_get m p;
     Some (push_bit 56 (ucast p7) OR push_bit 48 (ucast p6) OR push_bit 40 (ucast p5)
           OR push_bit 32 (ucast p4) OR push_bit 24 (ucast p3) OR push_bit 16 (ucast p2)
           OR push_bit 8 (ucast p1) OR ucast p0)
   }"

section \<open>Bytes of a word\<close>

lemma bit_byte_at [simp]:
  "bit (byte_at k (v :: 'a::len word)) n \<longleftrightarrow> n < 8 \<and> bit v (8 * k + n)"
  by (auto simp: byte_at_def bit_simps)

lemma ucast_byte_at: "ucast (byte_at k v) = take_bit 8 (drop_bit (8 * k) (v :: 'a::len word))"
  by (rule bit_word_eqI) (auto simp: bit_simps)

lemma take_bit_join:
  "take_bit k v OR push_bit k (take_bit 8 (drop_bit k v)) = take_bit (k + 8) (v :: 'a::len word)"
  by (rule bit_word_eqI) (auto simp: bit_simps)

lemma take_bit_join_or:
  "take_bit k v OR (push_bit k (take_bit 8 (drop_bit k v)) OR x) = take_bit (k + 8) (v :: 'a::len word) OR x"
  by (simp add: take_bit_join or.assoc [symmetric])

lemma take_bit_all: "take_bit LENGTH('a) v = (v :: 'a::len word)"
  by (rule bit_word_eqI) (auto simp: bit_simps)

lemmas byte_joins = take_bit_join [of 8] take_bit_join [of 16] take_bit_join [of 24]
  take_bit_join [of 32] take_bit_join [of 40] take_bit_join [of 48] take_bit_join [of 56]
  take_bit_join_or [of 8] take_bit_join_or [of 16] take_bit_join_or [of 24]
  take_bit_join_or [of 32] take_bit_join_or [of 40] take_bit_join_or [of 48]

lemma join2: "ucast (byte_at 0 v) OR push_bit 8 (ucast (byte_at 1 v)) = (v :: 16 word)"
  using byte_joins [of v] take_bit_all [of v] by (simp add: ucast_byte_at)

lemma join4:
  "ucast (byte_at 0 v) OR push_bit 8 (ucast (byte_at 1 v)) OR push_bit 16 (ucast (byte_at 2 v))
   OR push_bit 24 (ucast (byte_at 3 v)) = (v :: 32 word)"
  using byte_joins [of v] take_bit_all [of v] by (simp add: ucast_byte_at or.assoc)

lemma join8:
  "ucast (byte_at 0 v) OR push_bit 8 (ucast (byte_at 1 v)) OR push_bit 16 (ucast (byte_at 2 v))
   OR push_bit 24 (ucast (byte_at 3 v)) OR push_bit 32 (ucast (byte_at 4 v))
   OR push_bit 40 (ucast (byte_at 5 v)) OR push_bit 48 (ucast (byte_at 6 v))
   OR push_bit 56 (ucast (byte_at 7 v)) = (v :: 64 word)"
  using byte_joins [of v] take_bit_all [of v] by (simp add: ucast_byte_at or.assoc)

lemma byte_bit: "bit (b :: byte) n \<Longrightarrow> n < 8"
  using bit_imp_le_length by force

lemma split2:
  fixes v :: "16 word"
  assumes "v = ucast b0 OR push_bit 8 (ucast b1)"
  shows "byte_at 0 v = b0" "byte_at 1 v = b1"
  by (rule bit_word_eqI; auto simp: assms bit_simps dest: byte_bit)+

lemma split4:
  fixes v :: "32 word"
  assumes "v = ucast b0 OR push_bit 8 (ucast b1) OR push_bit 16 (ucast b2) OR push_bit 24 (ucast b3)"
  shows "byte_at 0 v = b0" "byte_at 1 v = b1" "byte_at 2 v = b2" "byte_at 3 v = b3"
  by (rule bit_word_eqI; auto simp: assms bit_simps dest: byte_bit)+

section \<open>Buffers\<close>

lemma array_set_inside [simp]: "i < length xs \<Longrightarrow> array_set i x xs = Some (xs[i := x])"
  by (simp add: array_set_def)

lemma bytes_put_at:
  assumes "bytes_put buf p bs = Some buf'"
  shows "bytes_at buf' p (length bs) = Some bs" "length buf' = length buf"
    "i < p \<or> p + length bs \<le> i \<Longrightarrow> i < length buf \<Longrightarrow> buf' ! i = buf ! i"
proof -
  from assms have b: "buf' = take p buf @ bs @ drop (p + length bs) buf" "p + length bs \<le> length buf"
    by (auto simp: bytes_put_def split: if_splits)
  then show "bytes_at buf' p (length bs) = Some bs" "length buf' = length buf"
    by (simp_all add: bytes_at_def)
  show "buf' ! i = buf ! i" if "i < p \<or> p + length bs \<le> i" "i < length buf"
    using that b by (auto simp: nth_append min_def)
qed

text \<open>A reader is the reader of its bytes: \<open>bytes_at\<close> decomposes every multi-byte access.\<close>

lemma bytes_at_Suc:
  "bytes_at m p (Suc n) = do { b \<leftarrow> array_get m p; bs \<leftarrow> bytes_at m (p + 1) n; Some (b # bs) }"
  by (auto simp: bytes_at_def array_get_def Cons_nth_drop_Suc [symmetric])

lemma offset_Suc:
  "p + 3 = Suc (Suc (Suc p))" "p + 4 = Suc (p + 3)" "p + 5 = Suc (p + 4)" "p + 6 = Suc (p + 5)"
  "p + 7 = Suc (p + 6)" "p + 8 = Suc (p + 7)"
  by simp_all

lemma read_advance:
  "read2LE m p = do { v \<leftarrow> get2LE m p; Some (v, p + 2) }"
  "read2BE m p = do { v \<leftarrow> get2BE m p; Some (v, p + 2) }"
  "read4LE m p = do { v \<leftarrow> get4LE m p; Some (v, p + 4) }"
  "read4BE m p = do { v \<leftarrow> get4BE m p; Some (v, p + 4) }"
  "read8LE m p = do { v \<leftarrow> get8LE m p; Some (v, p + 8) }"
  "read8BE m p = do { v \<leftarrow> get8BE m p; Some (v, p + 8) }"
  by (simp_all add: read2LE_def read2BE_def read4LE_def read4BE_def read8LE_def read8BE_def
      get2LE_def get2BE_def get4LE_def get4BE_def get8LE_def get8BE_def read1_def offset_Suc)

lemma set_get_2:
  assumes "p + 2 \<le> length buf"
  shows "\<exists>b. set2LE buf p v = Some b \<and> get2LE b p = Some v \<and> length b = length buf"
    "\<exists>b. set2BE buf p v = Some b \<and> get2BE b p = Some v \<and> length b = length buf"
  using assms join2 [of v]
  by (simp_all add: set2LE_def set2BE_def get2LE_def get2BE_def or.commute or.left_commute)

lemma set_get_4:
  assumes "p + 4 \<le> length buf"
  shows "\<exists>b. set4LE buf p v = Some b \<and> get4LE b p = Some v \<and> length b = length buf"
    "\<exists>b. set4BE buf p v = Some b \<and> get4BE b p = Some v \<and> length b = length buf"
  using assms join4 [of v]
  by (simp_all add: set4LE_def set4BE_def get4LE_def get4BE_def or.commute or.left_commute)

lemma set_get_8:
  assumes "p + 8 \<le> length buf"
  shows "\<exists>b. set8LE buf p v = Some b \<and> get8LE b p = Some v \<and> length b = length buf"
    "\<exists>b. set8BE buf p v = Some b \<and> get8BE b p = Some v \<and> length b = length buf"
  using assms join8 [of v]
  by (simp_all add: set8LE_def set8BE_def get8LE_def get8BE_def or.commute or.left_commute)

lemma get_inside:
  "p + 2 \<le> length m \<Longrightarrow> \<exists>v. get2LE m p = Some v"
  "p + 4 \<le> length m \<Longrightarrow> \<exists>v. get4LE m p = Some v"
  by (simp_all add: get2LE_def get4LE_def)

lemma get_None [simp]:
  "get2LE m p = None \<longleftrightarrow> length m < p + 2"
  "get4LE m p = None \<longleftrightarrow> length m < p + 4"
  by (auto simp: get2LE_def get4LE_def array_get_def bind_eq_None_conv)

lemma bytes_at_None [simp]: "bytes_at m p n = None \<longleftrightarrow> length m < p + n"
  by (auto simp: bytes_at_def)

lemma Read_get: "Read4 m p = get4LE m p" "Read8 m p = get8LE m p"
  by (auto simp: Read4_def Read8_def get4LE_def get8LE_def array_get_def Let_def or.commute or.left_commute)

section \<open>Properties\<close>

text \<open>
  C39. Byte order round trips: inside a buffer every writer succeeds, keeps the length of the
  buffer, and the reader of the same width and order returns the value written.
\<close>

theorem endian_roundtrip:
  assumes "p + 8 \<le> length buf"
  shows "(\<exists>b. set2LE buf p v2 = Some b \<and> get2LE b p = Some v2 \<and> length b = length buf)
    \<and> (\<exists>b. set2BE buf p v2 = Some b \<and> get2BE b p = Some v2 \<and> length b = length buf)
    \<and> (\<exists>b. set4LE buf p v4 = Some b \<and> get4LE b p = Some v4 \<and> length b = length buf)
    \<and> (\<exists>b. set4BE buf p v4 = Some b \<and> get4BE b p = Some v4 \<and> length b = length buf)
    \<and> (\<exists>b. set8LE buf p v8 = Some b \<and> get8LE b p = Some v8 \<and> length b = length buf)
    \<and> (\<exists>b. set8BE buf p v8 = Some b \<and> get8BE b p = Some v8 \<and> length b = length buf)"
  using assms set_get_2 set_get_4 set_get_8 by simp

theorem endian_roundtrip_witness:
  "\<exists>b. set4BE (replicate 12 0) 3 0x12345678 = Some b \<and> get4BE b 3 = Some 0x12345678"
  using endian_roundtrip [of 3 "replicate 12 0" 0 "0x12345678" 0] by auto

text \<open>
  Patch header fields: what \<open>Write4\<close> and \<open>Write8\<close> append to a file is what \<open>Read4\<close> and
  \<open>Read8\<close> read back at that place, whatever follows, for every value including the negative
  ones.
\<close>

theorem write_read_fields:
  "Read4 (Write4 v f @ rest) (length f) = Some v \<and> Read8 (Write8 w f @ rest) (length f) = Some w
   \<and> length (Write4 v f) = length f + 4 \<and> length (Write8 w f) = length f + 8"
proof -
  have nth: "(f @ xs) ! Suc (length f) = xs ! 1" "(f @ xs) ! Suc (Suc (length f)) = xs ! 2"
    for xs :: "byte list" by (simp_all add: nth_append)
  show ?thesis
    using join4 [of v] join8 [of w]
    by (simp add: Read4_def Read8_def Write4_def Write8_def nth or.commute or.left_commute)
qed

text \<open>
  C40. Length-prefixed strings: a string set in a large enough buffer is read back whole by
  \<open>readNewUtf8String\<close>, with the pointer just behind it, where \<open>skipUtf8String\<close> also ends.
\<close>

theorem utf8_roundtrip:
  assumes "p + 4 + length str \<le> length buf" and "length str < 2 ^ 32"
  shows "\<exists>b. setUtf8String buf p str = Some b
    \<and> readNewUtf8String b p = Some (str @ [0], word_of_nat (length str), p + 4 + length str)
    \<and> skipUtf8String b p = Some (p + 4 + length str)"
proof -
  let ?n = "word_of_nat (length str) :: 32 word"
  have n: "unat ?n = length str" using assms(2) by (simp add: unsigned_of_nat take_bit_nat_eq_self)
  obtain b0 where b0: "set4BE buf p ?n = Some b0" "get4BE b0 p = Some ?n" "length b0 = length buf"
    using set_get_4(2) [of p buf ?n] assms(1) by auto
  then obtain b where b: "bytes_put b0 (p + 4) str = Some b"
    using assms(1) by (auto simp: bytes_put_def)
  note put = bytes_put_at [OF b]
  have "get4BE b p = get4BE b0 p"
    using put(2) put(3) b0(3) assms(1) by (simp add: get4BE_def)
  with b0 b put(1) n show ?thesis
    by (simp add: setUtf8String_def readNewUtf8String_def skipUtf8String_def read_advance)
qed

theorem utf8_roundtrip_witness:
  "\<exists>b. setUtf8String (replicate 10 0) 1 [104, 105] = Some b
    \<and> readNewUtf8String b 1 = Some ([104, 105, 0], 2, 7)"
  using utf8_roundtrip [of 1 "[104, 105]" "replicate 10 0"] by auto

end
