(* ===== verification/Zip.thy ===== *)
theory Zip
  imports Bits HashOps "HOL-Library.Multiset"
begin

text \<open>
  \<open>minzip/Zip.c\<close>, opening an archive: \<open>parseZipArchive\<close> scans the central directory of a mapped
  file into an array of entries sorted by name (with a binary search and a \<open>memmove\<close> per entry)
  and a hash table over it, \<open>mzFindZipEntry\<close> looks an entry up, \<open>mzGetZipEntryAt\<close> and
  \<open>mzIsZipEntrySymlink\<close> read entries.

  The file is a list of bytes mapped at an address (\<open>MemMapping\<close>); pointers into the map are
  offsets, and every access outside the map is undefined.  Sizes and addresses are 32 bits wide,
  as on the devices the code runs on, \<open>long\<close> included.  An entry keeps the bytes of its name
  (pointer and length in the code); the items of the hash table are pointers into the entry array,
  here indices.  Each \<open>goto bail\<close> of the parser is a value of \<open>zip_error\<close>; running out of memory
  is not modelled.  \<open>safe_add\<close> belongs to a library that is not part of the repository: its two
  uses are parameters.
\<close>

section \<open>Data\<close>

record MemMapping =
  addr :: "32 word"
  mem :: "byte list"

record ZipEntry =
  fileName :: "byte list"
  offset :: "32 word"
  compLen :: "32 word"
  uncompLen :: "32 word"
  compression :: "16 word"
  modTime :: "32 word"
  crc32 :: "32 word"
  versionMadeBy :: "16 word"
  externalFileAttributes :: "32 word"

definition zero_entry :: ZipEntry where
  "zero_entry = \<lparr>fileName = [], offset = 0, compLen = 0, uncompLen = 0, compression = 0,
     modTime = 0, crc32 = 0, versionMadeBy = 0, externalFileAttributes = 0\<rparr>"

record ZipArchive =
  zipEntries :: "ZipEntry list"
  pHash :: "nat HashTable"

datatype zip_error = Empty_zip | Not_zip | No_eocd | Bad_count | Ran_off_end | Missed_cd_sig
  | Name_ran_off | Invalid_name | Incompatible_version | Address_overflow | Bad_local_offset
  | Missed_local_sig | Length_overflow | Data_ran_off

definition CENSIG :: "32 word" where "CENSIG = 0x02014b50"
definition ENDSIG :: "32 word" where "ENDSIG = 0x06054b50"
definition LOCSIG :: "32 word" where "LOCSIG = 0x04034b50"
definition CENVEM_UNIX :: "16 word" where "CENVEM_UNIX = 0x300"

text \<open>The uses of \<open>safe_add\<close>: on addresses (with a result) and on \<open>long\<close> values (check only).\<close>

record safe_iop =
  safe_add_u :: "32 word \<Rightarrow> 32 word \<Rightarrow> 32 word option"
  safe_add_s :: "32 word \<Rightarrow> 32 word \<Rightarrow> bool"

section \<open>Names\<close>

fun strncmp :: "byte list \<Rightarrow> byte list \<Rightarrow> nat \<Rightarrow> int" where
  "strncmp (a # as) (b # bs) (Suc n) =
     (if a \<noteq> b then uint a - uint b else if a = 0 then 0 else strncmp as bs n)"
| "strncmp _ _ _ = 0"

definition hashcmpZipEntry :: "ZipEntry \<Rightarrow> ZipEntry \<Rightarrow> int" where
  "hashcmpZipEntry entry1 entry2 =
     (if length (fileName entry1) \<noteq> length (fileName entry2)
      then int (length (fileName entry1)) - int (length (fileName entry2))
      else memcmp (fileName entry1) (fileName entry2) (length (fileName entry1)))"

definition hashcmpZipName :: "ZipEntry \<Rightarrow> byte list \<Rightarrow> int" where
  "hashcmpZipName entry name =
     (if length (fileName entry) \<noteq> length name
      then int (length (fileName entry)) - int (length name)
      else memcmp (fileName entry) name (length name))"

definition computeHash :: "byte list \<Rightarrow> 32 word" where
  "computeHash name = foldl (\<lambda>hash c. hash * 31 + ucast c) 2 name"

definition PATH_MAX :: nat where "PATH_MAX = 4096"

definition validFilename :: "byte list \<Rightarrow> bool" where
  "validFilename name \<longleftrightarrow>
     \<not> length name \<ge> PATH_MAX \<and> list_all (\<lambda>c. \<not> (c < 32 \<or> c \<ge> 127)) name"

section \<open>Finding the place of an entry\<close>

text \<open>
  The comparison of the name of an entry with the new name inside the binary search of
  \<open>parseZipArchive\<close>, and the search over the first \<open>i\<close> entries, from \<open>low\<close> to \<open>high\<close>
  (\<open>high\<close> may become -1), returning the final \<open>high\<close>.
\<close>

definition name_diff :: "byte list \<Rightarrow> byte list \<Rightarrow> int" where
  "name_diff midName name =
     (let diffLen = (if length midName < length name then length midName else length name);
          diff = strncmp midName name diffLen
      in if diff = 0 then int (length midName) - int (length name) else diff)"

lemma half_le: "0 \<le> (k :: int) \<Longrightarrow> 0 \<le> k div 2 \<and> k div 2 \<le> k"
  by presburger

function find_place :: "ZipEntry list \<Rightarrow> byte list \<Rightarrow> int \<Rightarrow> int \<Rightarrow> int" where
  "find_place es name low high =
     (if low \<le> high then
        let mid = low + (high - low) div 2;
            diff = name_diff (fileName (es ! nat mid)) name
        in if diff < 0 then find_place es name (mid + 1) high
           else if diff > 0 then find_place es name low (mid - 1)
           else mid
      else high)"
  by pat_completeness auto

termination
proof (relation "measure (\<lambda>(es, name, low, high). nat (high - low + 1))", goal_cases)
  case (2 es name low high mid diff)
  then show ?case using half_le [of "high - low"] by simp
next
  case (3 es name low high mid diff)
  then show ?case using half_le [of "high - low"] by simp
qed simp

declare find_place.simps [simp del]

text \<open>\<open>memmove\<close> within an array, counted in elements.\<close>

definition memmove :: "nat \<Rightarrow> nat \<Rightarrow> nat \<Rightarrow> 'a list \<Rightarrow> 'a list ub" where
  "memmove dst src n xs =
     (if src + n \<le> length xs \<and> dst + n \<le> length xs
      then Some (take dst xs @ take n (drop src xs) @ drop (dst + n) xs) else None)"

definition make_room :: "ZipEntry list \<Rightarrow> nat \<Rightarrow> byte list \<Rightarrow> (nat \<times> ZipEntry list) ub" where
  "make_room es i name =
     (if i > 0 then do {
        let target = nat (find_place es name 0 (int i - 1) + 1);
        assert_c (target \<le> i);
        es \<leftarrow> (if target \<noteq> i then memmove (target + 1) target (i - target) es else Some es);
        Some (target, es)
      }
      else Some (0, es))"

section \<open>Parsing the archive\<close>

text \<open>
  One turn of the loop over the central directory, on the record at offset \<open>ptr\<close>:
  \<open>entry_header\<close> is the part before the place of the entry is searched (it yields the name, the
  offset of the local header and the offset of the next record), \<open>entry_fields\<close> the part that
  fills the entry in.
\<close>

definition entry_header :: "MemMapping \<Rightarrow> nat \<Rightarrow> (zip_error + byte list \<times> 32 word \<times> nat) ub" where
  "entry_header pMap ptr =
    (let m = mem pMap; len = length m in
     if ptr + 46 > len then Some (Inl Ran_off_end) else do {
     sig \<leftarrow> get4LE m ptr;
     if sig \<noteq> CENSIG then Some (Inl Missed_cd_sig) else do {
     localHdrOffset \<leftarrow> get4LE m (ptr + 42);
     fileNameLen \<leftarrow> get2LE m (ptr + 28);
     extraLen \<leftarrow> get2LE m (ptr + 30);
     commentLen \<leftarrow> get2LE m (ptr + 32);
     if ptr + 46 + unat fileNameLen > len then Some (Inl Name_ran_off) else do {
     name \<leftarrow> bytes_at m (ptr + 46) (unat fileNameLen);
     if \<not> validFilename name then Some (Inl Invalid_name)
     else Some (Inr (name, localHdrOffset,
                     ptr + 46 + unat fileNameLen + unat extraLen + unat commentLen))
     }}})"

definition entry_fields ::
  "safe_iop \<Rightarrow> MemMapping \<Rightarrow> nat \<Rightarrow> byte list \<Rightarrow> 32 word \<Rightarrow> (zip_error + ZipEntry) ub" where
  "entry_fields lib pMap ptr name localHdrOffset =
    (let m = mem pMap; len = length m in do {
     cLen \<leftarrow> get4LE m (ptr + 20);
     uLen \<leftarrow> get4LE m (ptr + 24);
     how \<leftarrow> get2LE m (ptr + 10);
     time \<leftarrow> get4LE m (ptr + 12);
     crc \<leftarrow> get4LE m (ptr + 16);
     madeBy \<leftarrow> get2LE m (ptr + 4);
     if madeBy AND 0xff00 \<noteq> 0 \<and> madeBy AND 0xff00 \<noteq> CENVEM_UNIX
     then Some (Inl Incompatible_version) else do {
     attr \<leftarrow> get4LE m (ptr + 38);
     (case safe_add_u lib (addr pMap) localHdrOffset of
        None \<Rightarrow> Some (Inl Address_overflow)
      | Some localHdr \<Rightarrow>
     if localHdr + 30 > addr pMap + word_of_nat len then Some (Inl Bad_local_offset) else do {
     let lp = unat (localHdr - addr pMap);
     lsig \<leftarrow> get4LE m lp;
     if lsig \<noteq> LOCSIG then Some (Inl Missed_local_sig) else do {
     locNam \<leftarrow> get2LE m (lp + 26);
     locExt \<leftarrow> get2LE m (lp + 28);
     let off = localHdrOffset + 30 + ucast locNam + ucast locExt;
     if \<not> safe_add_s lib off cLen then Some (Inl Length_overflow)
     else if off + cLen > word_of_nat len then Some (Inl Data_ran_off)
     else Some (Inr \<lparr>fileName = name, offset = off, compLen = cLen, uncompLen = uLen,
             compression = how, modTime = time, crc32 = crc, versionMadeBy = madeBy,
             externalFileAttributes = attr\<rparr>)
     }})}})"

definition parse_entry ::
  "safe_iop \<Rightarrow> MemMapping \<Rightarrow> nat \<Rightarrow> nat \<Rightarrow> ZipEntry list \<Rightarrow> (zip_error + ZipEntry list \<times> nat) ub"
where
  "parse_entry lib pMap i ptr es = do {
     h \<leftarrow> entry_header pMap ptr;
     (case h of
        Inl err \<Rightarrow> Some (Inl err)
      | Inr (name, localHdrOffset, next) \<Rightarrow> do {
          (target, es) \<leftarrow> make_room es i name;
          f \<leftarrow> entry_fields lib pMap ptr name localHdrOffset;
          (case f of
             Inl err \<Rightarrow> Some (Inl err)
           | Inr e \<Rightarrow> do { es \<leftarrow> array_set target e es; Some (Inr (es, next)) })
        })
   }"

text \<open>The loop; \<open>n\<close> records remain, the next is number \<open>i\<close>.\<close>

fun parse_entries ::
  "safe_iop \<Rightarrow> MemMapping \<Rightarrow> nat \<Rightarrow> nat \<Rightarrow> nat \<Rightarrow> ZipEntry list \<Rightarrow> (zip_error + ZipEntry list) ub"
where
  "parse_entries lib pMap 0 i ptr es = Some (Inr es)"
| "parse_entries lib pMap (Suc n) i ptr es = do {
     r \<leftarrow> parse_entry lib pMap i ptr es;
     (case r of
        Inl e \<Rightarrow> Some (Inl e)
      | Inr (es, ptr) \<Rightarrow> parse_entries lib pMap n (i + 1) ptr es)
   }"

definition addEntryToHashTable :: "ZipEntry list \<Rightarrow> nat HashTable \<Rightarrow> nat \<Rightarrow> nat HashTable ub" where
  "addEntryToHashTable es ht i = do {
     (found, ht) \<leftarrow> mzHashTableLookup ht (computeHash (fileName (es ! i))) i
                      (\<lambda>d. hashcmpZipEntry (es ! d) (es ! i)) True;
     Some ht
   }"

fun add_entries :: "ZipEntry list \<Rightarrow> nat list \<Rightarrow> nat HashTable \<Rightarrow> nat HashTable ub" where
  "add_entries es [] ht = Some ht"
| "add_entries es (i # is) ht = do { ht \<leftarrow> addEntryToHashTable es ht i; add_entries es is ht }"

text \<open>The backward scan for the end-of-central-directory record: \<open>n - 1\<close> is the offset looked at.\<close>

fun find_eocd :: "byte list \<Rightarrow> nat \<Rightarrow> nat option ub" where
  "find_eocd m 0 = Some None"
| "find_eocd m (Suc p) = do {
     b \<leftarrow> array_get m p;
     hit \<leftarrow> (if b = 0x50 then do { sig \<leftarrow> get4LE m p; Some (sig = ENDSIG) } else Some False);
     if hit then Some (Some p) else find_eocd m p
   }"

definition parseZipArchive :: "safe_iop \<Rightarrow> MemMapping \<Rightarrow> (zip_error + ZipArchive) ub" where
  "parseZipArchive lib pMap =
    (let m = mem pMap in do {
     val \<leftarrow> get4LE m 0;
     if val = ENDSIG then Some (Inl Empty_zip)
     else if val \<noteq> LOCSIG then Some (Inl Not_zip)
     else do {
     eocd \<leftarrow> find_eocd m (length m + 1 - 22);
     (case eocd of
        None \<Rightarrow> Some (Inl No_eocd)
      | Some ptr \<Rightarrow> do {
     numEntries \<leftarrow> get2LE m (ptr + 8);
     cdOffset \<leftarrow> get4LE m (ptr + 16);
     if numEntries = 0 \<or> unat cdOffset \<ge> length m then Some (Inl Bad_count) else do {
     ht \<leftarrow> mzHashTableCreate (word_of_nat (mzHashSize (unat numEntries))) False;
     r \<leftarrow> parse_entries lib pMap (unat numEntries) 0 (unat cdOffset)
            (replicate (unat numEntries) zero_entry);
     (case r of
        Inl e \<Rightarrow> Some (Inl e)
      | Inr es \<Rightarrow> do {
          ht \<leftarrow> add_entries es [0..<unat numEntries] ht;
          Some (Inr \<lparr>zipEntries = es, pHash = ht\<rparr>)
        })
     }})}})"

text \<open>The first part of \<open>mzOpenZipArchive\<close> on a mapped file: files shorter than the
  end-of-central-directory record are refused before parsing.\<close>

definition mzOpenZipArchive :: "safe_iop \<Rightarrow> MemMapping \<Rightarrow> ZipArchive option ub" where
  "mzOpenZipArchive lib pMap =
     (if length (mem pMap) < 22 then Some None
      else do {
        r \<leftarrow> parseZipArchive lib pMap;
        Some (case r of Inl e \<Rightarrow> None | Inr ar \<Rightarrow> Some ar)
      })"

text \<open>The item of the lookup is the C string itself; it is never stored, so any index stands for it.\<close>

definition mzFindZipEntry :: "ZipArchive \<Rightarrow> byte list \<Rightarrow> (nat option \<times> nat HashTable) ub" where
  "mzFindZipEntry ar entryName =
     mzHashTableLookup (pHash ar) (computeHash entryName) 0
       (\<lambda>d. hashcmpZipName (zipEntries ar ! d) entryName) False"

definition mzGetZipEntryAt :: "ZipArchive \<Rightarrow> nat \<Rightarrow> nat option" where
  "mzGetZipEntryAt ar index = (if index < length (zipEntries ar) then Some index else None)"

definition S_ISLNK :: "32 word \<Rightarrow> bool" where
  "S_ISLNK m \<longleftrightarrow> m AND 0xf000 = 0xa000"

definition mzIsZipEntrySymlink :: "ZipEntry \<Rightarrow> bool" where
  "mzIsZipEntrySymlink e \<longleftrightarrow>
     versionMadeBy e AND 0xff00 = CENVEM_UNIX
     \<and> S_ISLNK (signed_drop_bit 16 (externalFileAttributes e))"

section \<open>Names and their order\<close>

lemma hashcmpZipEntry_eq_0: "hashcmpZipEntry a b = 0 \<longleftrightarrow> fileName b = fileName a"
proof (cases "length (fileName a) = length (fileName b)")
  case True
  with memcmp_eq_0 [OF True] show ?thesis by (auto simp: hashcmpZipEntry_def)
next
  case False
  then have "fileName b \<noteq> fileName a" by metis
  with False show ?thesis by (simp add: hashcmpZipEntry_def)
qed

lemma hashcmpZipName_eq_0: "hashcmpZipName e name = 0 \<longleftrightarrow> fileName e = name"
proof (cases "length (fileName e) = length name")
  case True
  with memcmp_eq_0 [OF True] show ?thesis by (simp add: hashcmpZipName_def)
next
  case False
  then have "fileName e \<noteq> name" by metis
  with False show ?thesis by (simp add: hashcmpZipName_def)
qed

lemma name_diff_Nil: "name_diff [] b = - int (length b)" "name_diff a [] = int (length a)"
  by (simp_all add: name_diff_def)

lemma name_diff_Cons:
  "x \<noteq> 0 \<Longrightarrow> name_diff (x # a) (y # b) = (if x \<noteq> y then uint x - uint y else name_diff a b)"
  by (simp add: name_diff_def Let_def word_uint_eq_iff)

lemma name_diff_sign:
  assumes "0 \<notin> set a"
  shows "(name_diff a b < 0 \<longleftrightarrow> a < b) \<and> (name_diff a b = 0 \<longleftrightarrow> a = b)"
  using assms
proof (induction a arbitrary: b)
  case Nil
  show ?case by (cases b) (simp_all add: name_diff_Nil)
next
  case (Cons x a)
  show ?case
  proof (cases b)
    case Nil
    then show ?thesis by (simp add: name_diff_Nil)
  next
    case b: (Cons y b')
    have nz: "x \<noteq> 0" and IH: "(name_diff a b' < 0 \<longleftrightarrow> a < b') \<and> (name_diff a b' = 0 \<longleftrightarrow> a = b')"
      using Cons by auto
    show ?thesis
      using IH by (simp add: b name_diff_Cons [OF nz] word_less_def word_uint_eq_iff)
  qed
qed

lemma validFilename_no_nul: "validFilename name \<Longrightarrow> 0 \<notin> set name"
  by (auto simp: validFilename_def list_all_iff)

section \<open>The search finds the place\<close>

abbreviation names :: "ZipEntry list \<Rightarrow> byte list list" where
  "names es \<equiv> map fileName es"

lemma find_place_spec:
  assumes "sorted (names (take i es))" "i \<le> length es"
    and "\<forall>e \<in> set (take i es). validFilename (fileName e)"
    and "0 \<le> low" "low \<le> high + 1" "high < int i"
    and "\<forall>j < nat low. fileName (es ! j) \<le> name"
    and "\<forall>j < i. int j > high \<longrightarrow> name \<le> fileName (es ! j)"
  shows "- 1 \<le> find_place es name low high \<and> find_place es name low high < int i
    \<and> (\<forall>j < i. if int j \<le> find_place es name low high then fileName (es ! j) \<le> name
               else name \<le> fileName (es ! j))"
  using assms
proof (induction es name low high rule: find_place.induct)
  case (1 es name low high)
  show ?case
  proof (cases "low \<le> high")
    case False
    then have "find_place es name low high = high" by (simp add: find_place.simps [of es name low])
    moreover have "high = low - 1" using False "1.prems" by simp
    ultimately show ?thesis using "1.prems" by (auto simp: zless_nat_eq_int_zless)
  next
    case True
    define mid where "mid = low + (high - low) div 2"
    define diff where "diff = name_diff (fileName (es ! nat mid)) name"
    have mid: "low \<le> mid" "mid \<le> high" using True half_le [of "high - low"] by (auto simp: mid_def)
    then have m: "nat mid < i" "nat mid < length es" "0 \<le> mid" using "1.prems" by auto
    then have "es ! nat mid \<in> set (take i es)" by (auto simp: in_set_conv_nth)
    then have sign: "diff < 0 \<longleftrightarrow> fileName (es ! nat mid) < name"
      "diff = 0 \<longleftrightarrow> fileName (es ! nat mid) = name"
      using "1.prems"(3) name_diff_sign [OF validFilename_no_nul] by (auto simp: diff_def)
    have le: "fileName (es ! j) \<le> fileName (es ! k)" if "j \<le> k" "k < i" for j k
      using "1.prems"(1,2) that by (auto simp: sorted_iff_nth_mono)
    have step: "find_place es name low high =
        (if diff < 0 then find_place es name (mid + 1) high
         else if diff > 0 then find_place es name low (mid - 1) else mid)"
      using True by (simp add: find_place.simps [of es name low high] mid_def diff_def)
    consider "diff < 0" | "diff > 0" | "diff = 0" by linarith
    then show ?thesis
    proof cases
      case 1
      have "\<forall>j < nat (mid + 1). fileName (es ! j) \<le> name"
        using le [OF _ m(1)] sign 1 m(3) by (fastforce simp: less_Suc_eq_le nat_add_distrib)
      with "1.IH"(1) [OF True mid_def diff_def] 1 "1.prems" mid show ?thesis by (simp add: step)
    next
      case 2
      then have "name \<le> fileName (es ! nat mid)" using sign by force
      then have "\<forall>j < i. int j > mid - 1 \<longrightarrow> name \<le> fileName (es ! j)"
        using le [of "nat mid"] by (auto simp: nat_le_iff intro: order_trans)
      with "1.IH"(2) [OF True mid_def diff_def] 2 "1.prems" mid show ?thesis by (simp add: step)
    next
      case 3
      then have "fileName (es ! nat mid) = name" using sign by simp
      with 3 le [OF _ m(1)] le [of "nat mid"] mid "1.prems" show ?thesis
        by (auto simp: step nat_le_iff le_nat_iff)
    qed
  qed
qed

text \<open>Inserting behind the place found keeps the names sorted.\<close>

definition insert_at :: "nat \<Rightarrow> 'a \<Rightarrow> 'a list \<Rightarrow> 'a list" where
  "insert_at k x xs = take k xs @ x # drop k xs"

lemma sorted_insert_at:
  fixes x :: "'a::linorder"
  assumes "sorted xs" and "\<forall>j < t. j < length xs \<longrightarrow> xs ! j \<le> x"
    and "\<forall>j < length xs. t \<le> j \<longrightarrow> x \<le> xs ! j"
  shows "sorted (insert_at t x xs)"
proof -
  have before: "\<forall>y \<in> set (take t xs). y \<le> x"
    using assms(2) by (auto simp: in_set_conv_nth)
  moreover have behind: "\<forall>y \<in> set (drop t xs). x \<le> y"
    using assms(3) by (auto simp: in_set_conv_nth)
  moreover have "\<forall>y \<in> set (take t xs). \<forall>z \<in> set (drop t xs). y \<le> z"
    using before behind order_trans by blast
  ultimately show ?thesis
    using assms(1) by (simp add: insert_at_def sorted_append sorted_wrt_take sorted_wrt_drop)
qed

lemma map_insert_at: "map f (insert_at t x xs) = insert_at t (f x) (map f xs)"
  by (simp add: insert_at_def take_map drop_map)

lemma mset_insert_at: "mset (insert_at t x xs) = add_mset x (mset xs)"
  using append_take_drop_id [of t xs, THEN arg_cong, of mset]
  by (simp add: insert_at_def del: append_take_drop_id)

lemma make_room_spec:
  assumes "sorted (names (take i es))" "i < length es"
    and "\<forall>e \<in> set (take i es). validFilename (fileName e)" and "fileName e = name"
  obtains t es1 es2 where "make_room es i name = Some (t, es1)" "array_set t e es1 = Some es2"
    "length es2 = length es" "take (Suc i) es2 = insert_at t e (take i es)" "t \<le> i"
    "sorted (names (take (Suc i) es2))"
proof -
  define h where "h = find_place es name 0 (int i - 1)"
  define t where "t = nat (h + 1)"
  have spec: "- 1 \<le> h" "h < int i" "\<forall>j < i. if int j \<le> h then fileName (es ! j) \<le> name
      else name \<le> fileName (es ! j)"
    using find_place_spec [OF assms(1) _ assms(3), of 0 "int i - 1" name] assms(2)
    by (auto simp: h_def)
  then have t: "t \<le> i" "\<forall>j < t. fileName (es ! j) \<le> name" "\<forall>j < i. t \<le> j \<longrightarrow> name \<le> fileName (es ! j)"
    by (auto simp: t_def split: if_splits)
  define es1 where "es1 = (if t = i then es
      else take (t + 1) es @ take (i - t) (drop t es) @ drop (i + 1) es)"
  have h0: "h = - 1" if "i = 0" using that spec by simp
  have room: "make_room es i name = Some (t, es1)"
    using assms(2) t(1) h0 by (auto simp: make_room_def h_def t_def es1_def memmove_def assert_c_def Let_def)
  have len: "length es1 = length es" using assms(2) t(1) by (auto simp: es1_def)
  have set: "array_set t e es1 = Some (es1[t := e])" using len t(1) assms(2) by simp
  have pre: "take (Suc i) (es1[t := e]) = insert_at t e (take i es)"
  proof (cases "t = i")
    case True
    with assms(2) show ?thesis by (simp add: es1_def insert_at_def take_Suc_conv_app_nth)
  next
    case False
    with t(1) have "Suc i - t = Suc (i - t)" by simp
    with False t(1) assms(2) show ?thesis
      by (simp add: es1_def insert_at_def upd_conv_take_nth_drop drop_take min_def)
  qed
  have "sorted (names (insert_at t e (take i es)))"
    unfolding map_insert_at by (rule sorted_insert_at) (use assms(1,2,4) t in simp_all)
  with room set len pre t(1) that show thesis by simp
qed

section \<open>The records of the central directory\<close>

text \<open>
  The reference: the directory as a list, record after record in file order, without sorting.
\<close>

definition read_entry ::
  "safe_iop \<Rightarrow> MemMapping \<Rightarrow> nat \<Rightarrow> (zip_error + ZipEntry \<times> nat) ub" where
  "read_entry lib pMap ptr = do {
     h \<leftarrow> entry_header pMap ptr;
     (case h of
        Inl err \<Rightarrow> Some (Inl err)
      | Inr (name, localHdrOffset, next) \<Rightarrow> do {
          f \<leftarrow> entry_fields lib pMap ptr name localHdrOffset;
          Some (case f of Inl err \<Rightarrow> Inl err | Inr e \<Rightarrow> Inr (e, next))
        })
   }"

fun directory :: "safe_iop \<Rightarrow> MemMapping \<Rightarrow> nat \<Rightarrow> nat \<Rightarrow> (zip_error + ZipEntry list) ub" where
  "directory lib pMap 0 ptr = Some (Inr [])"
| "directory lib pMap (Suc n) ptr = do {
     r \<leftarrow> read_entry lib pMap ptr;
     (case r of
        Inl err \<Rightarrow> Some (Inl err)
      | Inr (e, ptr) \<Rightarrow> do {
          rest \<leftarrow> directory lib pMap n ptr;
          Some (case rest of Inl err \<Rightarrow> Inl err | Inr es \<Rightarrow> Inr (e # es))
        })
   }"

lemma entry_header_name:
  "entry_header pMap ptr = Some (Inr (name, off, next)) \<Longrightarrow> validFilename name"
  by (auto simp: entry_header_def Let_def split: bind_splits if_splits)

lemma entry_fields_name:
  "entry_fields lib pMap ptr name off = Some (Inr e) \<Longrightarrow> fileName e = name"
  by (auto simp: entry_fields_def Let_def split: bind_splits if_splits option.splits)

definition prefix_ok :: "nat \<Rightarrow> ZipEntry list \<Rightarrow> bool" where
  "prefix_ok i es \<longleftrightarrow> sorted (names (take i es)) \<and> i \<le> length es
     \<and> (\<forall>e \<in> set (take i es). validFilename (fileName e))"

lemma parse_entry_spec:
  assumes ok: "prefix_ok i es" and i: "i < length es"
  shows "case read_entry lib pMap ptr of
      None \<Rightarrow> parse_entry lib pMap i ptr es = None
    | Some (Inl err) \<Rightarrow> parse_entry lib pMap i ptr es = Some (Inl err)
    | Some (Inr (e, next)) \<Rightarrow> \<exists>es'. parse_entry lib pMap i ptr es = Some (Inr (es', next))
        \<and> length es' = length es \<and> prefix_ok (Suc i) es'
        \<and> mset (take (Suc i) es') = add_mset e (mset (take i es))"
proof (cases "entry_header pMap ptr")
  case None
  then show ?thesis by (simp add: read_entry_def parse_entry_def)
next
  case (Some h)
  show ?thesis
  proof (cases h)
    case (Inl err)
    with Some show ?thesis by (simp add: read_entry_def parse_entry_def)
  next
    case (Inr r)
    obtain name off "next" where r: "r = (name, off, next)" by (cases r)
    let ?e = "\<lparr>fileName = name, offset = 0, compLen = 0, uncompLen = 0, compression = 0,
      modTime = 0, crc32 = 0, versionMadeBy = 0, externalFileAttributes = 0\<rparr>"
    have room: "\<exists>t es1. make_room es i name = Some (t, es1)"
      by (rule make_room_spec [of i es ?e name]) (use ok i in \<open>auto simp: prefix_ok_def\<close>)
    show ?thesis
    proof (cases "entry_fields lib pMap ptr name off")
      case None
      with Some Inr r room show ?thesis by (auto simp: read_entry_def parse_entry_def)
    next
      case (Some f)
      show ?thesis
      proof (cases f)
        case (Inl err)
        with \<open>entry_header pMap ptr = Some h\<close> Some \<open>h = Inr r\<close> r room show ?thesis
          by (auto simp: read_entry_def parse_entry_def)
      next
        case (Inr e)
        have name: "fileName e = name" "validFilename name"
          using Some Inr \<open>entry_header pMap ptr = Some h\<close> \<open>h = Inr r\<close> r
          by (auto intro: entry_header_name entry_fields_name)
        obtain t es1 es2 where 1: "make_room es i name = Some (t, es1)"
          "array_set t e es1 = Some es2" "length es2 = length es"
          "take (Suc i) es2 = insert_at t e (take i es)" "sorted (names (take (Suc i) es2))"
          by (rule make_room_spec [of i es e name]) (use ok i name in \<open>auto simp: prefix_ok_def\<close>)
        have "set (take (Suc i) es2) = insert e (set (take i es))"
          using mset_insert_at [of t e "take i es"] 1(4) by (metis set_mset_add_mset_insert set_mset_mset)
        with 1 ok i name have "prefix_ok (Suc i) es2" by (auto simp: prefix_ok_def)
        with 1 Some Inr \<open>entry_header pMap ptr = Some h\<close> \<open>h = Inr r\<close> r show ?thesis
          by (simp add: read_entry_def parse_entry_def mset_insert_at)
      qed
    qed
  qed
qed

lemma parse_entries_spec:
  assumes "prefix_ok i es" and "i + n = length es"
  shows "case directory lib pMap n ptr of
      None \<Rightarrow> parse_entries lib pMap n i ptr es = None
    | Some (Inl err) \<Rightarrow> parse_entries lib pMap n i ptr es = Some (Inl err)
    | Some (Inr ds) \<Rightarrow> \<exists>es'. parse_entries lib pMap n i ptr es = Some (Inr es')
        \<and> length es' = length es \<and> prefix_ok (length es) es'
        \<and> mset es' = mset (take i es) + mset ds"
  using assms
proof (induction n arbitrary: i ptr es)
  case 0
  then show ?case by simp
next
  case (Suc n)
  then have i: "i < length es" by simp
  note spec = parse_entry_spec [OF Suc.prems(1) i, of lib pMap ptr]
  show ?case
  proof (cases "read_entry lib pMap ptr")
    case None
    with spec show ?thesis by simp
  next
    case (Some r)
    show ?thesis
    proof (cases r)
      case (Inl err)
      with Some spec show ?thesis by simp
    next
      case (Inr en)
      obtain e "next" where en: "en = (e, next)" by (cases en)
      from spec Some Inr en obtain es' where 1: "parse_entry lib pMap i ptr es = Some (Inr (es', next))"
        "length es' = length es" "prefix_ok (Suc i) es'"
        "mset (take (Suc i) es') = add_mset e (mset (take i es))" by auto
      from Suc.IH [OF 1(3), of "next"] Suc.prems(2) 1(2) 1(1) 1(4) Some Inr en show ?thesis
        by (auto split: option.splits sum.splits)
    qed
  qed
qed

section \<open>Accesses stay inside the map\<close>

text \<open>What the code relies on from \<open>safe_iop\<close>: the additions report overflow.\<close>

definition safe_iop_ok :: "safe_iop \<Rightarrow> bool" where
  "safe_iop_ok lib \<longleftrightarrow>
     (\<forall>a b. safe_add_u lib a b = (if uint a + uint b < 2 ^ 32 then Some (a + b) else None))
     \<and> (\<forall>a b. safe_add_s lib a b \<longleftrightarrow> sint (a + b) = sint a + sint b)"

definition map_fits :: "MemMapping \<Rightarrow> bool" where
  "map_fits pMap \<longleftrightarrow> uint (addr pMap) + int (length (mem pMap)) < 2 ^ 32"

text \<open>
  The check of a local header adds 30 to its address without an overflow check.  The scan is safe
  when no four bytes of the file, taken as an offset, place a header in the last 30 bytes of the
  address space.
\<close>

definition no_wrap :: "MemMapping \<Rightarrow> bool" where
  "no_wrap pMap \<longleftrightarrow> list_all (\<lambda>p. case get4LE (mem pMap) p of None \<Rightarrow> True
     | Some off \<Rightarrow> uint (addr pMap) + uint off + 30 < 2 ^ 32 \<or> 2 ^ 32 \<le> uint (addr pMap) + uint off)
     [0..<length (mem pMap)]"

lemma entry_header_defined: "entry_header pMap ptr \<noteq> None"
  by (auto simp: entry_header_def Let_def bind_eq_None_conv simp del: not_None_eq)

lemma entry_header_inside:
  assumes "entry_header pMap ptr = Some (Inr (name, off, next))"
  shows "ptr + 46 \<le> length (mem pMap)" "get4LE (mem pMap) (ptr + 42) = Some off"
  using assms by (auto simp: entry_header_def Let_def split: bind_splits if_splits)

lemma local_header_inside:
  assumes "uint a + uint off < 2 ^ 32" "uint a + uint off + 30 < 2 ^ 32"
    and "uint a + int len < 2 ^ 32" "\<not> (a + off) + 30 > a + (word_of_nat len :: 32 word)"
  shows "unat off + 30 \<le> len"
proof -
  have len: "uint (word_of_nat len :: 32 word) = int len"
  proof -
    have "int len < 2 ^ 32" using assms(3) uint_ge_0 [of a] by linarith
    then have "len < 2 ^ 32" by simp
    then have "unat (word_of_nat len :: 32 word) = len"
      by (simp add: unsigned_of_nat take_bit_nat_eq_self)
    moreover have "uint (word_of_nat len :: 32 word) = int (unat (word_of_nat len :: 32 word))"
      by (simp only: of_nat_unat)
    ultimately show ?thesis by simp
  qed
  have "uint (a + off) = uint a + uint off" using assms(1) by (simp add: uint_plus_if')
  then have "uint (a + off + 30) = uint a + uint off + 30" using assms(2) by (simp add: uint_plus_if')
  moreover have "uint (a + word_of_nat len) = uint a + int len" using assms(3) len by (simp add: uint_plus_if')
  ultimately have "uint off + 30 \<le> int len" using assms(4) by (simp add: word_less_def)
  moreover have "uint off = int (unat off)" by simp
  ultimately show ?thesis by linarith
qed

lemma entry_fields_defined:
  assumes "safe_iop_ok lib" "map_fits pMap" "no_wrap pMap"
    and "ptr + 46 \<le> length (mem pMap)" "get4LE (mem pMap) (ptr + 42) = Some off"
  shows "entry_fields lib pMap ptr name off \<noteq> None"
proof (cases "safe_add_u lib (addr pMap) off")
  case None
  with assms(4) show ?thesis by (auto simp: entry_fields_def Let_def bind_eq_None_conv simp del: not_None_eq)
next
  case (Some hdr)
  with assms(1) have hdr: "hdr = addr pMap + off" "uint (addr pMap) + uint off < 2 ^ 32"
    by (auto simp: safe_iop_ok_def split: if_splits)
  with assms(3,4,5) have "uint (addr pMap) + uint off + 30 < 2 ^ 32"
    by (fastforce simp: no_wrap_def list_all_iff split: option.splits)
  with hdr assms(2) have inside: "unat off + 30 \<le> length (mem pMap)"
    if "\<not> hdr + 30 > addr pMap + word_of_nat (length (mem pMap))"
    using that local_header_inside by (simp add: map_fits_def)
  have "hdr - addr pMap = off" using hdr by simp
  with Some inside assms(4) show ?thesis
    by (auto simp: entry_fields_def Let_def bind_eq_None_conv simp del: not_None_eq)
qed

lemma read_entry_defined:
  assumes "safe_iop_ok lib" "map_fits pMap" "no_wrap pMap"
  shows "read_entry lib pMap ptr \<noteq> None"
proof (cases "entry_header pMap ptr")
  case None
  with entry_header_defined show ?thesis by blast
next
  case (Some h)
  show ?thesis
  proof (cases h)
    case (Inl err)
    with Some show ?thesis by (simp add: read_entry_def)
  next
    case (Inr r)
    obtain name off n where r: "r = (name, off, n)" by (cases r)
    with Some Inr have h: "entry_header pMap ptr = Some (Inr (name, off, n))" by simp
    from entry_fields_defined [OF assms entry_header_inside [OF h], of name]
    show ?thesis by (auto simp: read_entry_def h)
  qed
qed

lemma directory_defined:
  assumes "safe_iop_ok lib" "map_fits pMap" "no_wrap pMap"
  shows "directory lib pMap n ptr \<noteq> None"
proof (induction n arbitrary: ptr)
  case (Suc n)
  with read_entry_defined [OF assms, of ptr] show ?case
    by (auto simp: bind_eq_None_conv simp del: not_None_eq split: sum.splits prod.splits)
qed simp

lemma find_eocd_spec:
  assumes "n + 21 \<le> length m \<or> n = 0"
  shows "\<exists>r. find_eocd m n = Some r \<and> (\<forall>p. r = Some p \<longrightarrow> p < n \<and> get4LE m p = Some ENDSIG)"
  using assms
proof (induction n)
  case (Suc p)
  then obtain sig where "get4LE m p = Some sig" using get_inside(2) [of p m] by auto
  with Suc show ?case by (auto simp: less_Suc_eq)
qed simp

section \<open>The hash table over the entries\<close>

text \<open>The entry array as a client of the hash table: the items are indices, the key is the name.\<close>

interpretation zip_table: hash_client
  "\<lambda>i. fileName (es ! i)" computeHash "\<lambda>d i. hashcmpZipEntry (es ! d) (es ! i)" for es
  by unfold_locales (auto simp: hashcmpZipEntry_eq_0)

lemma add_entries_run:
  "add_entries es is ht
   = map_option snd (table_run (\<lambda>i. fileName (es ! i)) computeHash
       (\<lambda>d i. hashcmpZipEntry (es ! d) (es ! i)) (map Add is) ht)"
  by (induction "is" arbitrary: ht)
     (auto simp: addEntryToHashTable_def map_option_case split: option.splits bind_splits)

lemma snd_map_run_Cons:
  "snd (map_run key (op # ops) m) = snd (map_run key ops (snd (map_step key op m)))"
  by (simp add: Let_def split_beta)

lemma map_run_adds:
  "snd (map_run key (map Add is) m) q
   = (case m q of Some d \<Rightarrow> Some d | None \<Rightarrow> find (\<lambda>i. key i = q) is)"
proof (induction "is" arbitrary: m)
  case (Cons i "is")
  show ?case
    unfolding list.map snd_map_run_Cons Cons.IH by (auto split: option.splits)
qed (simp split: option.splits)

lemma add_entries_spec:
  assumes "0 < n" "n < 2 ^ 16"
    and "mzHashTableCreate (word_of_nat (mzHashSize n)) False = Some ht"
  shows "\<exists>ht'. add_entries es [0..<n] ht = Some ht'
    \<and> table_ok (\<lambda>i. fileName (es ! i)) computeHash ht' 
    \<and> table_map (\<lambda>i. fileName (es ! i)) ht' = (\<lambda>q. find (\<lambda>i. fileName (es ! i) = q) [0..<n])
    \<and> tableSize ht' < 2 ^ 28"
proof -
  let ?key = "\<lambda>i. fileName (es ! i)"
  define c :: "32 word" where "c = word_of_nat (mzHashSize n)"
  have "mzHashSize n < 2 ^ 32" using assms(2) by (simp add: mzHashSize_def)
  then have c: "unat c = mzHashSize n"
    unfolding c_def by (simp add: unsigned_of_nat take_bit_nat_eq_self)
  have bounds: "1 \<le> unat c" "unat c \<le> 2 ^ 30"
    unfolding c using assms(2) by (simp_all add: mzHashSize_def)
  have "2 * unat c < 2 ^ 28" unfolding c using assms(2) by (simp add: mzHashSize_def)
  then have ht: "table_ok ?key computeHash ht" "table_map ?key ht = (\<lambda>_. None)"
    "tableSize ht < 2 ^ 28" "numEntries ht = 0" "numDeadEntries ht = 0"
    using mzHashTableCreate_ok [OF bounds, of False ?key computeHash] assms(3)
    unfolding c_def [symmetric] by force+
  from zip_table.run_refines [OF ht(1,3), of "map Add [0..<n]"] ht(2,4,5) assms(2)
  obtain t' where t': "table_run ?key computeHash (\<lambda>d i. hashcmpZipEntry (es ! d) (es ! i))
      (map Add [0..<n]) ht = Some (fst (map_run ?key (map Add [0..<n]) (\<lambda>_. None)), t')"
    "table_ok ?key computeHash t'"
    "table_map ?key t' = snd (map_run ?key (map Add [0..<n]) (\<lambda>_. None))"
    "tableSize t' < 2 ^ 28"
    by auto
  have "table_map ?key t' = (\<lambda>q. find (\<lambda>i. ?key i = q) [0..<n])"
    unfolding t'(3) by (rule ext) (simp only: map_run_adds option.case)
  with t' show ?thesis by (simp add: add_entries_run)
qed

section \<open>The whole archive\<close>

text \<open>
  \<open>ar\<close> is an archive over the directory records \<open>ds\<close>: the same entries, sorted by name, with
  valid names, and a table that maps every name to the first entry that has it.
\<close>

definition archive_of :: "ZipEntry list \<Rightarrow> ZipArchive \<Rightarrow> bool" where
  "archive_of ds ar \<longleftrightarrow> mset (zipEntries ar) = mset ds \<and> sorted (names (zipEntries ar))
     \<and> (\<forall>e \<in> set (zipEntries ar). validFilename (fileName e))
     \<and> table_ok (\<lambda>i. fileName (zipEntries ar ! i)) computeHash (pHash ar)
     \<and> tableSize (pHash ar) < 2 ^ 28
     \<and> table_map (\<lambda>i. fileName (zipEntries ar ! i)) (pHash ar)
       = (\<lambda>q. find (\<lambda>i. fileName (zipEntries ar ! i) = q) [0..<length (zipEntries ar)])"

lemma parseZipArchive_spec:
  assumes "get4LE (mem pMap) 0 = Some LOCSIG"
    and "find_eocd (mem pMap) (length (mem pMap) + 1 - 22) = Some (Some p)"
    and "get2LE (mem pMap) (p + 8) = Some n" "get4LE (mem pMap) (p + 16) = Some cd"
    and "n \<noteq> 0" "unat cd < length (mem pMap)"
  shows "case directory lib pMap (unat n) (unat cd) of
      None \<Rightarrow> parseZipArchive lib pMap = None
    | Some (Inl err) \<Rightarrow> parseZipArchive lib pMap = Some (Inl err)
    | Some (Inr ds) \<Rightarrow> \<exists>ar. parseZipArchive lib pMap = Some (Inr ar) \<and> archive_of ds ar"
proof -
  define k where "k = unat n"
  have k: "0 < k" "k < 2 ^ 16"
    using assms(5) unsigned_less [of n, where 'a = nat] by (auto simp: k_def unat_gt_0)
  define c :: "32 word" where "c = word_of_nat (mzHashSize k)"
  have "mzHashSize k < 2 ^ 32" using k(2) by (simp add: mzHashSize_def)
  then have c: "unat c = mzHashSize k"
    unfolding c_def by (simp add: unsigned_of_nat take_bit_nat_eq_self)
  have bounds: "1 \<le> unat c" "unat c \<le> 2 ^ 30"
    unfolding c using k(2) by (simp_all add: mzHashSize_def)
  obtain ht :: "nat HashTable" where ht: "mzHashTableCreate c False = Some ht"
    by (rule mzHashTableCreate_ok [OF bounds, of False "\<lambda>i. i" "\<lambda>_. 0"])
  have parse: "parseZipArchive lib pMap = do {
      r \<leftarrow> parse_entries lib pMap k 0 (unat cd) (replicate k zero_entry);
      (case r of Inl e \<Rightarrow> Some (Inl e)
       | Inr es \<Rightarrow> do { ht \<leftarrow> add_entries es [0..<k] ht;
                        Some (Inr \<lparr>zipEntries = es, pHash = ht\<rparr>) }) }"
    using assms ht unfolding k_def c_def by (simp add: parseZipArchive_def LOCSIG_def ENDSIG_def)
  have "prefix_ok 0 (replicate k zero_entry)" by (simp add: prefix_ok_def)
  note spec = parse_entries_spec [OF this, of k lib pMap "unat cd"]
  show ?thesis
  proof (cases "directory lib pMap k (unat cd)")
    case None
    with spec show ?thesis by (simp add: parse k_def)
  next
    case (Some d)
    show ?thesis
    proof (cases d)
      case (Inl err)
      with Some spec show ?thesis by (simp add: parse k_def)
    next
      case (Inr ds)
      with Some spec obtain es where es: "parse_entries lib pMap k 0 (unat cd) (replicate k zero_entry)
          = Some (Inr es)" "length es = k" "prefix_ok k es" "mset es = mset ds" by auto
      from add_entries_spec [OF k, of ht es] ht obtain ht' where "add_entries es [0..<k] ht = Some ht'"
        "table_ok (\<lambda>i. fileName (es ! i)) computeHash ht'" "tableSize ht' < 2 ^ 28"
        "table_map (\<lambda>i. fileName (es ! i)) ht' = (\<lambda>q. find (\<lambda>i. fileName (es ! i) = q) [0..<k])"
        by (auto simp: c_def)
      with es Some Inr show ?thesis
        by (auto simp: parse archive_of_def prefix_ok_def simp flip: k_def)
    qed
  qed
qed

text \<open>The scan of a file of at least 22 bytes either fails early or reaches the directory.\<close>

lemma mzOpenZipArchive_cases:
  assumes "22 \<le> length (mem pMap)"
  obtains "mzOpenZipArchive lib pMap = Some None"
  | p n cd where "get4LE (mem pMap) 0 = Some LOCSIG"
      "find_eocd (mem pMap) (length (mem pMap) + 1 - 22) = Some (Some p)"
      "get4LE (mem pMap) p = Some ENDSIG"
      "get2LE (mem pMap) (p + 8) = Some n" "get4LE (mem pMap) (p + 16) = Some cd"
      "n \<noteq> 0" "unat cd < length (mem pMap)"
proof -
  let ?m = "mem pMap"
  obtain v where v: "get4LE ?m 0 = Some v" using assms get_inside(2) [of 0 ?m] by auto
  obtain r where r: "find_eocd ?m (length ?m + 1 - 22) = Some r"
    "\<forall>p. r = Some p \<longrightarrow> p < length ?m + 1 - 22 \<and> get4LE ?m p = Some ENDSIG"
    using find_eocd_spec [of "length ?m + 1 - 22" ?m] assms by auto
  have early: "mzOpenZipArchive lib pMap = Some None" if "v \<noteq> LOCSIG \<or> r = None"
    using assms v r(1) that by (auto simp: mzOpenZipArchive_def parseZipArchive_def Let_def LOCSIG_def ENDSIG_def)
  show thesis
  proof (cases "v = LOCSIG \<and> r \<noteq> None")
    case False
    with early that(1) show thesis by blast
  next
    case True
    then obtain p where p: "r = Some p" by auto
    with r(2) assms have "p + 22 \<le> length ?m" by auto
    then obtain n cd where n: "get2LE ?m (p + 8) = Some n" "get4LE ?m (p + 16) = Some cd"
      using get_inside(1) [of "p + 8" ?m] get_inside(2) [of "p + 16" ?m] by auto
    show thesis
    proof (cases "n \<noteq> 0 \<and> unat cd < length ?m")
      case True
      with that(2) \<open>v = LOCSIG \<and> r \<noteq> None\<close> v r p n show thesis by blast
    next
      case False
      with v r(1) p n assms True have "mzOpenZipArchive lib pMap = Some None"
        by (auto simp: mzOpenZipArchive_def parseZipArchive_def Let_def LOCSIG_def ENDSIG_def)
      with that(1) show thesis .
    qed
  qed
qed

lemma opened_archive:
  assumes "mzOpenZipArchive lib pMap = Some (Some ar)"
  obtains p n cd ds where "get4LE (mem pMap) p = Some ENDSIG" "get2LE (mem pMap) (p + 8) = Some n"
    "get4LE (mem pMap) (p + 16) = Some cd"
    "directory lib pMap (unat n) (unat cd) = Some (Inr ds)" "archive_of ds ar"
proof -
  have len: "22 \<le> length (mem pMap)" using assms by (auto simp: mzOpenZipArchive_def split: if_splits)
  then show thesis
  proof (cases rule: mzOpenZipArchive_cases [of pMap lib])
    case 1
    with assms show thesis by simp
  next
    case (2 p n cd)
    from parseZipArchive_spec [OF 2(1,2,4-7), of lib] assms len obtain ds where
      "directory lib pMap (unat n) (unat cd) = Some (Inr ds)" "archive_of ds ar"
      by (auto simp: mzOpenZipArchive_def split: option.splits sum.splits bind_splits)
    with 2 that show thesis by blast
  qed
qed

section \<open>Properties\<close>

lemma mzOpenZipArchive_opens:
  assumes "safe_iop_ok lib" "map_fits pMap" "no_wrap pMap"
  shows "\<exists>r. mzOpenZipArchive lib pMap = Some r"
proof (cases "22 \<le> length (mem pMap)")
  case False
  then show ?thesis by (simp add: mzOpenZipArchive_def)
next
  case True
  then show ?thesis
  proof (cases rule: mzOpenZipArchive_cases [of pMap lib])
    case (2 p n cd)
    from directory_defined [OF assms, of "unat n" "unat cd"] obtain d where "directory lib pMap (unat n) (unat cd) = Some d" by auto
    with parseZipArchive_spec [OF 2(1,2,4-7), of lib] show ?thesis
      using True by (cases d) (auto simp: mzOpenZipArchive_def)
  qed blast
qed


text \<open>
  C17. An opened archive is its central directory: when the file is accepted, its entries are
  exactly the records of the directory the end record points to, read one after the other, sorted
  by name, and every name is printable ASCII and shorter than a path.
\<close>

theorem mzOpenZipArchive_entries:
  assumes "mzOpenZipArchive lib pMap = Some (Some ar)"
  shows "\<exists>p n cd ds. get4LE (mem pMap) p = Some ENDSIG \<and> get2LE (mem pMap) (p + 8) = Some n
    \<and> get4LE (mem pMap) (p + 16) = Some cd
    \<and> directory lib pMap (unat n) (unat cd) = Some (Inr ds)
    \<and> mset (zipEntries ar) = mset ds \<and> sorted (map fileName (zipEntries ar))
    \<and> (\<forall>e \<in> set (zipEntries ar). validFilename (fileName e))"
  by (rule opened_archive [OF assms]) (auto simp: archive_of_def)

lemma mzFindZipEntry_finds:
  assumes "mzOpenZipArchive lib pMap = Some (Some ar)"
  shows "\<exists>r ht. mzFindZipEntry ar name = Some (r, ht)
    \<and> (case r of None \<Rightarrow> name \<notin> fileName ` set (zipEntries ar)
       | Some i \<Rightarrow> i < length (zipEntries ar) \<and> fileName (zipEntries ar ! i) = name
           \<and> (\<forall>j < i. fileName (zipEntries ar ! j) \<noteq> name))"
proof -
  let ?key = "\<lambda>i. fileName (zipEntries ar ! i)"
  obtain ds where ar: "archive_of ds ar" by (rule opened_archive [OF assms])
  then have "table_ok ?key computeHash (pHash ar)" "tableSize (pHash ar) < 2 ^ 28"
    "table_map ?key (pHash ar) = (\<lambda>q. find (\<lambda>i. ?key i = q) [0..<length (zipEntries ar)])"
    by (auto simp: archive_of_def)
  from mzHashTableLookup_refines [OF this(1,2), of "\<lambda>d. hashcmpZipName (zipEntries ar ! d) name" name
      False 0] this(3)
  obtain ht where "mzFindZipEntry ar name
      = Some (find (\<lambda>i. ?key i = name) [0..<length (zipEntries ar)], ht)"
    by (auto simp: mzFindZipEntry_def hashcmpZipName_eq_0 split: option.splits)
  then show ?thesis
    by (auto simp: find_None_iff find_Some_iff in_set_conv_nth image_iff split: option.splits)
qed

text \<open>
  C18. Lookup by name: on an opened archive \<open>mzFindZipEntry\<close> returns an entry with the name asked
  for when there is one, the first of them in the sorted array, and NULL exactly when there is
  none.
\<close>

theorem mzFindZipEntry_correct:
  assumes "mzOpenZipArchive lib pMap = Some (Some ar)"
  shows "\<exists>r ht. mzFindZipEntry ar name = Some (r, ht)
    \<and> (case r of None \<Rightarrow> name \<notin> fileName ` set (zipEntries ar)
       | Some i \<Rightarrow> i < length (zipEntries ar) \<and> fileName (zipEntries ar ! i) = name
           \<and> (\<forall>j < i. fileName (zipEntries ar ! j) \<noteq> name))"
  by (rule mzFindZipEntry_finds [OF assms])

lemma entry_fields_Inr:
  assumes "entry_fields lib pMap ptr name off = Some (Inr e)"
  obtains hdr and n x :: "16 word" where "safe_add_u lib (addr pMap) off = Some hdr"
    "\<not> hdr + 30 > addr pMap + word_of_nat (length (mem pMap))"
    "offset e = off + 30 + ucast n + ucast x"
    "\<not> offset e + compLen e > word_of_nat (length (mem pMap))"
  using assms by (auto simp: entry_fields_def Let_def split: bind_splits if_splits option.splits)

lemma unat_plus_no_wrap:
  "unat (a :: 32 word) + unat b < 2 ^ 32 \<Longrightarrow> unat (a + b) = unat a + unat b"
  by (subst unat_plus_if') simp

lemma unat_ucast16: "unat (ucast (n :: 16 word) :: 32 word) = unat n" "unat n < 2 ^ 16"
  using unsigned_less [of n, where 'a = nat] by (simp_all add: unsigned_ucast_eq take_bit_nat_eq_self)

lemma entry_fields_extent:
  assumes "safe_iop_ok lib" "map_fits pMap" "no_wrap pMap" "length (mem pMap) < 2 ^ 31 - 2 ^ 18"
    and "ptr + 46 \<le> length (mem pMap)" "get4LE (mem pMap) (ptr + 42) = Some off"
    and "entry_fields lib pMap ptr name off = Some (Inr e)" "unat (compLen e) < 2 ^ 31"
  shows "unat (offset e) + unat (compLen e) \<le> length (mem pMap)"
proof -
  let ?len = "length (mem pMap)"
  obtain hdr and n x :: "16 word" where f: "safe_add_u lib (addr pMap) off = Some hdr"
    "\<not> hdr + 30 > addr pMap + word_of_nat ?len"
    "offset e = off + 30 + ucast n + ucast x"
    "\<not> offset e + compLen e > word_of_nat ?len"
    by (rule entry_fields_Inr [OF assms(7)])
  from f(1) assms(1) have hdr: "hdr = addr pMap + off" "uint (addr pMap) + uint off < 2 ^ 32"
    by (auto simp: safe_iop_ok_def split: if_splits)
  with assms(3,5,6) have "uint (addr pMap) + uint off + 30 < 2 ^ 32"
    by (fastforce simp: no_wrap_def list_all_iff split: option.splits)
  with hdr f(2) assms(2) have inside: "unat off + 30 \<le> ?len"
    using local_header_inside by (simp add: map_fits_def)
  have 30: "unat (off + 30) = unat off + 30"
    using unat_plus_no_wrap [of off 30] inside assms(4) by simp
  have n: "unat (off + 30 + ucast n) = unat off + 30 + unat n"
    using unat_plus_no_wrap [of "off + 30" "ucast n"] inside assms(4) 30 unat_ucast16 [of n] by simp
  have "unat (offset e) = unat off + 30 + unat n + unat x"
    unfolding f(3)
    using unat_plus_no_wrap [of "off + 30 + ucast n" "ucast x"] inside assms(4) n unat_ucast16 [of n]
      unat_ucast16 [of x] by simp
  then have "unat (offset e) < 2 ^ 31"
    using inside assms(4) unat_ucast16 [of n] unat_ucast16 [of x] by simp
  then have "unat (offset e + compLen e) = unat (offset e) + unat (compLen e)"
    using assms(8) by (intro unat_plus_no_wrap) simp
  moreover have "unat (word_of_nat ?len :: 32 word) = ?len"
    using assms(4) by (simp add: unsigned_of_nat take_bit_nat_eq_self)
  ultimately show ?thesis using f(4) by (simp add: word_less_nat_alt)
qed

lemma read_entry_extent:
  assumes "safe_iop_ok lib" "map_fits pMap" "no_wrap pMap" "length (mem pMap) < 2 ^ 31 - 2 ^ 18"
    and "read_entry lib pMap ptr = Some (Inr (e, nx))" "unat (compLen e) < 2 ^ 31"
  shows "unat (offset e) + unat (compLen e) \<le> length (mem pMap)"
proof -
  from assms(5) obtain name off where h: "entry_header pMap ptr = Some (Inr (name, off, nx))"
    and f: "entry_fields lib pMap ptr name off = Some (Inr e)"
    by (auto simp: read_entry_def split: bind_splits sum.splits)
  show ?thesis by (rule entry_fields_extent [OF assms(1-4) entry_header_inside [OF h] f assms(6)])
qed

lemma directory_extents:
  assumes "safe_iop_ok lib" "map_fits pMap" "no_wrap pMap" "length (mem pMap) < 2 ^ 31 - 2 ^ 18"
    and "directory lib pMap n ptr = Some (Inr ds)" "e \<in> set ds" "unat (compLen e) < 2 ^ 31"
  shows "unat (offset e) + unat (compLen e) \<le> length (mem pMap)"
  using assms(5,6)
proof (induction n arbitrary: ptr ds)
  case (Suc n)
  then obtain d nx rest where r: "read_entry lib pMap ptr = Some (Inr (d, nx))"
    "directory lib pMap n nx = Some (Inr rest)" "ds = d # rest"
    by (auto split: bind_splits sum.splits)
  show ?case
  proof (cases "e = d")
    case True
    with read_entry_extent [OF assms(1-4) r(1)] assms(7) show ?thesis by simp
  next
    case False
    with Suc.IH [OF r(2)] Suc.prems(2) r(3) show ?thesis by simp
  qed
qed simp

text \<open>
  C38. Data extents: in an opened archive of less than \<open>2 ^ 31 - 2 ^ 18\<close> bytes the compressed data
  of every entry whose length is not negative as a \<open>long\<close> lies inside the file.
\<close>

theorem entry_data_inside:
  assumes "safe_iop_ok lib" "map_fits pMap" "no_wrap pMap" "length (mem pMap) < 2 ^ 31 - 2 ^ 18"
    and "mzOpenZipArchive lib pMap = Some (Some ar)" "e \<in> set (zipEntries ar)"
    and "unat (compLen e) < 2 ^ 31"
  shows "unat (offset e) + unat (compLen e) \<le> length (mem pMap)"
proof -
  obtain n cd ds where "directory lib pMap n cd = Some (Inr ds)" "archive_of ds ar"
    by (rule opened_archive [OF assms(5)]) blast
  moreover from this(2) have "set (zipEntries ar) = set ds"
    by (metis archive_of_def mset_eq_setD)
  ultimately show ?thesis using directory_extents [OF assms(1-4)] assms(6,7) by blast
qed

section \<open>A concrete archive\<close>

text \<open>
  A local record at offset 0 (name \<open>a\<close>, one byte of stored data), directory records for the
  names \<open>b\<close> and \<open>a\<close> in this order, both on that local record, and the end record.
\<close>

definition demo_zip :: "byte list" where
  "demo_zip =
    [80, 75, 3, 4, 0, 0, 0, 0, 0, 0, 0, 0, 0, 0, 0, 0, 0, 0, 0, 0, 0, 0, 0, 0, 0, 0, 1, 0, 0, 0,
    97, 120, 80, 75, 1, 2, 20, 3, 20, 0, 0, 0, 0, 0, 0, 0, 0, 0, 0, 0, 0, 0, 1, 0, 0, 0, 1, 0,
    0, 0, 1, 0, 0, 0, 0, 0, 0, 0, 0, 0, 0, 0, 0, 0, 0, 0, 0, 0, 98, 80, 75, 1, 2, 20, 3, 20, 0,
    0, 0, 0, 0, 0, 0, 0, 0, 0, 0, 0, 0, 1, 0, 0, 0, 1, 0, 0, 0, 1, 0, 0, 0, 0, 0, 0, 0, 0, 0,
    0, 0, 0, 0, 0, 0, 0, 0, 97, 80, 75, 5, 6, 0, 0, 0, 0, 2, 0, 2, 0, 94, 0, 0, 0, 32, 0, 0, 0,
    0, 0]"

definition demo_lib :: safe_iop where
  "demo_lib = \<lparr>safe_add_u = (\<lambda>a b. if uint a + uint b < 2 ^ 32 then Some (a + b) else None),
     safe_add_s = (\<lambda>a b. sint (a + b) = sint a + sint b)\<rparr>"

definition demo_map :: MemMapping where
  "demo_map = \<lparr>addr = 0x40000000, mem = demo_zip\<rparr>"

lemma demo_lib_ok: "safe_iop_ok demo_lib"
  by (simp add: safe_iop_ok_def demo_lib_def)

lemma demo_map_fits: "map_fits demo_map" by code_simp

lemma demo_no_wrap: "no_wrap demo_map" by code_simp

lemma map_result_Inr:
  "map_option (map_sum id f) x = Some (Inr y) \<Longrightarrow> \<exists>z. x = Some (Inr z) \<and> f z = y"
  by (cases x; auto simp: map_sum_def split: sum.splits)

lemma demo_scan:
  "get4LE demo_zip 0 = Some LOCSIG" "find_eocd demo_zip (length demo_zip + 1 - 22) = Some (Some 126)"
  "get2LE demo_zip (126 + 8) = Some 2" "get4LE demo_zip (126 + 16) = Some 32"
  "length demo_zip = 148"
  by code_simp+

lemma demo_directory:
  "map_option (map_sum id (map (\<lambda>e. (fileName e, compLen e, offset e)))) (directory demo_lib demo_map 2 32)
   = Some (Inr [([0x62], 1, 31), ([0x61], 1, 31)])"
  by code_simp

text \<open>What is opened when the directory has been read: the scan of a variant of the demo file.\<close>

lemma open_from_directory:
  assumes "mem pMap = m" "get4LE m 0 = Some LOCSIG"
    and "find_eocd m (length m + 1 - 22) = Some (Some p)"
    and "get2LE m (p + 8) = Some n" "get4LE m (p + 16) = Some cd"
    and "n \<noteq> 0" "unat cd < length m" "22 \<le> length m" "directory lib pMap (unat n) (unat cd) = Some (Inr ds)"
  obtains ar where "mzOpenZipArchive lib pMap = Some (Some ar)" "set (zipEntries ar) = set ds"
    "names (zipEntries ar) = sort (names ds)"
proof -
  from parseZipArchive_spec [of pMap p n cd lib] assms obtain ar where
    ar: "parseZipArchive lib pMap = Some (Inr ar)" "archive_of ds ar" by auto
  then have ms: "mset (names (zipEntries ar)) = mset (names ds)" "set (zipEntries ar) = set ds"
    by (auto simp: archive_of_def dest: mset_eq_setD)
  have "sort (names ds) = names (zipEntries ar)"
    by (rule properties_for_sort) (use ms ar(2) in \<open>simp_all add: archive_of_def\<close>)
  with ms(2) show thesis using ar(1) assms(1,8) that by (simp add: mzOpenZipArchive_def)
qed

lemma demo_open:
  obtains ar where "mzOpenZipArchive demo_lib demo_map = Some (Some ar)"
    "names (zipEntries ar) = [[0x61], [0x62]]" "\<forall>e \<in> set (zipEntries ar). compLen e = 1"
proof -
  from map_result_Inr [OF demo_directory] obtain ds where
    "directory demo_lib demo_map 2 32 = Some (Inr ds)
     \<and> map (\<lambda>e. (fileName e, compLen e, offset e)) ds = [([0x62], 1, 31), ([0x61], 1, 31)]" ..
  note ds = this [THEN conjunct1] this [THEN conjunct2]
  from ds(2) obtain e1 e2 where e: "ds = [e1, e2]" "fileName e1 = [0x62]" "fileName e2 = [0x61]"
    "compLen e1 = 1" "compLen e2 = 1" by (auto simp: map_eq_Cons_conv)
  have "unat (2 :: 16 word) = 2" "unat (32 :: 32 word) = 32" by simp_all
  with ds(1) have d: "directory demo_lib demo_map (unat (2 :: 16 word)) (unat (32 :: 32 word)) = Some (Inr ds)"
    by simp
  obtain ar where "mzOpenZipArchive demo_lib demo_map = Some (Some ar)" "set (zipEntries ar) = set ds"
    "names (zipEntries ar) = sort (names ds)"
    by (rule open_from_directory [OF _ demo_scan(1-4) _ _ _ d]) (simp_all add: demo_map_def demo_scan(5))
  with that e show thesis by simp
qed


theorem mzOpenZipArchive_entries_witness:
  "\<exists>ar p. mzOpenZipArchive demo_lib demo_map = Some (Some ar)
    \<and> get4LE (mem demo_map) p = Some ENDSIG \<and> sorted (names (zipEntries ar))"
proof -
  obtain ar where ar: "mzOpenZipArchive demo_lib demo_map = Some (Some ar)" by (rule demo_open)
  with mzOpenZipArchive_entries [OF ar] show ?thesis by blast
qed

theorem mzFindZipEntry_correct_witness:
  "\<exists>ar r ht. mzOpenZipArchive demo_lib demo_map = Some (Some ar)
    \<and> mzFindZipEntry ar [0x62] = Some (r, ht) \<and> r \<noteq> None"
proof -
  obtain ar where ar: "mzOpenZipArchive demo_lib demo_map = Some (Some ar)"
    "names (zipEntries ar) = [[0x61], [0x62]]" by (rule demo_open)
  have "fileName ` set (zipEntries ar) = {[0x61], [0x62]}" using arg_cong [OF ar(2), of set] by simp
  then have "[0x62] \<in> fileName ` set (zipEntries ar)" by simp
  with mzFindZipEntry_correct [OF ar(1), of "[0x62]"] ar(1) show ?thesis
    by (metis (no_types, lifting) option.simps(4))
qed

theorem entry_data_inside_witness:
  "\<exists>ar. mzOpenZipArchive demo_lib demo_map = Some (Some ar)
    \<and> (\<forall>e \<in> set (zipEntries ar). unat (offset e) + unat (compLen e) \<le> length (mem demo_map))"
proof -
  obtain ar where ar: "mzOpenZipArchive demo_lib demo_map = Some (Some ar)"
    "\<forall>e \<in> set (zipEntries ar). compLen e = 1" by (rule demo_open)
  have "length (mem demo_map) < 2 ^ 31 - 2 ^ 18" by (simp add: demo_map_def demo_scan(5))
  note inside = entry_data_inside [OF demo_lib_ok demo_map_fits demo_no_wrap this ar(1)]
  have "unat (1 :: 32 word) < 2 ^ 31" by simp
  with inside ar show ?thesis by metis
qed

text \<open>
  Lengths with the top bit set escape the check of \<open>parseZipArchive\<close>: as a \<open>long\<close> they are
  negative, \<open>safe_add\<close> finds no overflow, and the sum wraps around to a small size.
\<close>

definition hostile_zip :: "byte list" where
  "hostile_zip = take 52 demo_zip @ [255, 255, 255, 255] @ drop 56 demo_zip"

definition hostile_map :: MemMapping where
  "hostile_map = \<lparr>addr = 0x40000000, mem = hostile_zip\<rparr>"

lemma hostile_scan:
  "get4LE hostile_zip 0 = Some LOCSIG"
  "find_eocd hostile_zip (length hostile_zip + 1 - 22) = Some (Some 126)"
  "get2LE hostile_zip (126 + 8) = Some 2" "get4LE hostile_zip (126 + 16) = Some 32"
  "length hostile_zip = 148"
  by code_simp+

lemma hostile_directory:
  "map_option (map_sum id (map compLen)) (directory demo_lib hostile_map 2 32)
   = Some (Inr [0xffffffff, 1])"
  by code_simp

lemma negative_length_accepted:
  "\<exists>ar. mzOpenZipArchive demo_lib hostile_map = Some (Some ar)
    \<and> (\<exists>e \<in> set (zipEntries ar). compLen e = 0xffffffff)"
proof -
  from map_result_Inr [OF hostile_directory] obtain ds where
    "directory demo_lib hostile_map 2 32 = Some (Inr ds) \<and> map compLen ds = [0xffffffff, 1]" ..
  note ds = this [THEN conjunct1] this [THEN conjunct2]
  have "unat (2 :: 16 word) = 2" "unat (32 :: 32 word) = 32" by simp_all
  with ds(1) have d: "directory demo_lib hostile_map (unat (2 :: 16 word)) (unat (32 :: 32 word)) = Some (Inr ds)"
    by simp
  obtain ar where "mzOpenZipArchive demo_lib hostile_map = Some (Some ar)" "set (zipEntries ar) = set ds"
    by (rule open_from_directory [OF _ hostile_scan(1-4) _ _ _ d])
       (simp_all add: hostile_map_def hostile_scan(5))
  moreover have "0xffffffff \<in> set (map compLen ds)" by (simp add: ds(2))
  ultimately show ?thesis by auto
qed

end
