(* ===== verification/BsPatch.thy ===== *)
theory BsPatch
  imports Bits
begin

text \<open>
  \<open>applypatch/bspatch.c\<close>: applying a binary patch in the BSDIFF40 format, and the offset
  encoding it shares with \<open>applypatch/bsdiff.c\<close>.

  The bzip2 library is not part of the repository.  It is the parameter \<open>lib\<close>: opening a
  stream on a window of the patch, one call of \<open>BZ2_bzDecompress\<close> with some room for output, and
  the compressor of the diff side.  \<open>bz2_ok\<close> states what the code relies on.  Offsets
  (\<open>off_t\<close>) are integers; they come from fields of 63 bits and a sign.  A negative size given to
  \<open>FillBuffer\<close> becomes a huge unsigned one and overruns the output buffer; a window that ends
  behind the patch lets the library read outside it: both are undefined here.  A stream that
  stops delivering makes \<open>FillBuffer\<close> loop for ever, which is the same \<open>None\<close>.
\<close>

section \<open>Offsets\<close>

definition offtin :: "byte list \<Rightarrow> nat \<Rightarrow> int ub" where
  "offtin m p = do {
     b7 \<leftarrow> array_get m (p + 7);
     b6 \<leftarrow> array_get m (p + 6);
     b5 \<leftarrow> array_get m (p + 5);
     b4 \<leftarrow> array_get m (p + 4);
     b3 \<leftarrow> array_get m (p + 3);
     b2 \<leftarrow> array_get m (p + 2);
     b1 \<leftarrow> array_get m (p + 1);
     b0 \<leftarrow> array_get m p;
     let y = uint (b7 AND 0x7F);
     let y = y * 256 + uint b6;
     let y = y * 256 + uint b5;
     let y = y * 256 + uint b4;
     let y = y * 256 + uint b3;
     let y = y * 256 + uint b2;
     let y = y * 256 + uint b1;
     let y = y * 256 + uint b0;
     Some (if b7 AND 0x80 \<noteq> 0 then - y else y)
   }"

text \<open>In \<open>offtout\<close> each byte is stored, subtracted from the value, and the value divided.\<close>

definition shift_digit :: "int \<Rightarrow> int" where
  "shift_digit y = (y - y mod 256) div 256"

definition offtout :: "int \<Rightarrow> byte list" where
  "offtout x =
    (let y0 = (if x < 0 then - x else x);
         y1 = shift_digit y0;
         y2 = shift_digit y1;
         y3 = shift_digit y2;
         y4 = shift_digit y3;
         y5 = shift_digit y4;
         y6 = shift_digit y5;
         y7 = shift_digit y6;
         b7 = word_of_int (y7 mod 256)
     in [word_of_int (y0 mod 256), word_of_int (y1 mod 256), word_of_int (y2 mod 256),
         word_of_int (y3 mod 256), word_of_int (y4 mod 256), word_of_int (y5 mod 256),
         word_of_int (y6 mod 256), (if x < 0 then b7 OR 0x80 else b7)])"

section \<open>The compression library\<close>

record 's bz2 =
  bz_init :: "byte list \<Rightarrow> 's"
  bz_decompress :: "'s \<Rightarrow> nat \<Rightarrow> int \<times> byte list \<times> 's"
  bz_compress :: "byte list \<Rightarrow> byte list"

definition BZ_OK :: int where "BZ_OK = 0"
definition BZ_STREAM_END :: int where "BZ_STREAM_END = 4"

text \<open>
  The documented behaviour: \<open>rest s\<close> is what a stream still has to deliver.  A stream opened on
  compressed data delivers that data whatever follows the compressed bytes; as long as data
  remains a call succeeds, delivers some of it and not more than there is room for.
\<close>

definition bz2_ok :: "'s bz2 \<Rightarrow> ('s \<Rightarrow> byte list) \<Rightarrow> bool" where
  "bz2_ok lib rest \<longleftrightarrow>
     (\<forall>d tail. rest (bz_init lib (bz_compress lib d @ tail)) = d)
     \<and> (\<forall>s n err bs s'. 0 < n \<longrightarrow> rest s \<noteq> [] \<longrightarrow> bz_decompress lib s n = (err, bs, s') \<longrightarrow>
         (err = BZ_OK \<or> err = BZ_STREAM_END) \<and> bs \<noteq> [] \<and> length bs \<le> n \<and> rest s = bs @ rest s')"

section \<open>\<open>bspatch.c\<close>\<close>

text \<open>\<open>FillBuffer\<close>: the loop on the room left; \<open>acc\<close> is the output so far.\<close>

partial_function (option) fill_loop ::
  "'s bz2 \<Rightarrow> nat \<Rightarrow> 's \<Rightarrow> byte list \<Rightarrow> (int \<times> byte list \<times> 's) ub"
where
  "fill_loop lib avail_out s acc =
     (if avail_out = 0 then Some (0, acc, s)
      else case bz_decompress lib s avail_out of
        (bzerr, bs, s) \<Rightarrow>
          if bzerr \<noteq> BZ_OK \<and> bzerr \<noteq> BZ_STREAM_END then Some (- 1, acc @ bs, s)
          else if length bs > avail_out then None
          else fill_loop lib (avail_out - length bs) s (acc @ bs))"

definition FillBuffer :: "'s bz2 \<Rightarrow> int \<Rightarrow> 's \<Rightarrow> (int \<times> byte list \<times> 's) ub" where
  "FillBuffer lib n s = (if n < 0 then None else fill_loop lib (nat n) s [])"

text \<open>The loop that adds the old data to the diff string; outside the old file nothing is added.\<close>

definition add_old :: "byte list \<Rightarrow> int \<Rightarrow> byte list \<Rightarrow> byte list" where
  "add_old old oldpos diff =
     map (\<lambda>i. if 0 \<le> oldpos + int i \<and> oldpos + int i < int (length old)
              then diff ! i + old ! nat (oldpos + int i) else diff ! i) [0..<length diff]"

text \<open>
  The main loop.  \<open>out\<close> is the part of \<open>new_data\<close> written so far, of length \<open>newpos\<close>; the result
  is the return value and the new data.
\<close>

partial_function (option) patch_loop ::
  "'s bz2 \<Rightarrow> byte list \<Rightarrow> int \<Rightarrow> int \<Rightarrow> byte list \<Rightarrow> 's \<Rightarrow> 's \<Rightarrow> 's \<Rightarrow> (int \<times> byte list) ub"
where
  "patch_loop lib old new_size oldpos out cstream dstream estream =
     (if int (length out) < new_size then do {
        (r, buf, cstream) \<leftarrow> FillBuffer lib 24 cstream;
        if r \<noteq> 0 then Some (1, out) else do {
        ctrl0 \<leftarrow> offtin buf 0;
        ctrl1 \<leftarrow> offtin buf 8;
        ctrl2 \<leftarrow> offtin buf 16;
        if int (length out) + ctrl0 > new_size then Some (1, out) else do {
        (r, diff, dstream) \<leftarrow> FillBuffer lib ctrl0 dstream;
        if r \<noteq> 0 then Some (1, out) else do {
        let out = out @ add_old old oldpos diff;
        let oldpos = oldpos + ctrl0;
        if int (length out) + ctrl1 > new_size then Some (1, out) else do {
        (r, extra, estream) \<leftarrow> FillBuffer lib ctrl1 estream;
        if r \<noteq> 0 then Some (1, out)
        else patch_loop lib old new_size (oldpos + ctrl2) (out @ extra) cstream dstream estream
        }}}}
      }
      else Some (0, out))"

definition bsdiff_magic :: "byte list" where
  "bsdiff_magic = [0x42, 0x53, 0x44, 0x49, 0x46, 0x46, 0x34, 0x30]"

text \<open>The window of the patch given to a stream.\<close>

definition window :: "byte list \<Rightarrow> int \<Rightarrow> int \<Rightarrow> byte list ub" where
  "window m p n =
     (if 0 \<le> p \<and> 0 \<le> n \<and> p + n \<le> int (length m) then Some (take (nat n) (drop (nat p) m)) else None)"

definition ApplyBSDiffPatchMem ::
  "'s bz2 \<Rightarrow> byte list \<Rightarrow> byte list \<Rightarrow> nat \<Rightarrow> (int \<times> byte list) ub" where
  "ApplyBSDiffPatchMem lib old patch patch_offset = do {
     magic \<leftarrow> bytes_at patch patch_offset 8;
     if magic \<noteq> bsdiff_magic then Some (1, []) else do {
     ctrl_len \<leftarrow> offtin patch (patch_offset + 8);
     data_len \<leftarrow> offtin patch (patch_offset + 16);
     new_size \<leftarrow> offtin patch (patch_offset + 24);
     if ctrl_len < 0 \<or> data_len < 0 \<or> new_size < 0 then Some (1, []) else do {
     let at = int patch_offset + 32;
     cin \<leftarrow> window patch at ctrl_len;
     din \<leftarrow> window patch (at + ctrl_len) data_len;
     ein \<leftarrow> window patch (at + ctrl_len + data_len)
              (int (length patch) - (at + ctrl_len + data_len));
     patch_loop lib old new_size 0 [] (bz_init lib cin) (bz_init lib din) (bz_init lib ein)
     }}
   }"

text \<open>
  \<open>ApplyBSDiffPatch\<close>: a sink consumes the new data and says how much of it it took; \<open>ctx\<close> is the
  SHA context of the caller, which accumulates what was written.
\<close>

definition ApplyBSDiffPatch ::
  "'s bz2 \<Rightarrow> byte list \<Rightarrow> byte list \<Rightarrow> nat \<Rightarrow> (byte list \<Rightarrow> 't \<Rightarrow> int \<times> 't) \<Rightarrow> 't \<Rightarrow> byte list
    \<Rightarrow> (int \<times> 't \<times> byte list) ub" where
  "ApplyBSDiffPatch lib old patch patch_offset sink token ctx = do {
     (r, new_data) \<leftarrow> ApplyBSDiffPatchMem lib old patch patch_offset;
     if r \<noteq> 0 then Some (- 1, token, ctx) else
     (let (n, token) = sink new_data token in
      if n < int (length new_data) then Some (1, token, ctx)
      else Some (0, token, ctx @ new_data))
   }"

section \<open>Round trip of the offsets\<close>

lemma byte_cases:
  assumes "list_all (\<lambda>n. P (word_of_nat n :: byte)) [0..<256]"
  shows "P w"
proof -
  have "unat w < 256" using unsigned_less [of w, where 'a = nat] by simp
  then have "unat w \<in> {0..<256}" by simp
  have "\<forall>n \<in> {0..<256}. P (word_of_nat n)" using assms by (simp only: list_all_iff set_upt)
  from this \<open>unat w \<in> {0..<256}\<close> have "P (word_of_nat (unat w))" by (rule bspec)
  then show ?thesis by simp
qed

lemma byte_sign:
  "uint (w AND 0x7F) = uint (w :: byte) mod 128 \<and> (w AND 0x80 \<noteq> 0 \<longleftrightarrow> 128 \<le> uint w)
   \<and> uint (w OR 0x80) = uint w mod 128 + 128"
  by (rule byte_cases [of _ w]) code_simp

lemma uint_low_byte: "uint (word_of_int (y mod 256) :: byte) = y mod 256"
  by (simp add: uint_word_of_int)

lemma shift_digit_div: "shift_digit y = y div 256"
  by (simp add: shift_digit_def minus_mod_eq_div_mult)

text \<open>A magnitude below \<open>2 ^ 63\<close> is the value of its digits.\<close>

lemma digits_value:
  fixes y :: int
  assumes "0 \<le> y" "y < 2 ^ 63"
  defines "d k \<equiv> (y div 256 ^ k) mod 256"
  shows "((((((d 7 * 256 + d 6) * 256 + d 5) * 256 + d 4) * 256 + d 3) * 256 + d 2) * 256 + d 1)
      * 256 + d 0 = y" "0 \<le> d 7" "d 7 < 128"
proof -
  have step: "y div 256 ^ Suc k * 256 + d k = y div 256 ^ k" for k
  proof -
    have "y div 256 ^ Suc k = y div 256 ^ k div 256"
      unfolding power_Suc2 by (rule zdiv_zmult2_eq) simp
    then show ?thesis by (simp add: d_def)
  qed
  have "y div 256 ^ 7 < 128" using assms(1,2) by (simp add: div_less_iff_less_mult)
  moreover have "0 \<le> y div 256 ^ 7" using assms(1) by simp
  ultimately have top: "d 7 = y div 256 ^ 7" by (simp add: d_def)
  with \<open>y div 256 ^ 7 < 128\<close> \<open>0 \<le> y div 256 ^ 7\<close> show "0 \<le> d 7" "d 7 < 128" by simp_all
  show "((((((d 7 * 256 + d 6) * 256 + d 5) * 256 + d 4) * 256 + d 3) * 256 + d 2) * 256 + d 1)
      * 256 + d 0 = y"
    using step [of 6] step [of 5] step [of 4] step [of 3] step [of 2] step [of 1] step [of 0] top
    by simp
qed

lemma offtout_digits:
  fixes x :: int
  defines "d k \<equiv> (\<bar>x\<bar> div 256 ^ k) mod 256"
  shows "offtout x = [word_of_int (d 0), word_of_int (d 1), word_of_int (d 2), word_of_int (d 3),
      word_of_int (d 4), word_of_int (d 5), word_of_int (d 6),
      (if x < 0 then word_of_int (d 7) OR 0x80 else word_of_int (d 7))]"
proof -
  have "shift_digit (y div 256 ^ k) = y div 256 ^ Suc k" for y k
    unfolding shift_digit_div power_Suc2 by (rule zdiv_zmult2_eq [symmetric]) simp
  note step = this [of "\<bar>x\<bar>"]
  note steps = step [of 0, simplified] step [of 1, simplified] step [of 2, simplified]
    step [of 3, simplified] step [of 4, simplified] step [of 5, simplified] step [of 6, simplified]
  show ?thesis
    unfolding offtout_def abs_if [symmetric] Let_def steps d_def by simp
qed

lemma length_offtout [simp]: "length (offtout x) = 8"
  by (simp add: offtout_def Let_def)

lemma offtin_offtout:
  assumes "\<bar>x\<bar> < 2 ^ 63"
  shows "offtin (pre @ offtout x @ post) (length pre) = Some x"
proof -
  define d where "d k = (\<bar>x\<bar> div 256 ^ k) mod 256" for k
  note val = digits_value [of "\<bar>x\<bar>", OF _ assms, folded d_def, simplified]
  define b7 :: byte where "b7 = (if x < 0 then word_of_int (d 7) OR 0x80 else word_of_int (d 7))"
  have out: "offtout x = [word_of_int (d 0), word_of_int (d 1), word_of_int (d 2), word_of_int (d 3),
      word_of_int (d 4), word_of_int (d 5), word_of_int (d 6), b7]"
    by (simp add: offtout_digits d_def b7_def)
  have low: "uint (word_of_int (d k) :: byte) = d k" for k
    unfolding d_def by (rule uint_low_byte)
  have "uint (b7 AND 0x7F) = d 7" "b7 AND 0x80 \<noteq> 0 \<longleftrightarrow> x < 0"
    using byte_sign [of b7] byte_sign [of "word_of_int (d 7)"] low [of 7] val(2,3)
    by (auto simp: b7_def split: if_splits)
  with val(1) show ?thesis
    unfolding out offtin_def by (simp add: array_get_def nth_append low Let_def)
qed

section \<open>What a patch means\<close>

text \<open>
  The reference: the new file that a list of control triples, a diff string and an extra string
  describe, starting at a position of the old file.
\<close>

fun replay :: "byte list \<Rightarrow> (int \<times> int \<times> int) list \<Rightarrow> byte list \<Rightarrow> byte list \<Rightarrow> int \<Rightarrow> byte list" where
  "replay old [] db eb pos = []"
| "replay old ((x, y, z) # cs) db eb pos =
     add_old old pos (take (nat x) db) @ take (nat y) eb
     @ replay old cs (drop (nat x) db) (drop (nat y) eb) (pos + x + z)"

definition encode_triple :: "int \<times> int \<times> int \<Rightarrow> byte list" where
  "encode_triple t = (case t of (x, y, z) \<Rightarrow> offtout x @ offtout y @ offtout z)"

text \<open>The triples use up exactly the two strings, and their numbers can be encoded.\<close>

fun triples_ok :: "(int \<times> int \<times> int) list \<Rightarrow> nat \<Rightarrow> nat \<Rightarrow> bool" where
  "triples_ok [] d e \<longleftrightarrow> d = 0 \<and> e = 0"
| "triples_ok ((x, y, z) # cs) d e \<longleftrightarrow> 0 \<le> x \<and> x \<le> int d \<and> 0 \<le> y \<and> y \<le> int e
     \<and> x < 2 ^ 63 \<and> y < 2 ^ 63 \<and> \<bar>z\<bar> < 2 ^ 63 \<and> triples_ok cs (d - nat x) (e - nat y)"

lemma length_add_old [simp]: "length (add_old old pos diff) = length diff"
  by (simp add: add_old_def)

lemma length_replay:
  "triples_ok cs (length db) (length eb) \<Longrightarrow> length (replay old cs db eb pos) = length db + length eb"
  by (induction old cs db eb pos rule: replay.induct) (auto simp: nat_le_iff min_def)

lemma fill_loop_rest:
  assumes "bz2_ok lib rest" "n \<le> length (rest s)"
  shows "\<exists>s'. fill_loop lib n s acc = Some (0, acc @ take n (rest s), s') \<and> rest s' = drop n (rest s)"
  using assms(2)
proof (induction n arbitrary: s acc rule: less_induct)
  case (less n)
  show ?case
  proof (cases "n = 0")
    case True
    then show ?thesis by (simp add: fill_loop.simps)
  next
    case False
    obtain err bs s1 where dec: "bz_decompress lib s n = (err, bs, s1)" by (cases "bz_decompress lib s n")
    moreover have "rest s \<noteq> []" using False less.prems by auto
    ultimately have spec: "err = BZ_OK \<or> err = BZ_STREAM_END" "bs \<noteq> []" "length bs \<le> n"
      "rest s = bs @ rest s1"
      using assms(1) False unfolding bz2_ok_def by blast+
    then have "n - length bs < n" "n - length bs \<le> length (rest s1)" using False less.prems by auto
    from less.IH [OF this] spec obtain s' where
      "fill_loop lib (n - length bs) s1 (acc @ bs) = Some (0, (acc @ bs) @ take (n - length bs) (rest s1), s')"
      "rest s' = drop (n - length bs) (rest s1)" by blast
    with spec dec False show ?thesis by (subst fill_loop.simps) auto
  qed
qed

lemma FillBuffer_rest:
  assumes "bz2_ok lib rest" "0 \<le> n" "nat n \<le> length (rest s)"
  obtains s' where "FillBuffer lib n s = Some (0, take (nat n) (rest s), s')"
    "rest s' = drop (nat n) (rest s)"
  using fill_loop_rest [OF assms(1,3), of "[]"] assms(2) by (auto simp: FillBuffer_def)

lemma decode_triple:
  assumes "\<bar>x\<bar> < 2 ^ 63" "\<bar>y\<bar> < 2 ^ 63" "\<bar>z\<bar> < 2 ^ 63"
  shows "offtin (encode_triple (x, y, z)) 0 = Some x" "offtin (encode_triple (x, y, z)) 8 = Some y"
    "offtin (encode_triple (x, y, z)) 16 = Some z"
  using offtin_offtout [OF assms(1), of "[]" "offtout y @ offtout z"]
    offtin_offtout [OF assms(2), of "offtout x" "offtout z"]
    offtin_offtout [OF assms(3), of "offtout x @ offtout y" "[]"]
  by (simp_all add: encode_triple_def)

lemma length_encode_triple: "length (encode_triple t) = 24"
  by (simp add: encode_triple_def split: prod.splits)

lemma patch_loop_replay:
  assumes "bz2_ok lib rest" "triples_ok cs (length db) (length eb)"
    and "rest c = concat (map encode_triple cs)" "rest d = db" "rest e = eb"
    and "new_size = int (length out + length db + length eb)"
  shows "patch_loop lib old new_size pos out c d e = Some (0, out @ replay old cs db eb pos)"
  using assms(2-)
proof (induction cs arbitrary: db eb pos out c d e)
  case Nil
  then show ?case by (simp add: patch_loop.simps)
next
  case (Cons t cs)
  obtain x y z where t: "t = (x, y, z)" by (cases t)
  show ?case
  proof (cases "int (length out) < new_size")
    case False
    with Cons.prems(5) have "length db + length eb \<le> 0" by linarith
    then have "db = []" "eb = []" by simp_all
    moreover have "length (replay old (t # cs) db eb pos) = length db + length eb"
      using Cons.prems(1) by (rule length_replay)
    ultimately have "replay old (t # cs) db eb pos = []" by simp
    with False show ?thesis by (simp add: patch_loop.simps)
  next
    case True
    from Cons.prems(1) have ok: "0 \<le> x" "nat x \<le> length db" "0 \<le> y" "nat y \<le> length eb" "\<bar>x\<bar> < 2 ^ 63"
      "\<bar>y\<bar> < 2 ^ 63" "\<bar>z\<bar> < 2 ^ 63" and cs: "triples_ok cs (length db - nat x) (length eb - nat y)"
      by (auto simp: t nat_le_iff)
    have "nat 24 \<le> length (rest c)" by (simp add: Cons.prems(2) length_encode_triple)
    then obtain c1 where c1: "FillBuffer lib 24 c = Some (0, encode_triple t, c1)"
      "rest c1 = concat (map encode_triple cs)"
      using FillBuffer_rest [OF assms(1), of 24 c] by (auto simp: Cons.prems(2) length_encode_triple)
    obtain d1 where d1: "FillBuffer lib x d = Some (0, take (nat x) db, d1)" "rest d1 = drop (nat x) db"
      using FillBuffer_rest [OF assms(1) ok(1)] ok(2) Cons.prems(3) by metis
    obtain e1 where e1: "FillBuffer lib y e = Some (0, take (nat y) eb, e1)" "rest e1 = drop (nat y) eb"
      using FillBuffer_rest [OF assms(1) ok(3)] ok(4) Cons.prems(4) by metis
    let ?out = "(out @ add_old old pos (take (nat x) db)) @ take (nat y) eb"
    have IH: "patch_loop lib old new_size (pos + x + z) ?out c1 d1 e1
        = Some (0, ?out @ replay old cs (drop (nat x) db) (drop (nat y) eb) (pos + x + z))"
      by (rule Cons.IH) (use cs c1 d1 e1 ok Cons.prems(5) in \<open>auto simp: min_def\<close>)
    have room: "int (length out) + x \<le> new_size" "int (length out) + x + y \<le> new_size"
      using ok Cons.prems(5) by auto
    have len: "int (length (out @ add_old old pos (take (nat x) db))) = int (length out) + x"
      using ok by (simp add: min_def)
    show ?thesis
      unfolding patch_loop.simps [of lib old new_size pos out]
      using True c1 d1 e1 IH decode_triple [OF ok(5-7)] room len
      by (simp add: t Let_def)
  qed
qed

text \<open>The file that a patch consists of, and applying it wherever it stands.\<close>

definition patch_file :: "'s bz2 \<Rightarrow> int \<Rightarrow> byte list \<Rightarrow> byte list \<Rightarrow> byte list \<Rightarrow> byte list" where
  "patch_file lib newsize ctrl db eb =
     bsdiff_magic @ offtout (int (length (bz_compress lib ctrl)))
     @ offtout (int (length (bz_compress lib db))) @ offtout newsize
     @ bz_compress lib ctrl @ bz_compress lib db @ bz_compress lib eb"

lemma ApplyBSDiffPatchMem_file:
  assumes "bz2_ok lib rest" "triples_ok cs (length db) (length eb)"
    and "int (length db + length eb) < 2 ^ 63"
    and "int (length (bz_compress lib (concat (map encode_triple cs)))) < 2 ^ 63"
    and "int (length (bz_compress lib db)) < 2 ^ 63"
  shows "ApplyBSDiffPatchMem lib old
      (pre @ patch_file lib (int (length db + length eb)) (concat (map encode_triple cs)) db eb @ post)
      (length pre)
    = Some (0, replay old cs db eb 0)"
proof -
  define ctrl where "ctrl = concat (map encode_triple cs)"
  define C D E where "C = bz_compress lib ctrl" and "D = bz_compress lib db" and "E = bz_compress lib eb"
  define n where "n = int (length db + length eb)"
  define P where "P = pre @ patch_file lib n ctrl db eb @ post"
  note bounds = assms(3-5) [folded ctrl_def, folded C_def D_def]
  have P: "P = pre @ bsdiff_magic @ offtout (int (length C)) @ offtout (int (length D)) @ offtout n
      @ C @ D @ E @ post"
    by (simp add: P_def patch_file_def C_def D_def E_def)
  have magic: "length bsdiff_magic = 8" by (simp add: bsdiff_magic_def)
  have "offtin P (length pre + 8) = Some (int (length C))"
    using offtin_offtout [of "int (length C)" "pre @ bsdiff_magic"] bounds(2) magic by (simp add: P)
  moreover have "offtin P (length pre + 16) = Some (int (length D))"
    using offtin_offtout [of "int (length D)" "pre @ bsdiff_magic @ offtout (int (length C))"] bounds(3) magic
    by (simp add: P)
  moreover have "offtin P (length pre + 24) = Some n"
    using offtin_offtout [of n "pre @ bsdiff_magic @ offtout (int (length C)) @ offtout (int (length D))"]
      bounds(1) magic by (simp add: P n_def)
  moreover have "bytes_at P (length pre) 8 = Some bsdiff_magic" using magic by (simp add: P bytes_at_def)
  moreover have "window P (int (length pre) + 32) (int (length C)) = Some C"
    "window P (int (length pre) + 32 + int (length C)) (int (length D)) = Some D"
    "window P (int (length pre) + 32 + int (length C) + int (length D))
       (int (length P) - (int (length pre) + 32 + int (length C) + int (length D))) = Some (E @ post)"
    using magic by (auto simp: P window_def nat_add_distrib nat_diff_distrib)
  moreover have "n \<ge> 0" by (simp add: n_def)
  moreover have "patch_loop lib old n 0 [] (bz_init lib C) (bz_init lib D) (bz_init lib (E @ post))
      = Some (0, [] @ replay old cs db eb 0)"
  proof (rule patch_loop_replay [OF assms(1,2)])
    have rest: "rest (bz_init lib (bz_compress lib x @ tail)) = x" for x tail
      using assms(1) by (simp add: bz2_ok_def)
    show "rest (bz_init lib C) = concat (map encode_triple cs)" "rest (bz_init lib D) = db"
      "rest (bz_init lib (E @ post)) = eb"
      using rest [of ctrl "[]"] rest [of db "[]"] rest [of eb post]
      by (simp_all add: C_def D_def E_def ctrl_def)
    show "n = int (length ([] :: byte list) + length db + length eb)" by (simp add: n_def)
  qed
  ultimately have "ApplyBSDiffPatchMem lib old P (length pre) = Some (0, replay old cs db eb 0)"
    by (simp add: ApplyBSDiffPatchMem_def Let_def)
  then show ?thesis by (simp add: P_def n_def ctrl_def)
qed

text \<open>
  The lengths of a triple are checked against the size of the new file, not against zero: with a
  negative diff length the buffer is filled without a bound.
\<close>

lemma negative_length_overruns:
  assumes "bz2_ok lib rest" "rest c = encode_triple (x, y, z) @ later" "x < 0"
    and "\<bar>x\<bar> < 2 ^ 63" "\<bar>y\<bar> < 2 ^ 63" "\<bar>z\<bar> < 2 ^ 63" "int (length out) < new_size"
  shows "patch_loop lib old new_size pos out c d e = None"
proof -
  obtain c1 where "FillBuffer lib 24 c = Some (0, encode_triple (x, y, z), c1)"
    using FillBuffer_rest [OF assms(1), of 24 c] assms(2) by (auto simp: length_encode_triple)
  with decode_triple [OF assms(4-6)] assms(3,7) show ?thesis
    by (simp add: patch_loop.simps [of lib old new_size] FillBuffer_def)
qed

end
