(* ===== verification/BsDiff.thy ===== *)
theory BsDiff
  imports BsPatch
begin

text \<open>
  \<open>applypatch/bsdiff.c\<close>: computing a patch from an old and a new file.  \<open>IP\<close> is the suffix array
  of the old file that the caller owns and may pass in; the model takes it as an argument
  (\<open>qsufsort\<close>, which fills it the first time, is not modelled).  Every read of the old file, of the
  new file and of the suffix array is checked, the variable \<open>pos\<close> starts uninitialised, and the
  buffers \<open>db\<close> and \<open>eb\<close> have room for one byte more than the new file.  The main result is that
  whatever the suffix array contains, as long as its entries are positions of the old file, the
  patch produced makes \<open>bspatch.c\<close> rebuild the new file.
\<close>

section \<open>Matching\<close>

fun matchlen :: "byte list \<Rightarrow> byte list \<Rightarrow> int" where
  "matchlen (a # as) (b # bs) = (if a \<noteq> b then 0 else 1 + matchlen as bs)"
| "matchlen _ _ = 0"

text \<open>\<open>old + i\<close>, for an offset that must lie in the old file or just behind it.\<close>

definition suffix_at :: "byte list \<Rightarrow> int \<Rightarrow> byte list ub" where
  "suffix_at old i = (if 0 \<le> i \<and> i \<le> int (length old) then Some (drop (nat i) old) else None)"

text \<open>\<open>search\<close>: the length of the match found and its position.\<close>

function search :: "int list \<Rightarrow> byte list \<Rightarrow> byte list \<Rightarrow> nat \<Rightarrow> nat \<Rightarrow> (int \<times> int) ub" where
  "search I old new st en =
     (if en < st + 2 then do {
        p \<leftarrow> array_get I st;
        q \<leftarrow> array_get I en;
        sp \<leftarrow> suffix_at old p;
        sq \<leftarrow> suffix_at old q;
        let x = matchlen sp new;
        let y = matchlen sq new;
        Some (if x > y then (x, p) else (y, q))
      }
      else do {
        let x = st + (en - st) div 2;
        p \<leftarrow> array_get I x;
        s \<leftarrow> suffix_at old p;
        if memcmp s new (min (length s) (length new)) < 0
        then search I old new x en
        else search I old new st x
      })"
  by pat_completeness auto

termination
  by (relation "measure (\<lambda>(I, old, new, st, en). en - st)") auto

declare search.simps [simp del]

section \<open>The scan\<close>

text \<open>\<open>same_at\<close>: the comparison of a new byte with the old one at the last offset, where there is one.\<close>

definition same_at :: "byte list \<Rightarrow> byte list \<Rightarrow> int \<Rightarrow> int \<Rightarrow> bool ub" where
  "same_at old new lastoffset i =
     (if i + lastoffset < int (length old)
      then do { a \<leftarrow> geti old (i + lastoffset); b \<leftarrow> geti new i; Some (a = b) }
      else Some False)"

text \<open>The loop over \<open>scsc\<close>, \<open>n\<close> turns of it.\<close>

fun score_loop :: "byte list \<Rightarrow> byte list \<Rightarrow> int \<Rightarrow> nat \<Rightarrow> int \<Rightarrow> int \<Rightarrow> (int \<times> int) ub" where
  "score_loop old new lastoffset 0 scsc oldscore = Some (scsc, oldscore)"
| "score_loop old new lastoffset (Suc n) scsc oldscore = do {
     same \<leftarrow> same_at old new lastoffset scsc;
     score_loop old new lastoffset n (scsc + 1) (if same then oldscore + 1 else oldscore)
   }"

text \<open>
  The loop over \<open>scan\<close>, with at most \<open>n = newsize - scan\<close> turns.  The result holds \<open>scan\<close>,
  \<open>oldscore\<close>, \<open>len\<close> and \<open>pos\<close>.
\<close>

fun scan_loop ::
  "int list \<Rightarrow> byte list \<Rightarrow> byte list \<Rightarrow> int \<Rightarrow> nat \<Rightarrow> int \<Rightarrow> int \<Rightarrow> int \<Rightarrow> int \<Rightarrow> int option
    \<Rightarrow> (int \<times> int \<times> int \<times> int option) ub"
where
  "scan_loop I old new lastoffset 0 scan scsc oldscore len pos = Some (scan, oldscore, len, pos)"
| "scan_loop I old new lastoffset (Suc n) scan scsc oldscore len pos = do {
     (len, p) \<leftarrow> search I old (drop (nat scan) new) 0 (length old);
     (scsc, oldscore) \<leftarrow> score_loop old new lastoffset (nat (scan + len - scsc)) scsc oldscore;
     if (len = oldscore \<and> len \<noteq> 0) \<or> len > oldscore + 8 then Some (scan, oldscore, len, Some p)
     else do {
       same \<leftarrow> same_at old new lastoffset scan;
       scan_loop I old new lastoffset n (scan + 1) scsc (if same then oldscore - 1 else oldscore)
         len (Some p)
     }
   }"

section \<open>Extending the matches\<close>

text \<open>Forward from the last match, backward from the new one, and the split of their overlap.\<close>

function forward_loop ::
  "byte list \<Rightarrow> byte list \<Rightarrow> int \<Rightarrow> int \<Rightarrow> int \<Rightarrow> int \<Rightarrow> int \<Rightarrow> int \<Rightarrow> int \<Rightarrow> int ub"
where
  "forward_loop old new lastscan lastpos scan i s Sf lenf =
     (if lastscan + i < scan \<and> lastpos + i < int (length old) then do {
        a \<leftarrow> geti old (lastpos + i);
        b \<leftarrow> geti new (lastscan + i);
        let s = (if a = b then s + 1 else s);
        let i = i + 1;
        if s * 2 - i > Sf * 2 - lenf then forward_loop old new lastscan lastpos scan i s s i
        else forward_loop old new lastscan lastpos scan i s Sf lenf
      }
      else Some lenf)"
  by pat_completeness auto
termination
  by (relation "measure (\<lambda>(old, new, lastscan, lastpos, scan, i, s, Sf, lenf). nat (scan - (lastscan + i)))")
    auto

declare forward_loop.simps [simp del]

function backward_loop ::
  "byte list \<Rightarrow> byte list \<Rightarrow> int \<Rightarrow> int \<Rightarrow> int \<Rightarrow> int \<Rightarrow> int \<Rightarrow> int \<Rightarrow> int \<Rightarrow> int ub"
where
  "backward_loop old new lastscan scan pos i s Sb lenb =
     (if scan \<ge> lastscan + i \<and> pos \<ge> i then do {
        a \<leftarrow> geti old (pos - i);
        b \<leftarrow> geti new (scan - i);
        let s = (if a = b then s + 1 else s);
        if s * 2 - i > Sb * 2 - lenb then backward_loop old new lastscan scan pos (i + 1) s s i
        else backward_loop old new lastscan scan pos (i + 1) s Sb lenb
      }
      else Some lenb)"
  by pat_completeness auto
termination
  by (relation "measure (\<lambda>(old, new, lastscan, scan, pos, i, s, Sb, lenb). nat (scan + 1 - (lastscan + i)))")
    auto

declare backward_loop.simps [simp del]

function overlap_loop ::
  "byte list \<Rightarrow> byte list \<Rightarrow> int \<Rightarrow> int \<Rightarrow> int \<Rightarrow> int \<Rightarrow> int \<Rightarrow> int \<Rightarrow> int \<Rightarrow> int \<Rightarrow> int \<Rightarrow> int ub"
where
  "overlap_loop old new overlap n1 o1 n2 o2 i s Ss lens =
     (if i < overlap then do {
        a \<leftarrow> geti new (n1 + i);
        b \<leftarrow> geti old (o1 + i);
        let s = (if a = b then s + 1 else s);
        c \<leftarrow> geti new (n2 + i);
        d \<leftarrow> geti old (o2 + i);
        let s = (if c = d then s - 1 else s);
        if s > Ss then overlap_loop old new overlap n1 o1 n2 o2 (i + 1) s s (i + 1)
        else overlap_loop old new overlap n1 o1 n2 o2 (i + 1) s Ss lens
      }
      else Some lens)"
  by pat_completeness auto
termination
  by (relation "measure (\<lambda>(old, new, overlap, n1, o1, n2, o2, i, s, Ss, lens). nat (overlap - i))")
    auto

declare overlap_loop.simps [simp del]

section \<open>Emitting a triple\<close>

text \<open>The two copy loops: \<open>n\<close> turns from index \<open>i\<close>.\<close>

fun diff_bytes :: "byte list \<Rightarrow> byte list \<Rightarrow> int \<Rightarrow> int \<Rightarrow> nat \<Rightarrow> byte list ub" where
  "diff_bytes old new lastscan lastpos 0 = Some []"
| "diff_bytes old new lastscan lastpos (Suc n) = do {
     a \<leftarrow> geti new lastscan;
     b \<leftarrow> geti old lastpos;
     rest \<leftarrow> diff_bytes old new (lastscan + 1) (lastpos + 1) n;
     Some ((a - b) # rest)
   }"

fun copy_bytes :: "byte list \<Rightarrow> int \<Rightarrow> nat \<Rightarrow> byte list ub" where
  "copy_bytes new from 0 = Some []"
| "copy_bytes new from (Suc n) = do {
     a \<leftarrow> geti new from;
     rest \<leftarrow> copy_bytes new (from + 1) n;
     Some (a # rest)
   }"

record diff_state =
  ctrl :: "(int \<times> int \<times> int) list"
  diff_db :: "byte list"
  diff_eb :: "byte list"
  lastscan :: int
  lastpos :: int
  lastoffset :: int

text \<open>The body of the \<open>if\<close> that ends a turn of the main loop.\<close>

definition emit ::
  "byte list \<Rightarrow> byte list \<Rightarrow> int \<Rightarrow> int \<Rightarrow> diff_state \<Rightarrow> diff_state ub" where
  "emit old new scan pos st =
    (let ls = lastscan st; lp = lastpos st in do {
     lenf \<leftarrow> forward_loop old new ls lp scan 0 0 0 0;
     lenb \<leftarrow> (if scan < int (length new) then backward_loop old new ls scan pos 1 0 0 0 else Some 0);
     (lenf, lenb) \<leftarrow>
       (if ls + lenf > scan - lenb then do {
          let overlap = (ls + lenf) - (scan - lenb);
          lens \<leftarrow> overlap_loop old new overlap (ls + lenf - overlap) (lp + lenf - overlap)
                   (scan - lenb) (pos - lenb) 0 0 0 0;
          Some (lenf + lens - overlap, lenb - lens)
        }
        else Some (lenf, lenb));
     let extra = (scan - lenb) - (ls + lenf);
     d \<leftarrow> diff_bytes old new ls lp (nat lenf);
     e \<leftarrow> copy_bytes new (ls + lenf) (nat extra);
     if length (diff_db st @ d) > length new + 1 \<or> length (diff_eb st @ e) > length new + 1 then None
     else Some (st\<lparr>ctrl := ctrl st @ [(lenf, extra, (pos - lenb) - (lp + lenf))],
                   diff_db := diff_db st @ d, diff_eb := diff_eb st @ e,
                   lastscan := scan - lenb, lastpos := pos - lenb, lastoffset := pos - scan\<rparr>)
    })"

text \<open>
  The main loop.  A turn starts at \<open>scan + len\<close> and ends either at the end of the file or at a
  match.  A search whose matches all have length 0 would not move the scan; the turns are bounded
  by the bytes left, which the proof below shows to suffice.
\<close>

fun diff_loop ::
  "nat \<Rightarrow> int list \<Rightarrow> byte list \<Rightarrow> byte list \<Rightarrow> int \<Rightarrow> int \<Rightarrow> int option \<Rightarrow> diff_state \<Rightarrow> diff_state ub"
where
  "diff_loop fuel I old new scan len pos st =
     (if scan < int (length new) then
        (case fuel of 0 \<Rightarrow> None | Suc fuel \<Rightarrow> do {
          let scan = scan + len;
          (scan, oldscore, len, pos) \<leftarrow>
            scan_loop I old new (lastoffset st) (nat (int (length new) - scan)) scan scan 0 len pos;
          st \<leftarrow> (if len \<noteq> oldscore \<or> scan = int (length new)
                then do { p \<leftarrow> pos; emit old new scan p st } else Some st);
          diff_loop fuel I old new scan len pos st
        })
      else Some st)"

definition diff_start :: diff_state where
  "diff_start = \<lparr>ctrl = [], diff_db = [], diff_eb = [], lastscan = 0, lastpos = 0, lastoffset = 0\<rparr>"

definition bsdiff :: "'s bz2 \<Rightarrow> byte list \<Rightarrow> int list \<Rightarrow> byte list \<Rightarrow> byte list ub" where
  "bsdiff lib old I new = do {
     st \<leftarrow> diff_loop (length new + 1) I old new 0 0 None diff_start;
     Some (patch_file lib (int (length new)) (concat (map encode_triple (ctrl st))) (diff_db st) (diff_eb st))
   }"

section \<open>Bounds of the loops\<close>

definition suffix_array_ok :: "int list \<Rightarrow> byte list \<Rightarrow> bool" where
  "suffix_array_ok I old \<longleftrightarrow>
     length I = length old + 1 \<and> (\<forall>p \<in> set I. 0 \<le> p \<and> p \<le> int (length old))"

lemma matchlen_bounds: "0 \<le> matchlen a b \<and> matchlen a b \<le> int (length a) \<and> matchlen a b \<le> int (length b)"
  by (induction a b rule: matchlen.induct) auto

lemma search_spec:
  assumes "suffix_array_ok I old" "st \<le> en" "en \<le> length old"
  shows "\<exists>len p. search I old new st en = Some (len, p) \<and> 0 \<le> len \<and> len \<le> int (length new)
    \<and> 0 \<le> p \<and> p + len \<le> int (length old)"
  using assms
proof (induction I old new st en rule: search.induct)
  case (1 I old new st en)
  have entry: "array_get I k = Some (I ! k)" "suffix_at old (I ! k) = Some (drop (nat (I ! k)) old)"
    "0 \<le> I ! k" "I ! k \<le> int (length old)" if "k \<le> length old" for k
  proof -
    have "k < length I" using "1.prems"(1) that by (simp add: suffix_array_ok_def)
    with "1.prems"(1) have "0 \<le> I ! k \<and> I ! k \<le> int (length old)"
      unfolding suffix_array_ok_def by (meson nth_mem)
    with \<open>k < length I\<close> show "array_get I k = Some (I ! k)" "0 \<le> I ! k" "I ! k \<le> int (length old)"
      "suffix_at old (I ! k) = Some (drop (nat (I ! k)) old)" by (simp_all add: suffix_at_def)
  qed
  show ?case
  proof (cases "en < st + 2")
    case True
    have "st \<le> length old" "en \<le> length old" using "1.prems" by auto
    note st = entry [OF this(1)] and en = entry [OF this(2)]
    show ?thesis
      using True st en matchlen_bounds [of "drop (nat (I ! st)) old" new]
        matchlen_bounds [of "drop (nat (I ! en)) old" new]
      by (auto simp: search.simps [of I old new st en] Let_def of_nat_diff nat_le_iff)
  next
    case False
    let ?x = "st + (en - st) div 2"
    have x: "?x \<le> length old" "st \<le> ?x" "?x \<le> en" using False "1.prems" by auto
    note e = entry [OF x(1)]
    show ?thesis
    proof (cases "memcmp (drop (nat (I ! ?x)) old) new
        (min (length (drop (nat (I ! ?x)) old)) (length new)) < 0")
      case True
      then have "search I old new st en = search I old new ?x en"
        using False e by (simp add: search.simps [of I old new st en] Let_def)
      with "1.IH"(1) [OF False refl e(1,2) True "1.prems"(1) x(3) "1.prems"(3)] show ?thesis by simp
    next
      case nl: False
      then have "search I old new st en = search I old new st ?x"
        using False e by (simp add: search.simps [of I old new st en] Let_def)
      with "1.IH"(2) [OF False refl e(1,2) nl "1.prems"(1) x(2,1)] show ?thesis by simp
    qed
  qed
qed

lemma same_at_defined:
  assumes "0 \<le> i" "i < int (length new)" "0 \<le> i + off"
  obtains b where "same_at old new off i = Some b"
  using assms by (cases "i + off < int (length old)") (auto simp: same_at_def)

lemma score_loop_spec:
  assumes "0 \<le> scsc" "scsc + int n \<le> int (length new)" "0 \<le> scsc + off"
  shows "\<exists>k. score_loop old new off n scsc sc = Some (scsc + int n, k) \<and> sc \<le> k"
  using assms
proof (induction n arbitrary: scsc sc)
  case (Suc n)
  then obtain b where b: "same_at old new off scsc = Some b" by (auto intro: same_at_defined [of scsc new off old])
  have "0 \<le> scsc + 1" "scsc + 1 + int n \<le> int (length new)" "0 \<le> scsc + 1 + off"
    using Suc.prems by auto
  from Suc.IH [OF this, of "if b then sc + 1 else sc"] obtain k where
    "score_loop old new off n (scsc + 1) (if b then sc + 1 else sc) = Some (scsc + 1 + int n, k)"
    "(if b then sc + 1 else sc) \<le> k" by blast
  with b show ?case by (auto split: if_splits)
qed simp

text \<open>The position found by a search, at \<open>scan\<close>.\<close>

definition match_ok :: "byte list \<Rightarrow> byte list \<Rightarrow> int \<Rightarrow> int \<Rightarrow> int \<Rightarrow> bool" where
  "match_ok old new scan len p \<longleftrightarrow>
     0 \<le> len \<and> scan + len \<le> int (length new) \<and> 0 \<le> p \<and> p + len \<le> int (length old)"

lemma scan_loop_spec:
  assumes "suffix_array_ok I old" "0 \<le> s0" "0 \<le> s0 + off" "s0 \<le> scan" "s0 \<le> scsc"
    and "scsc \<le> int (length new)" "scan + int n = int (length new)"
  shows "\<exists>scan' sc' len' pos'. scan_loop I old new off n scan scsc sc len pos = Some (scan', sc', len', pos')
    \<and> scan \<le> scan' \<and> scan' \<le> int (length new)
    \<and> (n = 0 \<longrightarrow> pos' = pos) 
    \<and> (0 < n \<longrightarrow> (\<exists>p. pos' = Some p \<and> 0 \<le> p \<and> p \<le> int (length old)
         \<and> (scan' < int (length new) \<longrightarrow> match_ok old new scan' len' p
              \<and> (scan' = scan \<longrightarrow> 0 \<le> sc \<longrightarrow> scsc = scan \<longrightarrow> 0 < len'))))"
  using assms(4-)
proof (induction n arbitrary: scan scsc sc len pos)
  case 0
  then show ?case by simp
next
  case (Suc n)
  let ?new = "drop (nat scan) new"
  have scan: "0 \<le> scan" "scan < int (length new)" using Suc.prems assms(2) by auto
  obtain l p where search: "search I old ?new 0 (length old) = Some (l, p)" "0 \<le> l"
    "l \<le> int (length ?new)" "0 \<le> p" "p + l \<le> int (length old)"
    using search_spec [OF assms(1), of 0 "length old" ?new] by auto
  then have l: "scan + l \<le> int (length new)" using scan by (simp add: of_nat_diff)
  define m where "m = nat (scan + l - scsc)"
  have "0 \<le> scsc" "scsc + int m \<le> int (length new)" "0 \<le> scsc + off"
    using Suc.prems assms(2,3) l by (auto simp: m_def)
  from score_loop_spec [OF this, of old sc] obtain k where
    k: "score_loop old new off m scsc sc = Some (scsc + int m, k)" "sc \<le> k" by auto
  show ?case
  proof (cases "(l = k \<and> l \<noteq> 0) \<or> l > k + 8")
    case True
    then have "0 \<le> sc \<Longrightarrow> 0 < l" using search(2) k(2) by auto
    with True search k l scan show ?thesis by (auto simp: m_def match_ok_def)
  next
    case False
    have "0 \<le> scan + off" using Suc.prems assms(3) by simp
    then obtain b where b: "same_at old new off scan = Some b"
      using scan same_at_defined by blast
    have pre: "s0 \<le> scan + 1" "s0 \<le> scsc + int m" "scsc + int m \<le> int (length new)"
      "scan + 1 + int n = int (length new)"
      using Suc.prems l by (auto simp: m_def)
    have step: "scan_loop I old new off (Suc n) scan scsc sc len pos
        = scan_loop I old new off n (scan + 1) (scsc + int m) (if b then k - 1 else k) l (Some p)"
      by (simp only: scan_loop.simps search(1) Option.bind_lunit prod.case m_def [symmetric] k(1)
          if_not_P [OF False] b)
    from Suc.IH [OF pre, of "if b then k - 1 else k" l "Some p"] obtain scan' sc' len' pos' where
      IH: "scan_loop I old new off n (scan + 1) (scsc + int m) (if b then k - 1 else k) l (Some p)
        = Some (scan', sc', len', pos')" "scan + 1 \<le> scan'" "scan' \<le> int (length new)"
      "n = 0 \<longrightarrow> pos' = Some p"
      "0 < n \<longrightarrow> (\<exists>p. pos' = Some p \<and> 0 \<le> p \<and> p \<le> int (length old)
         \<and> (scan' < int (length new) \<longrightarrow> match_ok old new scan' len' p))"
      by blast
    have "\<exists>p. pos' = Some p \<and> 0 \<le> p \<and> p \<le> int (length old)
         \<and> (scan' < int (length new) \<longrightarrow> match_ok old new scan' len' p)"
    proof (cases "n = 0")
      case True
      with IH(2-4) pre(4) search show ?thesis by auto
    qed (use IH(5) in simp)
    with IH(1-3) step show ?thesis by auto
  qed
qed

lemma forward_loop_spec:
  assumes "0 \<le> ls" "0 \<le> lp" "scan \<le> int (length new)" "0 \<le> i" "ls + i \<le> scan" "lp + i \<le> int (length old)"
    and "0 \<le> lenf" "lenf \<le> i"
  shows "\<exists>r. forward_loop old new ls lp scan i s Sf lenf = Some r
    \<and> 0 \<le> r \<and> ls + r \<le> scan \<and> lp + r \<le> int (length old)"
  using assms
proof (induction old new ls lp scan i s Sf lenf rule: forward_loop.induct)
  case (1 old new ls lp scan i s Sf lenf)
  show ?case
  proof (cases "ls + i < scan \<and> lp + i < int (length old)")
    case False
    with "1.prems" show ?thesis by (auto simp: forward_loop.simps [of old new ls])
  next
    case True
    then have get: "geti old (lp + i) = Some (old ! nat (lp + i))"
      "geti new (ls + i) = Some (new ! nat (ls + i))" using "1.prems" by auto
    define s' where "s' = (if old ! nat (lp + i) = new ! nat (ls + i) then s + 1 else s)"
    show ?thesis
    proof (cases "s' * 2 - (i + 1) > Sf * 2 - lenf")
      case gt: True
      then have "forward_loop old new ls lp scan i s Sf lenf
          = forward_loop old new ls lp scan (i + 1) s' s' (i + 1)"
        using True get by (simp add: forward_loop.simps [of old new ls lp scan i] Let_def s'_def [symmetric])
      moreover have "\<exists>r. forward_loop old new ls lp scan (i + 1) s' s' (i + 1) = Some r
          \<and> 0 \<le> r \<and> ls + r \<le> scan \<and> lp + r \<le> int (length old)"
        by (rule "1.IH"(1) [OF True get s'_def refl]) (use gt True "1.prems" in auto)
      ultimately show ?thesis by simp
    next
      case le: False
      then have "forward_loop old new ls lp scan i s Sf lenf
          = forward_loop old new ls lp scan (i + 1) s' Sf lenf"
        using True get by (simp add: forward_loop.simps [of old new ls lp scan i] Let_def s'_def [symmetric])
      moreover have "\<exists>r. forward_loop old new ls lp scan (i + 1) s' Sf lenf = Some r
          \<and> 0 \<le> r \<and> ls + r \<le> scan \<and> lp + r \<le> int (length old)"
        by (rule "1.IH"(2) [OF True get s'_def refl]) (use le True "1.prems" in auto)
      ultimately show ?thesis by simp
    qed
  qed
qed

lemma backward_loop_spec:
  assumes "0 \<le> ls" "scan \<le> int (length new)" "pos \<le> int (length old)" "1 \<le> i"
    and "0 \<le> lenb" "lenb \<le> scan - ls" "lenb \<le> pos"
  shows "\<exists>r. backward_loop old new ls scan pos i s Sb lenb = Some r
    \<and> 0 \<le> r \<and> r \<le> scan - ls \<and> r \<le> pos"
  using assms
proof (induction old new ls scan pos i s Sb lenb rule: backward_loop.induct)
  case (1 old new ls scan pos i s Sb lenb)
  show ?case
  proof (cases "scan \<ge> ls + i \<and> pos \<ge> i")
    case False
    with "1.prems" show ?thesis by (auto simp: backward_loop.simps [of old new ls])
  next
    case True
    then have get: "geti old (pos - i) = Some (old ! nat (pos - i))"
      "geti new (scan - i) = Some (new ! nat (scan - i))" using "1.prems" by auto
    define s' where "s' = (if old ! nat (pos - i) = new ! nat (scan - i) then s + 1 else s)"
    show ?thesis
    proof (cases "s' * 2 - i > Sb * 2 - lenb")
      case gt: True
      then have "backward_loop old new ls scan pos i s Sb lenb
          = backward_loop old new ls scan pos (i + 1) s' s' i"
        using True get by (simp add: backward_loop.simps [of old new ls scan pos i] Let_def s'_def [symmetric])
      moreover have "\<exists>r. backward_loop old new ls scan pos (i + 1) s' s' i = Some r
          \<and> 0 \<le> r \<and> r \<le> scan - ls \<and> r \<le> pos"
        by (rule "1.IH"(1) [OF True get s'_def]) (use gt True "1.prems" in auto)
      ultimately show ?thesis by simp
    next
      case le: False
      then have "backward_loop old new ls scan pos i s Sb lenb
          = backward_loop old new ls scan pos (i + 1) s' Sb lenb"
        using True get by (simp add: backward_loop.simps [of old new ls scan pos i] Let_def s'_def [symmetric])
      moreover have "\<exists>r. backward_loop old new ls scan pos (i + 1) s' Sb lenb = Some r
          \<and> 0 \<le> r \<and> r \<le> scan - ls \<and> r \<le> pos"
        by (rule "1.IH"(2) [OF True get s'_def]) (use le True "1.prems" in auto)
      ultimately show ?thesis by simp
    qed
  qed
qed

lemma overlap_loop_spec:
  assumes "0 \<le> n1" "n1 + overlap \<le> int (length new)" "0 \<le> o1" "o1 + overlap \<le> int (length old)"
    and "0 \<le> n2" "n2 + overlap \<le> int (length new)" "0 \<le> o2" "o2 + overlap \<le> int (length old)"
    and "0 \<le> i" "0 \<le> lens" "lens \<le> overlap"
  shows "\<exists>r. overlap_loop old new overlap n1 o1 n2 o2 i s Ss lens = Some r \<and> 0 \<le> r \<and> r \<le> overlap"
  using assms
proof (induction old new overlap n1 o1 n2 o2 i s Ss lens rule: overlap_loop.induct)
  case (1 old new overlap n1 o1 n2 o2 i s Ss lens)
  show ?case
  proof (cases "i < overlap")
    case False
    with "1.prems" show ?thesis by (auto simp: overlap_loop.simps [of old new overlap])
  next
    case True
    then have get: "geti new (n1 + i) = Some (new ! nat (n1 + i))"
      "geti old (o1 + i) = Some (old ! nat (o1 + i))" using "1.prems" by auto
    from True have get2: "geti new (n2 + i) = Some (new ! nat (n2 + i))"
      "geti old (o2 + i) = Some (old ! nat (o2 + i))" using "1.prems" by auto
    define s1 where "s1 = (if new ! nat (n1 + i) = old ! nat (o1 + i) then s + 1 else s)"
    define s2 where "s2 = (if new ! nat (n2 + i) = old ! nat (o2 + i) then s1 - 1 else s1)"
    show ?thesis
    proof (cases "s2 > Ss")
      case gt: True
      have "overlap_loop old new overlap n1 o1 n2 o2 i s Ss lens
          = overlap_loop old new overlap n1 o1 n2 o2 (i + 1) s2 s2 (i + 1)"
        by (simp only: overlap_loop.simps [of old new overlap n1 o1 n2 o2 i] if_P [OF True] get get2
            Option.bind_lunit Let_def s1_def [symmetric] s2_def [symmetric] if_P [OF gt])
      moreover have "\<exists>r. overlap_loop old new overlap n1 o1 n2 o2 (i + 1) s2 s2 (i + 1) = Some r
          \<and> 0 \<le> r \<and> r \<le> overlap"
        by (rule "1.IH"(1) [OF True get s1_def get2 s2_def]) (use gt True "1.prems" in auto)
      ultimately show ?thesis by simp
    next
      case le: False
      have "overlap_loop old new overlap n1 o1 n2 o2 i s Ss lens
          = overlap_loop old new overlap n1 o1 n2 o2 (i + 1) s2 Ss lens"
        by (simp only: overlap_loop.simps [of old new overlap n1 o1 n2 o2 i] if_P [OF True] get get2
            Option.bind_lunit Let_def s1_def [symmetric] s2_def [symmetric] if_not_P [OF le])
      moreover have "\<exists>r. overlap_loop old new overlap n1 o1 n2 o2 (i + 1) s2 Ss lens = Some r
          \<and> 0 \<le> r \<and> r \<le> overlap"
        by (rule "1.IH"(2) [OF True get s1_def get2 s2_def]) (use le True "1.prems" in auto)
      ultimately show ?thesis by simp
    qed
  qed
qed

section \<open>What the bytes emitted mean\<close>

lemma add_old_Nil [simp]: "add_old old pos [] = []"
  by (simp add: add_old_def)

lemma add_old_Cons:
  "add_old old pos (x # xs)
   = (if 0 \<le> pos \<and> pos < int (length old) then x + old ! nat pos else x) # add_old old (pos + 1) xs"
proof -
  have "[0..<Suc n] = 0 # map Suc [0..<n]" for n by (simp add: map_Suc_upt upt_conv_Cons del: upt_Suc)
  then show ?thesis by (simp add: add_old_def ac_simps del: upt_Suc)
qed

lemma take_drop_Suc:
  "0 \<le> i \<Longrightarrow> i < int (length xs) \<Longrightarrow>
   take (Suc n) (drop (nat i) xs) = xs ! nat i # take n (drop (nat (i + 1)) xs)"
  by (simp add: nat_add_distrib Cons_nth_drop_Suc [symmetric])

lemma diff_bytes_spec:
  assumes "0 \<le> ls" "ls + int n \<le> int (length new)" "0 \<le> lp" "lp + int n \<le> int (length old)"
  shows "\<exists>d. diff_bytes old new ls lp n = Some d \<and> length d = n
    \<and> add_old old lp d = take n (drop (nat ls) new)"
  using assms
proof (induction n arbitrary: ls lp)
  case (Suc n)
  from Suc.IH [of "ls + 1" "lp + 1"] Suc.prems obtain d where
    "diff_bytes old new (ls + 1) (lp + 1) n = Some d" "length d = n"
    "add_old old (lp + 1) d = take n (drop (nat (ls + 1)) new)" by auto
  with Suc.prems show ?case by (auto simp: add_old_Cons take_drop_Suc)
qed simp

lemma copy_bytes_spec:
  assumes "0 \<le> from" "from + int n \<le> int (length new)"
  shows "copy_bytes new from n = Some (take n (drop (nat from) new))"
  using assms
proof (induction n arbitrary: "from")
  case (Suc n)
  with Suc.IH [of "from + 1"] show ?case by (simp add: take_drop_Suc)
qed simp

text \<open>The position of the old file after a list of triples.\<close>

definition old_pos :: "(int \<times> int \<times> int) list \<Rightarrow> int" where
  "old_pos cs = (\<Sum>(x, y, z) \<leftarrow> cs. x + z)"

lemma triples_ok_append:
  assumes "triples_ok cs d e" "0 \<le> x" "0 \<le> y" "x < 2 ^ 63" "y < 2 ^ 63" "\<bar>z\<bar> < 2 ^ 63"
  shows "triples_ok (cs @ [(x, y, z)]) (d + nat x) (e + nat y)"
  using assms
proof (induction cs d e rule: triples_ok.induct)
  case (2 x' y' z' cs d e)
  then have "d + nat x - nat x' = (d - nat x') + nat x" "e + nat y - nat y' = (e - nat y') + nat y"
    by (auto simp: nat_le_iff)
  with 2 show ?case by (auto simp: nat_le_iff)
qed simp

lemma replay_append:
  assumes "triples_ok cs (length db) (length eb)"
  shows "replay old (cs @ [t]) (db @ d) (eb @ e) pos
    = replay old cs db eb pos @ replay old [t] d e (pos + old_pos cs)"
  using assms
proof (induction cs arbitrary: db eb pos)
  case Nil
  then show ?case by (cases t) (simp add: old_pos_def)
next
  case (Cons c cs)
  obtain x y z where c: "c = (x, y, z)" by (cases c)
  with Cons.prems have "nat x \<le> length db" "nat y \<le> length eb"
    and ok: "triples_ok cs (length (drop (nat x) db)) (length (drop (nat y) eb))"
    by (auto simp: nat_le_iff)
  with Cons.IH [OF ok, of "pos + x + z"] show ?case
    by (simp add: c old_pos_def add.assoc)
qed

definition diff_inv :: "byte list \<Rightarrow> byte list \<Rightarrow> diff_state \<Rightarrow> bool" where
  "diff_inv old new st \<longleftrightarrow>
     0 \<le> lastscan st \<and> lastscan st \<le> int (length new)
     \<and> 0 \<le> lastpos st \<and> lastpos st \<le> int (length old)
     \<and> triples_ok (ctrl st) (length (diff_db st)) (length (diff_eb st))
     \<and> int (length (diff_db st) + length (diff_eb st)) = lastscan st
     \<and> old_pos (ctrl st) = lastpos st
     \<and> replay old (ctrl st) (diff_db st) (diff_eb st) 0 = take (nat (lastscan st)) new"

lemma emit_spec:
  assumes inv: "diff_inv old new st" and scan: "lastscan st \<le> scan" "scan \<le> int (length new)"
    and pos: "0 \<le> pos" "pos \<le> int (length old)"
    and size: "int (length new) < 2 ^ 63" "int (length old) < 2 ^ 63"
  shows "\<exists>st'. emit old new scan pos st = Some st' \<and> diff_inv old new st'
    \<and> lastscan st' \<le> scan \<and> (scan = int (length new) \<longrightarrow> lastscan st' = scan)
    \<and> lastoffset st' = pos - scan"
proof -
  define ls lp where "ls = lastscan st" and "lp = lastpos st"
  have b: "0 \<le> ls" "ls \<le> scan" "0 \<le> lp" "lp \<le> int (length old)"
    using inv scan by (auto simp: diff_inv_def ls_def lp_def)
  from forward_loop_spec [of ls lp scan new 0 old 0 0 0] b scan obtain f0 where
    f0: "forward_loop old new ls lp scan 0 0 0 0 = Some f0" "0 \<le> f0" "ls + f0 \<le> scan"
      "lp + f0 \<le> int (length old)" by auto
  have "\<exists>b0. (if scan < int (length new) then backward_loop old new ls scan pos 1 0 0 0 else Some 0)
      = Some b0 \<and> 0 \<le> b0 \<and> b0 \<le> scan - ls \<and> b0 \<le> pos \<and> (scan = int (length new) \<longrightarrow> b0 = 0)"
    using backward_loop_spec [of ls scan new pos old 1 0 0 0] b scan pos by auto
  then obtain b0 where b0: "(if scan < int (length new) then backward_loop old new ls scan pos 1 0 0 0
      else Some 0) = Some b0" "0 \<le> b0" "b0 \<le> scan - ls" "b0 \<le> pos" "scan = int (length new) \<longrightarrow> b0 = 0"
    by blast
  define ov where "ov = (ls + f0) - (scan - b0)"
  have "\<exists>f1 b1. (if ls + f0 > scan - b0 then do {
          let overlap = (ls + f0) - (scan - b0);
          lens \<leftarrow> overlap_loop old new overlap (ls + f0 - overlap) (lp + f0 - overlap)
                   (scan - b0) (pos - b0) 0 0 0 0;
          Some (f0 + lens - overlap, b0 - lens)
        } else Some (f0, b0)) = Some (f1, b1)
      \<and> 0 \<le> f1 \<and> f1 \<le> f0 \<and> 0 \<le> b1 \<and> b1 \<le> b0 \<and> ls + f1 \<le> scan - b1"
  proof (cases "ls + f0 > scan - b0")
    case True
    then have "\<exists>r. overlap_loop old new ov (ls + f0 - ov) (lp + f0 - ov) (scan - b0) (pos - b0) 0 0 0 0
        = Some r \<and> 0 \<le> r \<and> r \<le> ov"
      by (intro overlap_loop_spec) (use b scan pos f0 b0 in \<open>auto simp: ov_def\<close>)
    with True b f0 b0 show ?thesis by (auto simp: ov_def [symmetric]) (auto simp: ov_def)
  qed (use f0 b0 in auto)
  then obtain f1 b1 where fb: "(if ls + f0 > scan - b0 then do {
          let overlap = (ls + f0) - (scan - b0);
          lens \<leftarrow> overlap_loop old new overlap (ls + f0 - overlap) (lp + f0 - overlap)
                   (scan - b0) (pos - b0) 0 0 0 0;
          Some (f0 + lens - overlap, b0 - lens)
        } else Some (f0, b0)) = Some (f1, b1)"
    "0 \<le> f1" "f1 \<le> f0" "0 \<le> b1" "b1 \<le> b0" "ls + f1 \<le> scan - b1" by blast
  define extra where "extra = (scan - b1) - (ls + f1)"
  have "ls + int (nat f1) \<le> int (length new)" "lp + int (nat f1) \<le> int (length old)"
    using fb(2-5) f0 scan by auto
  from diff_bytes_spec [OF b(1) this(1) b(3) this(2)] fb(2) obtain d where
    d: "diff_bytes old new ls lp (nat f1) = Some d" "length d = nat f1"
      "add_old old lp d = take (nat f1) (drop (nat ls) new)" by auto
  have e: "copy_bytes new (ls + f1) (nat extra) = Some (take (nat extra) (drop (nat (ls + f1)) new))"
    by (rule copy_bytes_spec) (use b fb scan in \<open>auto simp: extra_def\<close>)
  define eb' where "eb' = take (nat extra) (drop (nat (ls + f1)) new)"
  have x: "0 \<le> extra" "length eb' = nat extra"
    using fb b scan by (auto simp: extra_def eb'_def nat_le_iff)
  define st' where "st' = st\<lparr>ctrl := ctrl st @ [(f1, extra, (pos - b1) - (lp + f1))],
     diff_db := diff_db st @ d, diff_eb := diff_eb st @ eb', lastscan := scan - b1, lastpos := pos - b1,
     lastoffset := pos - scan\<rparr>"
  have total: "int (length (diff_db st @ d) + length (diff_eb st @ eb')) = scan - b1"
    using inv d(2) x fb(2) by (auto simp: diff_inv_def extra_def ls_def)
  then have room: "\<not> (length (diff_db st @ d) > length new + 1 \<or> length (diff_eb st @ eb') > length new + 1)"
    using scan fb(4) by linarith
  have emit: "emit old new scan pos st = Some st'"
    unfolding emit_def Let_def ls_def [symmetric] lp_def [symmetric] f0(1) b0(1) Option.bind_lunit
      fb(1) [unfolded Let_def] prod.case extra_def [symmetric] d(1) e [folded eb'_def]
    using room by (simp only: if_False if_not_P [OF room] st'_def)
  have "0 \<le> pos - b1" "pos - b1 \<le> int (length old)" "0 \<le> lp + f1" "lp + f1 \<le> int (length old)"
    using b fb b0(4) f0 pos by linarith+
  then have z: "\<bar>(pos - b1) - (lp + f1)\<bar> < 2 ^ 63" using size(2) by linarith
  have tr: "triples_ok (ctrl st') (length (diff_db st')) (length (diff_eb st'))"
    using triples_ok_append [of "ctrl st" "length (diff_db st)" "length (diff_eb st)" f1 extra
        "(pos - b1) - (lp + f1)"] inv fb f0 x d(2) b pos scan size z
    by (auto simp: diff_inv_def st'_def extra_def)
  have "replay old (ctrl st') (diff_db st') (diff_eb st') 0
      = take (nat ls) new @ take (nat f1) (drop (nat ls) new) @ eb'"
    using replay_append [of "ctrl st" "diff_db st" "diff_eb st"] inv d x
    by (simp add: st'_def diff_inv_def ls_def lp_def)
  also have "\<dots> = take (nat (scan - b1)) new"
  proof -
    have "nat (scan - b1) = nat ls + nat f1 + nat extra" "nat (ls + f1) = nat ls + nat f1"
      using b(1) fb(2) x(1) by (auto simp: extra_def)
    then show ?thesis by (simp only: take_add eb'_def append_assoc)
  qed
  finally have "replay old (ctrl st') (diff_db st') (diff_eb st') 0 = take (nat (lastscan st')) new"
    by (simp add: st'_def)
  with tr total b fb b0 scan pos inv have "diff_inv old new st'"
    by (auto simp: diff_inv_def st'_def old_pos_def lp_def)
  with emit b0(5) fb(4,5) show ?thesis by (auto simp: st'_def)
qed

section \<open>The main loop\<close>

lemma diff_loop_spec:
  assumes sa: "suffix_array_ok I old"
    and size: "int (length new) < 2 ^ 63" "int (length old) < 2 ^ 63"
    and "diff_inv old new st" "lastscan st \<le> scan" "0 \<le> scan + lastoffset st"
    and "scan \<le> int (length new)" "scan = int (length new) \<longrightarrow> lastscan st = scan"
    and "scan < int (length new) \<longrightarrow> 0 \<le> len \<and> scan + len \<le> int (length new)
      \<and> int (length new) - (scan + len) < int fuel
      \<and> (len = 0 \<or> (\<exists>p. pos = Some p \<and> 0 \<le> p \<and> p \<le> int (length old)))"
  shows "\<exists>st'. diff_loop fuel I old new scan len pos st = Some st' \<and> diff_inv old new st'
    \<and> lastscan st' = int (length new)"
  using assms(4-)
proof (induction fuel arbitrary: scan len pos st)
  case 0
  then show ?case by (auto simp: diff_loop.simps [of 0])
next
  case (Suc fuel)
  show ?case
  proof (cases "scan < int (length new)")
    case False
    with Suc.prems have "scan = int (length new)" "lastscan st = scan" by auto
    with False Suc.prems(1) show ?thesis by (simp add: diff_loop.simps [of "Suc fuel"])
  next
    case True
    with Suc.prems have len: "0 \<le> len" "scan + len \<le> int (length new)"
      "int (length new) - (scan + len) < int (Suc fuel)"
      "len = 0 \<or> (\<exists>p. pos = Some p \<and> 0 \<le> p \<and> p \<le> int (length old))" by auto
    have s0: "0 \<le> scan" using Suc.prems(1,2) by (auto simp: diff_inv_def)
    define n where "n = nat (int (length new) - (scan + len))"
    have n: "scan + len + int n = int (length new)" using len by (simp add: n_def)
    from scan_loop_spec [OF sa s0 Suc.prems(3), of "scan + len" "scan + len" new n 0 len pos] len n
    obtain scan' sc' len' pos' where l: "scan_loop I old new (lastoffset st) n (scan + len) (scan + len)
        0 len pos = Some (scan', sc', len', pos')" "scan + len \<le> scan'" "scan' \<le> int (length new)"
      "n = 0 \<longrightarrow> pos' = pos"
      "0 < n \<longrightarrow> (\<exists>p. pos' = Some p \<and> 0 \<le> p \<and> p \<le> int (length old)
         \<and> (scan' < int (length new) \<longrightarrow> match_ok old new scan' len' p
              \<and> (scan' = scan + len \<longrightarrow> 0 < len')))" by auto
    have "\<exists>p. pos' = Some p \<and> 0 \<le> p \<and> p \<le> int (length old)
         \<and> (scan' < int (length new) \<longrightarrow> match_ok old new scan' len' p
              \<and> (scan' = scan + len \<longrightarrow> 0 < len'))"
    proof (cases "n = 0")
      case z: True
      with n have "scan + len = int (length new)" by simp
      with True len(4) l(2-4) z show ?thesis by auto
    qed (use l(5) in simp)
    then obtain p where p: "pos' = Some p" "0 \<le> p" "p \<le> int (length old)"
      "scan' < int (length new) \<longrightarrow> match_ok old new scan' len' p"
      "scan' < int (length new) \<longrightarrow> scan' = scan + len \<longrightarrow> 0 < len'" by auto
    define nx where "nx = (if len' \<noteq> sc' \<or> scan' = int (length new)
        then do { p \<leftarrow> pos'; emit old new scan' p st } else Some st)"
    have "\<exists>st1. nx = Some st1 \<and> diff_inv old new st1 \<and> lastscan st1 \<le> scan'
        \<and> 0 \<le> scan' + lastoffset st1 \<and> (scan' = int (length new) \<longrightarrow> lastscan st1 = scan')"
    proof (cases "len' \<noteq> sc' \<or> scan' = int (length new)")
      case e: True
      have "lastscan st \<le> scan'" using Suc.prems(2) len(1) l(2) by simp
      from emit_spec [OF Suc.prems(1) this l(3) p(2,3) size] obtain st1 where
        "emit old new scan' p st = Some st1" "diff_inv old new st1" "lastscan st1 \<le> scan'"
        "scan' = int (length new) \<longrightarrow> lastscan st1 = scan'" "lastoffset st1 = p - scan'" by blast
      with e p(1,2) show ?thesis by (auto simp: nx_def)
    next
      case False
      with Suc.prems(1-3) l(2) len(1) show ?thesis by (auto simp: nx_def)
    qed
    then obtain st1 where st1: "nx = Some st1" "diff_inv old new st1" "lastscan st1 \<le> scan'"
      "0 \<le> scan' + lastoffset st1" "scan' = int (length new) \<longrightarrow> lastscan st1 = scan'" by blast
    have step: "diff_loop (Suc fuel) I old new scan len pos st
        = diff_loop fuel I old new scan' len' pos' st1"
      using True l(1) st1(1)
      by (simp only: diff_loop.simps [of "Suc fuel"] if_True nat.case Let_def n_def [symmetric]
          Option.bind_lunit prod.case nx_def [symmetric] True)
    have "scan' < int (length new) \<longrightarrow> 0 \<le> len' \<and> scan' + len' \<le> int (length new)
      \<and> int (length new) - (scan' + len') < int fuel
      \<and> (len' = 0 \<or> (\<exists>p. pos' = Some p \<and> 0 \<le> p \<and> p \<le> int (length old)))"
      using p l(2) len(3) by (auto simp: match_ok_def)
    from Suc.IH [OF st1(2-4) l(3) st1(5) this] step show ?thesis by simp
  qed
qed

section \<open>Properties\<close>

text \<open>
  For any two files and any array of positions of the old file, computing a
  patch returns (every loop ends, no read or write is out of bounds, no buffer overflows), and
  applying it to the old file, wherever it stands in a larger file, gives the new file.  The
  compression library only has to be correct; the quality of the suffix array only changes the
  size of the patch.
\<close>

lemma bsdiff_patch_applies:
  assumes "bz2_ok lib rest" and "suffix_array_ok I old"
    and "int (length new) < 2 ^ 63" "int (length old) < 2 ^ 63"
  shows "\<exists>patch. bsdiff lib old I new = Some patch
    \<and> (int (length patch) < 2 ^ 63 \<longrightarrow>
       ApplyBSDiffPatchMem lib old (before @ patch @ behind) (length before) = Some (0, new))"
proof -
  have "diff_inv old new diff_start" by (simp add: diff_inv_def diff_start_def old_pos_def)
  then obtain st where st: "diff_loop (length new + 1) I old new 0 0 None diff_start = Some st"
    "diff_inv old new st" "lastscan st = int (length new)"
    using diff_loop_spec [OF assms(2-4), of diff_start 0 0 "length new + 1" None]
    by (auto simp: diff_start_def)
  then have s: "int (length new) = int (length (diff_db st) + length (diff_eb st))"
    "triples_ok (ctrl st) (length (diff_db st)) (length (diff_eb st))"
    "replay old (ctrl st) (diff_db st) (diff_eb st) 0 = new" by (simp_all add: diff_inv_def)
  define patch where "patch = patch_file lib (int (length new)) (concat (map encode_triple (ctrl st)))
      (diff_db st) (diff_eb st)"
  have "ApplyBSDiffPatchMem lib old (before @ patch @ behind) (length before) = Some (0, new)"
    if "int (length patch) < 2 ^ 63"
    using ApplyBSDiffPatchMem_file [OF assms(1) s(2), of old before behind] that assms(3) s
    by (simp add: patch_def patch_file_def)
  with st(1) show ?thesis by (simp add: bsdiff_def patch_def)
qed

text \<open>A library that stores bytes with a continuation mark.\<close>

fun unmark :: "byte list \<Rightarrow> byte list" where
  "unmark (m # b # bs) = (if m = 1 then b # unmark bs else [])"
| "unmark _ = []"

definition store_lib :: "byte list bz2" where
  "store_lib = \<lparr>bz_init = unmark, bz_decompress = (\<lambda>s n. (BZ_OK, take n s, drop n s)),
     bz_compress = (\<lambda>d. concat (map (\<lambda>b. [1, b]) d) @ [0])\<rparr>"

lemma store_lib_ok: "bz2_ok store_lib id"
proof -
  have "unmark (concat (map (\<lambda>b. [1, b]) d) @ 0 # tail) = d" for d tail
    by (induction d) (cases tail; simp)+
  then show ?thesis by (auto simp: bz2_ok_def store_lib_def)
qed

end
