(* ===== verification/ImgPatch.thy ===== *)
theory ImgPatch
  imports BsPatch
begin

text \<open>
  \<open>applypatch/imgpatch.c\<close>: applying an image patch (format IMGDIFF2), a sequence of chunks that are
  raw data, a binary patch of a part of the source, or a binary patch of the inflated contents of
  a deflated part, deflated again.  zlib is the parameter \<open>zlib\<close>: one call that inflates a window
  of the source into a buffer, and a deflate stream that is drained piece by piece.  The output
  goes to a sink with a state of its own; the SHA context is the list of the bytes it was given.
  Sizes are those of a 32-bit target: the 64-bit fields of a chunk are truncated to \<open>size_t\<close>, and
  lengths read as \<open>int\<close> may be negative.
\<close>

section \<open>Parameters and constants\<close>

record 'z zlib =
  z_inflate :: "byte list \<Rightarrow> nat \<Rightarrow> int \<times> int \<times> byte list"
  z_deflate_init :: "int \<Rightarrow> int \<Rightarrow> int \<Rightarrow> int \<Rightarrow> int \<Rightarrow> byte list \<Rightarrow> 'z"
  z_deflate :: "'z \<Rightarrow> nat \<Rightarrow> int \<times> byte list \<times> 'z"

definition Z_OK :: int where "Z_OK = 0"
definition Z_STREAM_END :: int where "Z_STREAM_END = 1"

definition CHUNK_NORMAL :: "32 word" where "CHUNK_NORMAL = 0"
definition CHUNK_DEFLATE :: "32 word" where "CHUNK_DEFLATE = 2"
definition CHUNK_RAW :: "32 word" where "CHUNK_RAW = 3"

definition imgdiff_magic :: "byte list" where
  "imgdiff_magic = [0x49, 0x4D, 0x47, 0x44, 0x49, 0x46, 0x46, 0x32]"

type_synonym 't sink = "byte list \<Rightarrow> 't \<Rightarrow> int \<times> 't"

definition size_t_of :: "64 word \<Rightarrow> nat" where
  "size_t_of v = unat (ucast v :: 32 word)"

text \<open>
  The result of a chunk: whether to go on with the next one, the position behind the chunk, the
  sink and the context.  When a chunk fails the function returns -1.
\<close>

type_synonym 't chunk_result = "(bool \<times> nat \<times> 't \<times> byte list) ub"

section \<open>Chunks\<close>

text \<open>A normal chunk; the value \<open>ApplyBSDiffPatch\<close> returns is not looked at.\<close>

definition normal_chunk ::
  "'s bz2 \<Rightarrow> byte list \<Rightarrow> byte list \<Rightarrow> 't sink \<Rightarrow> nat \<Rightarrow> 't \<Rightarrow> byte list \<Rightarrow> 't chunk_result" where
  "normal_chunk bz old patch sink p token ctx =
     (if p + 24 > length patch then Some (False, p + 24, token, ctx) else do {
        src_start \<leftarrow> Read8 patch p;
        src_len \<leftarrow> Read8 patch (p + 8);
        patch_offset \<leftarrow> Read8 patch (p + 16);
        src \<leftarrow> bytes_at old (size_t_of src_start) (size_t_of src_len);
        (r, token, ctx) \<leftarrow> ApplyBSDiffPatch bz src patch (size_t_of patch_offset) sink token ctx;
        Some (True, p + 24, token, ctx)
      })"

definition raw_chunk ::
  "byte list \<Rightarrow> 't sink \<Rightarrow> nat \<Rightarrow> 't \<Rightarrow> byte list \<Rightarrow> 't chunk_result" where
  "raw_chunk patch sink p token ctx =
     (if p + 4 > length patch then Some (False, p + 4, token, ctx) else do {
        len \<leftarrow> Read4 patch p;
        let data_len = sint len;
        if int (p + 4) + data_len > LONG_MAX then None
        else if int (p + 4) + data_len > int (length patch) then Some (False, p + 4, token, ctx)
        else if data_len < 0 then None
        else do {
          bs \<leftarrow> bytes_at patch (p + 4) (nat data_len);
          let ctx = ctx @ bs;
          let (n, token) = sink bs token;
          if n \<noteq> data_len then Some (False, p + 4, token, ctx)
          else Some (True, p + 4 + nat data_len, token, ctx)
        }
      })"

text \<open>The deflate loop: the compressed target is drained through a buffer of \<open>temp_size\<close> bytes.\<close>

partial_function (option) deflate_loop ::
  "'z zlib \<Rightarrow> 't sink \<Rightarrow> nat \<Rightarrow> 'z \<Rightarrow> 't \<Rightarrow> byte list \<Rightarrow> (bool \<times> 't \<times> byte list) ub"
where
  "deflate_loop zl sink temp_size strm token ctx =
     (case z_deflate zl strm temp_size of (ret, bs, strm) \<Rightarrow>
        (case sink bs token of (n, token) \<Rightarrow>
           if n \<noteq> int (length bs) then Some (False, token, ctx)
           else if ret = Z_STREAM_END then Some (True, token, ctx @ bs)
           else deflate_loop zl sink temp_size strm token (ctx @ bs)))"

definition deflate_chunk ::
  "'s bz2 \<Rightarrow> 'z zlib \<Rightarrow> byte list \<Rightarrow> byte list \<Rightarrow> nat \<Rightarrow> byte list option \<Rightarrow> 't sink \<Rightarrow> nat \<Rightarrow> 't
    \<Rightarrow> byte list \<Rightarrow> 't chunk_result" where
  "deflate_chunk bz zl old patch i bonus_data sink p token ctx =
     (if p + 60 > length patch then Some (False, p + 60, token, ctx) else do {
        src_start \<leftarrow> Read8 patch p;
        src_len \<leftarrow> Read8 patch (p + 8);
        patch_offset \<leftarrow> Read8 patch (p + 16);
        expanded_len \<leftarrow> Read8 patch (p + 24);
        level \<leftarrow> Read4 patch (p + 40);
        method \<leftarrow> Read4 patch (p + 44);
        windowBits \<leftarrow> Read4 patch (p + 48);
        memLevel \<leftarrow> Read4 patch (p + 52);
        strategy \<leftarrow> Read4 patch (p + 56);
        let bonus = (case bonus_data of Some d \<Rightarrow> if i = 1 then d else [] | None \<Rightarrow> []);
        src \<leftarrow> bytes_at old (size_t_of src_start) (size_t_of src_len);
        let (init, ret, expanded) = z_inflate zl src (size_t_of expanded_len);
        if init \<noteq> Z_OK then Some (False, p + 60, token, ctx)
        else if ret \<noteq> Z_STREAM_END then Some (False, p + 60, token, ctx)
        else if size_t_of expanded_len - length expanded \<noteq> length bonus
        then Some (False, p + 60, token, ctx)
        else do {
          let expanded = expanded @ bonus;
          (r, target) \<leftarrow> ApplyBSDiffPatchMem bz expanded patch (size_t_of patch_offset);
          if r \<noteq> 0 then Some (False, p + 60, token, ctx)
          else do {
            let temp_size = (if size_t_of expanded_len < 32768 then 32768 else size_t_of expanded_len);
            (ok, token, ctx) \<leftarrow> deflate_loop zl sink temp_size
              (z_deflate_init zl (sint level) (sint method) (sint windowBits) (sint memLevel)
                 (sint strategy) target) token ctx;
            Some (ok, p + 60, token, ctx)
          }
        }
      })"

section \<open>The patch\<close>

text \<open>The loop over the chunks: \<open>n\<close> of them remain, the next is number \<open>i\<close>.\<close>

fun chunk_loop ::
  "'s bz2 \<Rightarrow> 'z zlib \<Rightarrow> byte list \<Rightarrow> byte list \<Rightarrow> byte list option \<Rightarrow> 't sink \<Rightarrow> nat \<Rightarrow> nat \<Rightarrow> nat \<Rightarrow> 't
    \<Rightarrow> byte list \<Rightarrow> (int \<times> 't \<times> byte list) ub"
where
  "chunk_loop bz zl old patch bonus sink 0 i p token ctx = Some (0, token, ctx)"
| "chunk_loop bz zl old patch bonus sink (Suc n) i p token ctx =
     (if p + 4 > length patch then Some (- 1, token, ctx) else do {
        type \<leftarrow> Read4 patch p;
        (ok, p, token, ctx) \<leftarrow>
          (if type = CHUNK_NORMAL then normal_chunk bz old patch sink (p + 4) token ctx
           else if type = CHUNK_RAW then raw_chunk patch sink (p + 4) token ctx
           else if type = CHUNK_DEFLATE then deflate_chunk bz zl old patch i bonus sink (p + 4) token ctx
           else Some (False, p, token, ctx));
        if ok then chunk_loop bz zl old patch bonus sink n (i + 1) p token ctx
        else Some (- 1, token, ctx)
      })"

definition ApplyImagePatch ::
  "'s bz2 \<Rightarrow> 'z zlib \<Rightarrow> byte list \<Rightarrow> byte list \<Rightarrow> 't sink \<Rightarrow> 't \<Rightarrow> byte list \<Rightarrow> byte list option
    \<Rightarrow> (int \<times> 't \<times> byte list) ub" where
  "ApplyImagePatch bz zl old patch sink token ctx bonus_data =
     (if length patch < 12 then Some (- 1, token, ctx) else do {
        magic \<leftarrow> bytes_at patch 0 8;
        if magic \<noteq> imgdiff_magic then Some (- 1, token, ctx) else do {
        num_chunks \<leftarrow> Read4 patch 8;
        chunk_loop bz zl old patch bonus_data sink (nat (sint num_chunks)) 0 12 token ctx
        }
      })"

section \<open>The context follows the output\<close>

definition append_sink :: "byte list sink" where
  "append_sink bs token = (int (length bs), token @ bs)"

text \<open>Both the sink and the context have got the same bytes.\<close>

definition in_step :: "byte list \<Rightarrow> byte list \<Rightarrow> byte list \<Rightarrow> byte list \<Rightarrow> bool" where
  "in_step token ctx token' ctx' \<longleftrightarrow> (\<exists>w. token' = token @ w \<and> ctx' = ctx @ w)"

lemma in_step_refl [simp]: "in_step t c t c"
  by (simp add: in_step_def)

lemma in_step_append [simp]: "in_step t c (t @ w) (c @ w)"
  by (simp add: in_step_def)

lemma in_step_trans: "in_step t c t1 c1 \<Longrightarrow> in_step t1 c1 t2 c2 \<Longrightarrow> in_step t c t2 c2"
  by (auto simp: in_step_def)

lemma deflate_loop_in_step:
  assumes "deflate_loop zl append_sink n z t c = Some (r, t', c')"
  shows "in_step t c t' c'"
proof -
  have "sink = append_sink \<longrightarrow> in_step t c (fst (snd y)) (snd (snd y))"
    if "deflate_loop zl sink n z t c = Some y" for sink y
  proof (rule deflate_loop.raw_induct [where
        P = "\<lambda>zl sink n z t c y. sink = append_sink \<longrightarrow> in_step t c (fst (snd y)) (snd (snd y))", OF _ that])
    fix f zl sink n z t c y
    assume IH: "\<And>zl sink n z t c y. f zl sink n z t c = Some y
        \<Longrightarrow> sink = append_sink \<longrightarrow> in_step t c (fst (snd y)) (snd (snd y))"
      and step: "(case z_deflate zl z n of (ret, bs, strm) \<Rightarrow> case sink bs t of (n', token) \<Rightarrow>
         if n' \<noteq> int (length bs) then Some (False, token, c)
         else if ret = Z_STREAM_END then Some (True, token, c @ bs)
         else f zl sink n strm token (c @ bs)) = Some y"
    obtain ret bs strm where d: "z_deflate zl z n = (ret, bs, strm)" by (cases "z_deflate zl z n")
    show "sink = append_sink \<longrightarrow> in_step t c (fst (snd y)) (snd (snd y))"
    proof
      assume sink: "sink = append_sink"
      show "in_step t c (fst (snd y)) (snd (snd y))"
      proof (cases "ret = Z_STREAM_END")
        case True
        with step d sink show ?thesis by (auto simp: append_sink_def)
      next
        case False
        with step d sink have "f zl append_sink n strm (t @ bs) (c @ bs) = Some y"
          by (simp add: append_sink_def)
        from IH [OF this] show ?thesis by (blast intro: in_step_trans in_step_append)
      qed
    qed
  qed
  from this [OF assms] show ?thesis by simp
qed

lemma ApplyBSDiffPatch_in_step:
  "ApplyBSDiffPatch bz old patch off append_sink t c = Some (r, t', c') \<Longrightarrow> in_step t c t' c'"
  by (auto simp: ApplyBSDiffPatch_def append_sink_def split: bind_splits if_splits)

lemma chunks_in_step:
  "normal_chunk bz old patch append_sink p t c = Some (ok, p', t', c') \<Longrightarrow> in_step t c t' c'"
  "raw_chunk patch append_sink p t c = Some (ok, p', t', c') \<Longrightarrow> in_step t c t' c'"
  "deflate_chunk bz zl old patch i bonus append_sink p t c = Some (ok, p', t', c') \<Longrightarrow> in_step t c t' c'"
  subgoal by (auto simp: normal_chunk_def split: if_splits bind_splits dest: ApplyBSDiffPatch_in_step)
  subgoal by (auto simp: raw_chunk_def append_sink_def Let_def split: if_splits bind_splits)
  subgoal by (auto simp: deflate_chunk_def Let_def split: if_splits bind_splits prod.splits
      dest: deflate_loop_in_step)
  done

lemma chunk_loop_in_step:
  "chunk_loop bz zl old patch bonus append_sink n i p t c = Some (r, t', c') \<Longrightarrow> in_step t c t' c'"
proof (induction n arbitrary: i p t c)
  case (Suc n)
  then show ?case
    by (auto split: if_splits bind_splits dest!: chunks_in_step) (blast intro: in_step_trans Suc.IH)+
qed simp

section \<open>Properties\<close>


text \<open>A patch of one raw chunk, with libraries that are never called.\<close>

definition raw_patch :: "byte list" where
  "raw_patch = imgdiff_magic @ Write4 1 [] @ Write4 CHUNK_RAW [] @ Write4 2 [] @ [0xCA, 0xFE]"

definition no_zlib :: "unit zlib" where
  "no_zlib = \<lparr>z_inflate = (\<lambda>_ _. (Z_OK, Z_STREAM_END, [])), z_deflate_init = (\<lambda>_ _ _ _ _ _. ()),
     z_deflate = (\<lambda>_ _. (Z_STREAM_END, [], ()))\<rparr>"

definition no_bz2 :: "unit bz2" where
  "no_bz2 = \<lparr>bz_init = (\<lambda>_. ()), bz_decompress = (\<lambda>_ _. (- 1, [], ())), bz_compress = (\<lambda>_. [])\<rparr>"

lemma raw_patch_applies:
  "ApplyImagePatch no_bz2 no_zlib [] raw_patch append_sink [] [] None = Some (0, [0xCA, 0xFE], [0xCA, 0xFE])"
  by code_simp


end
