(* ===== verification/Retouch.thy ===== *)
theory Retouch
  imports Bits
begin

text \<open>
  \<open>minelf/Retouch.c\<close>: masking the address randomisation of a prelinked library.  The file ends with
  a list of relocation entries in a compressed form, a \<open>retouch_info_t\<close> (tag and size of the list)
  and a \<open>prelink_info_t\<close> (load address and tag).  \<open>retouch_mask_data\<close> walks the list and sets every
  entry to its original value plus the desired offset, or infers the offset.  The decoder state of
  the C file (\<open>offs_prev\<close>, \<open>cont_prev\<close>), reset at the start of each walk, is passed along.  The file
  is a list of bytes; its words are little-endian.
\<close>

datatype retouch_result = RETOUCH_DATA_ERROR | RETOUCH_DATA_MATCHED | RETOUCH_DATA_MISMATCHED
  | RETOUCH_DATA_NOTAPPLICABLE

section \<open>The decoder\<close>

definition decode_bytes ::
  "byte list \<Rightarrow> nat \<Rightarrow> 32 word \<Rightarrow> 32 word \<Rightarrow> 32 word \<times> 32 word" where
  "decode_bytes e encoded_size offs_prev cont_prev =
     (let b = (\<lambda>i. ucast (e ! i) :: 32 word) in
      if encoded_size = 2 then
        let tmp = push_bit 8 (b 0 AND 0x1f) OR b 1;
            tmp = (if tmp AND 0x1000 \<noteq> 0 then 0xffffe000 OR tmp else tmp)
        in (offs_prev + (drop_bit 5 (b 0 AND 0x60) + 1) * 4, cont_prev + tmp)
      else if encoded_size = 3 then
        let tmp = push_bit 16 (b 0 AND 0x0f) OR push_bit 8 (b 1) OR b 2;
            tmp = (if tmp AND 0x80000 \<noteq> 0 then 0xfff00000 OR tmp else tmp)
        in (offs_prev + (drop_bit 4 (b 0 AND 0x30) + 1) * 4, cont_prev + tmp)
      else
        let off = push_bit 24 (b 0) OR push_bit 16 (b 1) OR push_bit 8 (b 2) OR b 3
        in (if off = 0x3fffffff then - 1 else off,
            push_bit 24 (b 4) OR push_bit 16 (b 5) OR push_bit 8 (b 6) OR b 7))"

definition input_size :: "byte \<Rightarrow> nat" where
  "input_size b = (if b AND 0x80 \<noteq> 0 then 2 else if b AND 0x40 \<noteq> 0 then 3 else 8)"

text \<open>\<open>decode_in_memory\<close> on the file at offset \<open>p\<close>: the entry, its value, and the new offset.\<close>

definition decode_in_memory ::
  "byte list \<Rightarrow> nat \<Rightarrow> 32 word \<Rightarrow> 32 word \<Rightarrow> (32 word \<times> 32 word \<times> nat) ub" where
  "decode_in_memory m p offs_prev cont_prev = do {
     b0 \<leftarrow> array_get m p;
     input \<leftarrow> bytes_at m p (input_size b0);
     let (off, cont) = decode_bytes input (input_size b0) offs_prev cont_prev;
     Some (off, cont, p + input_size b0)
   }"

lemma input_size_pos: "2 \<le> input_size b" "input_size b \<le> 8"
  by (auto simp: input_size_def)

lemma decode_advances:
  assumes "decode_in_memory m p op cp = Some (off, orig, q)"
  shows "p + 2 \<le> q" "q \<le> p + 8" "q \<le> length m"
  using assms input_size_pos
  by (auto simp: decode_in_memory_def bytes_at_def Let_def split: bind_splits if_splits prod.splits)

lemma decode_defined:
  "p + 8 \<le> length m \<Longrightarrow> \<exists>off orig q. decode_in_memory m p op cp = Some (off, orig, q)"
  using input_size_pos(2) [of "m ! p"]
  by (auto simp: decode_in_memory_def bytes_at_def Let_def split: prod.splits)

lemma decode_cong:
  assumes "\<And>i. p \<le> i \<Longrightarrow> i < p + 8 \<Longrightarrow> m ! i = m' ! i" "length m = length m'" "p + 8 \<le> length m"
  shows "decode_in_memory m p op cp = decode_in_memory m' p op cp"
proof -
  have "bytes_at m p n = bytes_at m' p n" if "n \<le> 8" for n
    using that assms by (auto simp: bytes_at_def intro!: nth_equalityI)
  with assms input_size_pos(2) show ?thesis by (simp add: decode_in_memory_def)
qed

section \<open>The walk\<close>

text \<open>The place of an entry: \<open>-1\<close> stands for the load address in \<open>prelink_info_t\<close> at \<open>p_offs\<close>.\<close>

definition entry_place :: "nat \<Rightarrow> 32 word \<Rightarrow> nat" where
  "entry_place p_offs off = (if off = - 1 then p_offs else unat off)"

record walk =
  obj :: "byte list"
  candidate :: "32 word"
  is_set :: bool
  mismatch :: bool

text \<open>One entry of the walk: write it if an offset is desired, then compare the shift.\<close>

definition retouch_entry ::
  "32 word option \<Rightarrow> nat \<Rightarrow> 32 word \<Rightarrow> walk \<Rightarrow> walk ub" where
  "retouch_entry desired place original w = do {
     m \<leftarrow> (case desired of Some d \<Rightarrow> set4LE (obj w) place (original + d) | None \<Rightarrow> Some (obj w));
     v \<leftarrow> get4LE m place;
     let shift = v - original;
     Some (if \<not> is_set w then w\<lparr>obj := m, candidate := shift, is_set := True\<rparr>
           else if candidate w \<noteq> shift then w\<lparr>obj := m, mismatch := True\<rparr>
           else w\<lparr>obj := m\<rparr>)
   }"

text \<open>
  The loop: \<open>b\<close> is the offset of \<open>b_ptr\<close>.  The result is \<open>None\<close> in the inner option when the loop
  returns an error, else the state and the final offset.
\<close>

function walk_loop ::
  "32 word option \<Rightarrow> nat \<Rightarrow> nat \<Rightarrow> int \<Rightarrow> nat \<Rightarrow> 32 word \<Rightarrow> 32 word \<Rightarrow> walk \<Rightarrow> (walk \<times> nat) option ub"
where
  "walk_loop desired p_offs r_offs b_offs b offs_prev cont_prev w =
     (if b < r_offs then
        (case decode_in_memory (obj w) b offs_prev cont_prev of
           None \<Rightarrow> None
         | Some (off, orig, b') \<Rightarrow>
             if sint off < - 1 \<or> sint off \<ge> b_offs then Some None
             else (case retouch_entry desired (entry_place p_offs off) orig w of
                None \<Rightarrow> None
              | Some w \<Rightarrow> walk_loop desired p_offs r_offs b_offs b' off orig w))
      else Some (Some (w, b)))"
  by pat_completeness auto
termination
  by (relation "measure (\<lambda>(desired, p_offs, r_offs, b_offs, b, op, cp, w). r_offs - b)")
    (auto dest: decode_advances)

declare walk_loop.simps [simp del]

definition pre_tag :: "byte list" where "pre_tag = [0x50, 0x52, 0x45, 0x20]"

definition retouch_tag :: "byte list" where
  "retouch_tag = [0x52, 0x45, 0x54, 0x4F, 0x55, 0x43, 0x48, 0x20]"

text \<open>
  \<open>retouch_mask_data\<close>: the result, the file afterwards and what \<open>*retouch_offset\<close> holds.
  \<open>strncmp\<close> on the tags is comparison, as neither contains a NUL.
\<close>

definition retouch_mask_data ::
  "byte list \<Rightarrow> 32 word option \<Rightarrow> (retouch_result \<times> byte list \<times> 32 word) ub" where
  "retouch_mask_data m desired =
    (let target = (case desired of Some d \<Rightarrow> d | None \<Rightarrow> 0);
         size = length m;
         na = (case desired of None \<Rightarrow> RETOUCH_DATA_NOTAPPLICABLE | Some _ \<Rightarrow> RETOUCH_DATA_MATCHED)
     in if size < 20 then Some (na, m, target) else do {
        let p_offs = size - 8;
        let r_offs = size - 20;
        ptag \<leftarrow> bytes_at m (p_offs + 4) 4;
        rtag \<leftarrow> bytes_at m r_offs 8;
        if ptag \<noteq> pre_tag \<or> rtag \<noteq> retouch_tag then Some (na, m, target) else do {
        blob_size \<leftarrow> get4LE m (r_offs + 8);
        let b_offs = sint (word_of_nat r_offs - blob_size);
        if b_offs < 0 then Some (RETOUCH_DATA_ERROR, m, target) else do {
        r \<leftarrow> walk_loop desired p_offs r_offs b_offs (nat b_offs) 0 0
               \<lparr>obj = m, candidate = target, is_set = False, mismatch = False\<rparr>;
        (case r of
           None \<Rightarrow> Some (RETOUCH_DATA_ERROR, m, target)
         | Some (w, b) \<Rightarrow>
             if b > r_offs then Some (RETOUCH_DATA_ERROR, obj w, target)
             else if mismatch w then Some (RETOUCH_DATA_MISMATCHED, obj w, target)
             else Some (RETOUCH_DATA_MATCHED, obj w, candidate w))
        }}
      })"


section \<open>The walk stays inside the file\<close>

text \<open>\<open>store4\<close> is a successful 32-bit write.\<close>

definition store4 :: "byte list \<Rightarrow> nat \<Rightarrow> 32 word \<Rightarrow> byte list" where
  "store4 m p v = m[p := byte_at 0 v, p + 1 := byte_at 1 v, p + 2 := byte_at 2 v, p + 3 := byte_at 3 v]"

lemma length_store4 [simp]: "length (store4 m p v) = length m"
  by (simp add: store4_def)

lemma set4LE_inside: "p + 4 \<le> length m \<Longrightarrow> set4LE m p v = Some (store4 m p v)"
  by (simp add: set4LE_def store4_def)

lemma get4LE_defined: "p + 4 \<le> length m \<Longrightarrow> \<exists>v. get4LE m p = Some v"
  by (simp add: get4LE_def)

lemma get4LE_store4: "p + 4 \<le> length m \<Longrightarrow> get4LE (store4 m p v) p = Some v"
  using set_get_4(1) [of p m v] set_get_4(2) [of p m v] by (auto simp: set4LE_inside)

lemma store4_outside: "i < p \<or> p + 4 \<le> i \<Longrightarrow> store4 m p v ! i = m ! i"
  by (auto simp: store4_def)

lemma unat_of_nonneg: "0 \<le> sint (v :: 32 word) \<Longrightarrow> int (unat v) = sint v"
  using sint_lt [of v] by (simp add: uint_sint take_bit_int_eq_self flip: uint_nat)

lemma place_inside:
  assumes "\<not> sint off < - 1" "\<not> sint off \<ge> b_offs" "b_offs \<le> int r_offs" "r_offs + 20 = length m"
  shows "entry_place (r_offs + 12) off + 4 \<le> length m"
proof (cases "off = - 1")
  case False
  then have "sint off \<noteq> - 1" by (metis sint_n1 signed_word_eqI)
  with assms have "0 \<le> sint off" by linarith
  then have "int (unat off) = sint off" by (rule unat_of_nonneg)
  with assms have "unat off < r_offs" by (simp only: flip: of_nat_less_iff [where 'a = int])
  with False assms show ?thesis by (simp add: entry_place_def)
qed (use assms in \<open>simp add: entry_place_def\<close>)

lemma retouch_entry_safe:
  assumes "place + 4 \<le> length (obj w)"
  shows "\<exists>w'. retouch_entry desired place orig w = Some w' \<and> length (obj w') = length (obj w)"
  using assms get4LE_defined [of place "obj w"] get4LE_store4 [of place "obj w"]
  by (cases desired) (auto simp: retouch_entry_def set4LE_inside Let_def)

lemma walk_loop_safe:
  assumes "r_offs + 20 = length (obj w)" and "b < r_offs \<Longrightarrow> b_offs \<le> int r_offs"
  shows "\<exists>r. walk_loop desired (r_offs + 12) r_offs b_offs b op cp w = Some r
    \<and> (\<forall>w' q. r = Some (w', q) \<longrightarrow> length (obj w') = length (obj w))"
  using assms
proof (induction desired "r_offs + 12" r_offs b_offs b op cp w rule: walk_loop.induct)
  case (1 desired r_offs b_offs b op cp w)
  show ?case
  proof (cases "b < r_offs")
    case True
    with 1(2) obtain off orig q where d: "decode_in_memory (obj w) b op cp = Some (off, orig, q)"
      using decode_defined [of b "obj w"] by fastforce
    show ?thesis
    proof (cases "sint off < - 1 \<or> sint off \<ge> b_offs")
      case False
      with True 1 have "entry_place (r_offs + 12) off + 4 \<le> length (obj w)"
        by (intro place_inside) auto
      from retouch_entry_safe [OF this] obtain w' where
        w': "retouch_entry desired (entry_place (r_offs + 12) off) orig w = Some w'"
          "length (obj w') = length (obj w)" by blast
      from 1(1) [OF True d _ _ False w'(1)] w' True False d 1(2,3) show ?thesis
        by (simp add: walk_loop.simps [of _ _ _ _ b])
    qed (simp add: walk_loop.simps [of _ _ _ _ b] True d)
  qed (simp add: walk_loop.simps [of _ _ _ _ b])
qed


text \<open>The length of the file never changes.\<close>

lemma set4LE_length: "set4LE m p v = Some m' \<Longrightarrow> length m' = length m"
  by (auto simp: set4LE_def array_set_def split: bind_splits if_splits)

lemma retouch_entry_length:
  "retouch_entry desired place orig w = Some w' \<Longrightarrow> length (obj w') = length (obj w)"
  by (cases desired) (auto simp: retouch_entry_def Let_def set4LE_length split: bind_splits if_splits)

lemma walk_loop_length:
  "walk_loop desired p_offs r_offs b_offs b op cp w = Some (Some (w', q)) \<Longrightarrow> length (obj w') = length (obj w)"
proof (induction desired p_offs r_offs b_offs b op cp w rule: walk_loop.induct)
  case (1 desired p_offs r_offs b_offs b op cp w)
  have "length (obj w') = length (obj w)"
    if "b < r_offs" "decode_in_memory (obj w) b op cp = Some (off, orig, b')"
      "\<not> (sint off < - 1 \<or> b_offs \<le> sint off)"
      "retouch_entry desired (entry_place p_offs off) orig w = Some w1"
      "walk_loop desired p_offs r_offs b_offs b' off orig w1 = Some (Some (w', q))" for off orig b' w1
    using 1(1) [OF that(1,2) refl refl that(3-5)] retouch_entry_length [OF that(4)] by simp
  with 1(2) show ?case
    by (subst (asm) walk_loop.simps) (auto split: if_splits option.splits prod.splits)
qed

lemma retouch_mask_data_length:
  "retouch_mask_data m desired = Some (r, m', t) \<Longrightarrow> length m' = length m"
  by (auto simp: retouch_mask_data_def Let_def split: bind_splits if_splits option.splits dest: walk_loop_length)

section \<open>The list of entries\<close>

text \<open>The entries a walk decodes, when all are in range and the list ends where it has to.\<close>

function blob_entries ::
  "byte list \<Rightarrow> nat \<Rightarrow> int \<Rightarrow> nat \<Rightarrow> 32 word \<Rightarrow> 32 word \<Rightarrow> (32 word \<times> 32 word) list option"
where
  "blob_entries m r_offs b_offs b op cp =
     (if b < r_offs then
        (case decode_in_memory m b op cp of
           None \<Rightarrow> None
         | Some (off, orig, b') \<Rightarrow>
             if sint off < - 1 \<or> sint off \<ge> b_offs then None
             else map_option ((#) (off, orig)) (blob_entries m r_offs b_offs b' off orig))
      else if b = r_offs then Some [] else None)"
  by pat_completeness auto
termination
  by (relation "measure (\<lambda>(m, r_offs, b_offs, b, op, cp). r_offs - b)") (auto dest: decode_advances)

declare blob_entries.simps [simp del]

fun write_all :: "32 word \<Rightarrow> nat \<Rightarrow> (32 word \<times> 32 word) list \<Rightarrow> byte list \<Rightarrow> byte list" where
  "write_all d p_offs [] m = m"
| "write_all d p_offs ((off, orig) # es) m =
     write_all d p_offs es (store4 m (entry_place p_offs off) (orig + d))"

definition covered :: "nat \<Rightarrow> (32 word \<times> 32 word) list \<Rightarrow> nat \<Rightarrow> bool" where
  "covered p_offs es i \<longleftrightarrow>
     (\<exists>(off, orig) \<in> set es. entry_place p_offs off \<le> i \<and> i < entry_place p_offs off + 4)"

lemma covered_Cons [simp]:
  "covered p ((off, orig) # es) i \<longleftrightarrow>
     entry_place p off \<le> i \<and> i < entry_place p off + 4 \<or> covered p es i"
  by (auto simp: covered_def)

lemma length_write_all [simp]: "length (write_all d p es m) = length m"
  by (induction d p es m rule: write_all.induct) simp_all

lemma write_all_outside: "\<not> covered p es i \<Longrightarrow> write_all d p es m ! i = m ! i"
proof (induction d p es m rule: write_all.induct)
  case (2 d p off orig es m)
  then show ?case by (auto simp: store4_outside not_le)
qed simp

lemma store4_agree:
  assumes "length m = length m'" "i < length m" "p \<le> i \<and> i < p + 4 \<or> m ! i = m' ! i"
  shows "store4 m p v ! i = store4 m' p v ! i"
proof -
  consider "i = p" | "i = p + 1" | "i = p + 2" | "i = p + 3" | "i < p \<or> p + 4 \<le> i" by linarith
  then show ?thesis
  proof cases
    case 5
    with assms show ?thesis by (auto simp: store4_outside)
  qed (use assms in \<open>simp_all add: store4_def\<close>)
qed

lemma write_all_agree:
  assumes "length m = length m'" "i < length m" "covered p es i \<or> m ! i = m' ! i"
  shows "write_all d p es m ! i = write_all d p es m' ! i"
  using assms
proof (induction d p es m arbitrary: m' rule: write_all.induct)
  case (1 d p m)
  then show ?case by (simp add: covered_def)
next
  case (2 d p off orig es m)
  then show ?case by (auto intro!: 2(1) store4_agree)
qed

text \<open>The values of a second pass replace those of the first.\<close>

lemma write_all_twice: "write_all e p es (write_all d p es m) = write_all e p es m"
  by (rule nth_equalityI) (auto intro!: write_all_agree write_all_outside)

section \<open>Walks with a desired offset\<close>

definition fits :: "nat \<Rightarrow> (32 word \<times> 32 word) list \<Rightarrow> bool" where
  "fits B es \<longleftrightarrow> (\<forall>(off, orig) \<in> set es. off = - 1 \<or> unat off + 4 \<le> B)"

lemma fits_not_covered: "fits B es \<Longrightarrow> B \<le> i \<Longrightarrow> i < p \<Longrightarrow> \<not> covered p es i"
  by (auto simp: fits_def covered_def entry_place_def split: if_splits)

text \<open>Two files with the same list give the same entries.\<close>

lemma blob_entries_cong:
  assumes "\<And>i. b \<le> i \<Longrightarrow> i < r_offs + 8 \<Longrightarrow> m ! i = m' ! i" "length m = length m'" "r_offs + 8 \<le> length m"
  shows "blob_entries m r_offs b_offs b op cp = blob_entries m' r_offs b_offs b op cp"
  using assms
proof (induction m r_offs b_offs b op cp rule: blob_entries.induct)
  case (1 m r_offs b_offs b op cp)
  show ?case
  proof (cases "b < r_offs")
    case True
    with 1(2-) have d: "decode_in_memory m b op cp = decode_in_memory m' b op cp"
      by (intro decode_cong) auto
    show ?thesis
    proof (cases "decode_in_memory m b op cp")
      case (Some y)
      obtain off orig q where y: "y = (off, orig, q)" by (cases y)
      have "blob_entries m r_offs b_offs q off orig = blob_entries m' r_offs b_offs q off orig"
        if range: "\<not> (sint off < - 1 \<or> sint off \<ge> b_offs)"
        using 1(1) [OF True Some y [symmetric] refl range] 1(2-4) decode_advances(1) [OF Some [unfolded y]]
        by auto
      with Some y True d show ?thesis by (auto simp: blob_entries.simps [of _ _ _ b])
    qed (use True d in \<open>simp add: blob_entries.simps [of _ _ _ b]\<close>)
  qed (simp add: blob_entries.simps [of _ _ _ b])
qed

lemma retouch_entry_write:
  assumes "place + 4 \<le> length (obj w)" "candidate w = d"
  shows "retouch_entry (Some d) place orig w
    = Some (w\<lparr>obj := store4 (obj w) place (orig + d), is_set := True\<rparr>)"
  using assms by (auto simp: retouch_entry_def set4LE_inside get4LE_store4)

lemma walk_writes_all:
  assumes "blob_entries m r_offs b_offs b op cp = Some es" "fits B es" "B \<le> b"
    and "\<And>i. B \<le> i \<Longrightarrow> i < r_offs + 8 \<Longrightarrow> obj w ! i = m ! i"
    and "r_offs + 20 = length m" "length (obj w) = length m" "b_offs \<le> int r_offs" "candidate w = d"
  shows "\<exists>s. walk_loop (Some d) (r_offs + 12) r_offs b_offs b op cp w
    = Some (Some (w\<lparr>obj := write_all d (r_offs + 12) es (obj w), is_set := s\<rparr>, r_offs))"
  using assms
proof (induction m r_offs b_offs b op cp arbitrary: es w rule: blob_entries.induct)
  case (1 m r_offs b_offs b op cp)
  show ?case
  proof (cases "b < r_offs")
    case False
    with 1(2) show ?thesis
      by (auto simp: walk_loop.simps [of _ _ _ _ b] blob_entries.simps [of _ _ _ b]
          intro!: exI [of _ "is_set w"] split: if_splits)
  next
    case True
    from 1(2) True obtain off orig q es' where
      d: "decode_in_memory m b op cp = Some (off, orig, q)"
      and range: "\<not> (sint off < - 1 \<or> sint off \<ge> b_offs)"
      and es': "blob_entries m r_offs b_offs q off orig = Some es'" "es = (off, orig) # es'"
      by (auto simp: blob_entries.simps [of _ _ _ b] split: option.splits if_splits)
    have d': "decode_in_memory (obj w) b op cp = Some (off, orig, q)"
      using 1(4-7) True d by (subst decode_cong [of b _ m]) auto
    let ?p = "entry_place (r_offs + 12) off"
    let ?w = "w\<lparr>obj := store4 (obj w) ?p (orig + d), is_set := True\<rparr>"
    have p: "?p + 4 \<le> length (obj w)"
      using place_inside [of off b_offs r_offs m] range 1(6-8) by auto
    have "fits B es'" "?p + 4 \<le> B \<or> r_offs + 12 \<le> ?p"
      using 1(3) es' by (auto simp: fits_def entry_place_def)
    with 1(1) [OF True d _ _ range es'(1), where w = ?w] 1(4-9) decode_advances(1) [OF d]
    have "\<exists>s. walk_loop (Some d) (r_offs + 12) r_offs b_offs q off orig ?w
      = Some (Some (?w\<lparr>obj := write_all d (r_offs + 12) es' (obj ?w), is_set := s\<rparr>, r_offs))"
      by (auto simp: store4_outside)
    with True d' range es'(2) retouch_entry_write [OF p] 1(9) show ?thesis
      by (simp add: walk_loop.simps [of _ _ _ _ b])
  qed
qed

section \<open>Retouched files\<close>

definition retouched :: "byte list \<Rightarrow> bool" where
  "retouched m \<longleftrightarrow> 20 \<le> length m \<and> bytes_at m (length m - 4) 4 = Some pre_tag
     \<and> bytes_at m (length m - 20) 8 = Some retouch_tag"

definition blob_start :: "byte list \<Rightarrow> int" where
  "blob_start m = sint (word_of_nat (length m - 20) - the (get4LE m (length m - 12)))"

definition retouch_list :: "byte list \<Rightarrow> (32 word \<times> 32 word) list option" where
  "retouch_list m =
     (if retouched m \<and> 0 \<le> blob_start m
      then blob_entries m (length m - 20) (blob_start m) (nat (blob_start m)) 0 0 else None)"

lemma retouch_mask_data_walk:
  assumes "retouched m" "0 \<le> blob_start m" "\<And>d. desired = Some d \<Longrightarrow> target = d"
    "desired = None \<Longrightarrow> target = 0"
  shows "retouch_mask_data m desired = do {
     r \<leftarrow> walk_loop desired (length m - 20 + 12) (length m - 20) (blob_start m) (nat (blob_start m)) 0 0
            \<lparr>obj = m, candidate = target, is_set = False, mismatch = False\<rparr>;
     (case r of
        None \<Rightarrow> Some (RETOUCH_DATA_ERROR, m, target)
      | Some (w, b) \<Rightarrow>
          if b > length m - 20 then Some (RETOUCH_DATA_ERROR, obj w, target)
          else if mismatch w then Some (RETOUCH_DATA_MISMATCHED, obj w, target)
          else Some (RETOUCH_DATA_MATCHED, obj w, candidate w)) }"
proof -
  have t: "(case desired of Some d \<Rightarrow> d | None \<Rightarrow> 0) = target"
    using assms by (cases desired) auto
  from assms(1) obtain v where v: "get4LE m (length m - 12) = Some v"
    using get4LE_defined [of "length m - 12" m] by (auto simp: retouched_def)
  have len: "length m - 20 + 8 = length m - 12" "length m - 8 + 4 = length m - 4"
    "length m - 20 + 12 = length m - 8" "\<not> length m < 20"
    using assms(1) by (auto simp: retouched_def)
  have n: "sint (word_of_nat (length m - 20) - v) = blob_start m"
    by (simp add: blob_start_def v)
  have nb: "\<not> blob_start m < 0" using assms(2) by simp
  show ?thesis
    using assms(1) nb unfolding retouched_def
    by (simp only: retouch_mask_data_def Let_def t len v n if_False if_not_P [OF nb]
        Option.bind_lunit simp_thms)
qed

lemma retouch_list_dest:
  assumes "retouch_list m = Some es"
  shows "retouched m" "0 \<le> blob_start m" "blob_start m \<le> int (length m - 20)"
    "blob_entries m (length m - 20) (blob_start m) (nat (blob_start m)) 0 0 = Some es"
    "length m - 20 + 20 = length m"
  using assms by (auto simp: retouch_list_def retouched_def
      blob_entries.simps [of _ _ _ "nat (blob_start m)"] split: if_splits)

lemma retouch_mask_data_unretouched:
  assumes "\<not> retouched m"
  shows "retouch_mask_data m (Some d) = Some (RETOUCH_DATA_MATCHED, m, d)"
proof (cases "20 \<le> length m")
  case True
  then have len: "length m - 8 + 4 = length m - 4" by simp
  from True obtain x y where "bytes_at m (length m - 4) 4 = Some x" "bytes_at m (length m - 20) 8 = Some y"
    by (simp add: bytes_at_def)
  with True len assms show ?thesis by (auto simp: retouch_mask_data_def Let_def retouched_def)
qed (simp add: retouch_mask_data_def Let_def)

text \<open>What masking with a desired offset does to a well-formed file.\<close>

lemma retouch_mask_writes:
  assumes "retouch_list m = Some es" "fits (nat (blob_start m)) es"
  shows "retouch_mask_data m (Some d)
    = Some (RETOUCH_DATA_MATCHED, write_all d (length m - 20 + 12) es m, d)"
  using walk_writes_all [OF retouch_list_dest(4) [OF assms(1)] assms(2), of
      "\<lparr>obj = m, candidate = d, is_set = False, mismatch = False\<rparr>" d]
    retouch_mask_data_walk [of m "Some d" d] retouch_list_dest [OF assms(1)]
  by auto

lemma write_all_keeps_list:
  fixes d :: "32 word"
  assumes "retouch_list m = Some es" "fits (nat (blob_start m)) es"
  defines "m' \<equiv> write_all d (length m - 20 + 12) es m"
  shows "retouch_list m' = Some es" "blob_start m' = blob_start m"
proof -
  note l = retouch_list_dest [OF assms(1)]
  have len: "length m' = length m" by (simp add: m'_def)
  have low: "m' ! i = m ! i" if "nat (blob_start m) \<le> i" "i < length m - 20 + 12" for i
    using that fits_not_covered [OF assms(2)] by (simp add: m'_def write_all_outside)
  have high: "m' ! i = m ! i" if "length m - 20 + 16 \<le> i" for i
  proof -
    have "\<not> covered (length m - 20 + 12) es i"
      using that assms(2) l(3) by (auto simp: covered_def fits_def entry_place_def split: if_splits)
    then show ?thesis by (simp add: m'_def write_all_outside)
  qed
  have tags: "bytes_at m' (length m - 4) 4 = bytes_at m (length m - 4) 4"
    "bytes_at m' (length m - 20) 8 = bytes_at m (length m - 20) 8"
    subgoal using l(5) len by (auto simp: bytes_at_def intro!: nth_equalityI high)
    subgoal using l(3,5) len by (auto simp: bytes_at_def intro!: nth_equalityI low)
    done
  have "get4LE m' (length m - 12) = get4LE m (length m - 12)"
    using l(3,5) by (simp add: get4LE_def len low)
  then show b: "blob_start m' = blob_start m" by (simp add: blob_start_def len)
  from tags have "retouched m'" using l(1) by (simp add: retouched_def len)
  moreover have "blob_entries m' (length m - 20) (blob_start m) (nat (blob_start m)) 0 0 = Some es"
    using l(4,5) low by (subst blob_entries_cong [where m' = m]) (auto simp: len)
  ultimately show "retouch_list m' = Some es" using l(2) by (simp add: retouch_list_def b len)
qed

lemma retouch_mask_data_defined:
  assumes "length m < 2 ^ 31"
  shows "\<exists>r m' t. retouch_mask_data m desired = Some (r, m', t) \<and> length m' = length m"
proof (cases "retouched m \<and> 0 \<le> blob_start m")
  case True
  define target where "target = (case desired of Some d \<Rightarrow> d | None \<Rightarrow> 0)"
  let ?w = "\<lparr>obj = m, candidate = target, is_set = False, mismatch = False\<rparr>"
  obtain r where "walk_loop desired (length m - 20 + 12) (length m - 20) (blob_start m)
      (nat (blob_start m)) 0 0 ?w = Some r" "\<forall>w' q. r = Some (w', q) \<longrightarrow> length (obj w') = length m"
    using walk_loop_safe [of "length m - 20" ?w "nat (blob_start m)" "blob_start m" desired] True
    by (force simp: retouched_def)
  then show ?thesis
    using True retouch_mask_data_walk [of m desired target]
    by (auto simp: target_def split: option.splits)
next
  case False
  have b: "p + n \<le> length m \<Longrightarrow> \<exists>bs. bytes_at m p n = Some bs" for p n by (simp add: bytes_at_def)
  show ?thesis
  proof (cases "20 \<le> length m")
    case True
    then have len: "length m - 8 + 4 = length m - 4" "length m - 20 + 8 = length m - 12" by simp_all
    from True obtain x y v where "bytes_at m (length m - 4) 4 = Some x"
        "bytes_at m (length m - 20) 8 = Some y" "get4LE m (length m - 12) = Some v"
      using b [of "length m - 4" 4] b [of "length m - 20" 8] get4LE_defined [of "length m - 12" m]
      by auto
    with True False len show ?thesis
      by (auto simp: retouch_mask_data_def Let_def retouched_def blob_start_def)
  qed (simp add: retouch_mask_data_def Let_def)
qed

section \<open>Properties\<close>

text \<open>
  C35. Masking never leaves the file: whatever the contents of a file of less than 2 GB (the size is
  an \<open>int32_t\<close>), with or without a desired offset, every access of the walk is inside it.  The
  call returns and keeps the length of the file.
\<close>

theorem retouch_mask_data_memory_safe:
  assumes "length m < 2 ^ 31"
  shows "\<exists>r m' t. retouch_mask_data m desired = Some (r, m', t) \<and> length m' = length m"
  using assms by (rule retouch_mask_data_defined)

text \<open>
  C24. The mask hides the randomisation: a well-formed file (its list of entries decodes and no entry
  overlaps the list) that was masked with any offset \<open>d\<close> reports \<open>d\<close>, and masking it again with
  \<open>e\<close> gives exactly what masking the original with \<open>e\<close> gives.  This is why a checksum of the file
  masked with 0 does not depend on where the library was loaded.
\<close>

theorem retouch_mask_blind:
  assumes "retouch_list m = Some es" and "fits (nat (blob_start m)) es"
  shows "\<exists>m'. retouch_mask_data m (Some d) = Some (RETOUCH_DATA_MATCHED, m', d)
    \<and> retouch_mask_data m' (Some e) = retouch_mask_data m (Some e)"
proof (intro exI conjI)
  let ?m' = "write_all d (length m - 20 + 12) es m"
  show "retouch_mask_data m (Some d) = Some (RETOUCH_DATA_MATCHED, ?m', d)"
    by (rule retouch_mask_writes [OF assms])
  from write_all_keeps_list [OF assms] assms(2)
  have "retouch_list ?m' = Some es" "fits (nat (blob_start ?m')) es" by simp_all
  from retouch_mask_writes [OF this] retouch_mask_writes [OF assms]
  show "retouch_mask_data ?m' (Some e) = retouch_mask_data m (Some e)"
    by (simp add: write_all_twice)
qed

text \<open>A file with two entries, the second one the load address.\<close>

definition sample_library :: "byte list" where
  "sample_library =
     [0, 0, 0, 0, 9, 9, 9, 9]
     @ [0, 0, 0, 4, 0, 0, 0x10, 0] @ [0x3F, 0xFF, 0xFF, 0xFF, 0, 1, 0, 0]
     @ retouch_tag @ [16, 0, 0, 0] @ [0, 0, 0, 0] @ pre_tag"

lemma sample_library_list:
  "retouch_list sample_library = Some [(4, 0x1000), (- 1, 0x10000)]
    \<and> fits (nat (blob_start sample_library)) [(4, 0x1000), (- 1, 0x10000)]"
  by code_simp

theorem retouch_mask_data_memory_safe_witness:
  "\<exists>r m' t. retouch_mask_data sample_library None = Some (r, m', t) \<and> length m' = length sample_library"
  by (rule retouch_mask_data_memory_safe) (simp add: sample_library_def retouch_tag_def pre_tag_def)

theorem retouch_mask_blind_witness:
  "\<exists>m'. retouch_mask_data sample_library (Some 0x40) = Some (RETOUCH_DATA_MATCHED, m', 0x40)
    \<and> retouch_mask_data m' (Some 0) = retouch_mask_data sample_library (Some 0)"
  using retouch_mask_blind [OF conjunct1 [OF sample_library_list] conjunct2 [OF sample_library_list]]
  by blast

end
