(* ===== verification/World.thy ===== *)
theory World
  imports MR_Prelude "HOL-Library.AList"
begin

text \<open>
  The system an update runs on: regular files, partitions, and the system calls that
  \<open>applypatch/applypatch.c\<close> and \<open>applypatch/freecache.c\<close> make.  What a call does beyond its
  arguments (it fails, it is interrupted, it writes less than asked, the space \<open>statfs\<close> reports,
  flash that stores something else) is decided by a tape of events, one per call; when the tape has
  run out every call succeeds.  A theorem about every world is a theorem about every behaviour of
  the system.  \<open>history\<close> holds the file systems there were after each change, which are the ones a
  process that is killed at any point can leave behind.
\<close>

type_synonym path = string

datatype event = Ok | Fail | Intr | Part nat | Space nat nat | Garble "byte list"

record inode =
  content :: "byte list"
  st_mode :: nat
  st_uid :: nat
  st_gid :: nat

type_synonym files = "(path \<times> inode) list"

text \<open>
  \<open>devices\<close> are the block devices by path, \<open>mtd\<close> the MTD partitions by name, \<open>proc\<close> the entries of
  \<open>/proc\<close> with the targets of their descriptors (\<open>None\<close>: unreadable).  \<open>short\<close> records that a
  \<open>FileSink\<close> gave up, which it reports on the console.
\<close>

record world =
  files :: files
  devices :: "(path \<times> byte list) list"
  mtd :: "(string \<times> byte list) list"
  proc :: "(string \<times> path option list option) list option"
  tape :: "event list"
  history :: "files list"
  short :: bool

definition draw :: "world \<Rightarrow> event \<times> world" where
  "draw w = (case tape w of [] \<Rightarrow> Ok | e # es \<Rightarrow> e, w\<lparr>tape := tl (tape w)\<rparr>)"

definition set_files :: "files \<Rightarrow> world \<Rightarrow> world" where
  "set_files fs w = w\<lparr>files := fs, history := history w @ [fs]\<rparr>"

definition lookup :: "world \<Rightarrow> path \<Rightarrow> inode option" where
  "lookup w p = map_of (files w) p"

section \<open>Calls on files\<close>

definition stat :: "path \<Rightarrow> world \<Rightarrow> inode option \<times> world" where
  "stat p w = (case draw w of (e, w) \<Rightarrow> (if e = Fail then None else lookup w p, w))"

text \<open>\<open>open\<close> with \<open>O_WRONLY | O_CREAT | O_TRUNC\<close>; a new file has mode 0600.\<close>

definition open_trunc :: "path \<Rightarrow> world \<Rightarrow> bool \<times> world" where
  "open_trunc p w = (case draw w of (e, w) \<Rightarrow>
     if e = Fail then (False, w)
     else (True, set_files (AList.update p
       (case lookup w p of Some f \<Rightarrow> f\<lparr>content := []\<rparr>
        | None \<Rightarrow> \<lparr>content = [], st_mode = 384, st_uid = 0, st_gid = 0\<rparr>) (files w)) w))"

text \<open>\<open>write\<close> at the end of the file: the bytes written, negative for an error.\<close>

definition append_bytes :: "path \<Rightarrow> byte list \<Rightarrow> world \<Rightarrow> world" where
  "append_bytes p bs w = (case lookup w p of
     Some f \<Rightarrow> set_files (AList.update p (f\<lparr>content := content f @ bs\<rparr>) (files w)) w
   | None \<Rightarrow> w)"

definition write_file :: "path \<Rightarrow> byte list \<Rightarrow> world \<Rightarrow> int \<times> world" where
  "write_file p bs w = (case draw w of (e, w) \<Rightarrow>
     (case e of
        Fail \<Rightarrow> (- 1, w)
      | Intr \<Rightarrow> (- 1, w)
      | Part n \<Rightarrow> (int (length (take n bs)), append_bytes p (take n bs) w)
      | _ \<Rightarrow> (int (length bs), append_bytes p bs w)))"

definition read_file :: "path \<Rightarrow> nat \<Rightarrow> world \<Rightarrow> byte list \<times> world" where
  "read_file p n w = (case draw w of (e, w) \<Rightarrow>
     (case (e, lookup w p) of
        (Fail, _) \<Rightarrow> ([], w)
      | (Part k, Some f) \<Rightarrow> (take (min k n) (content f), w)
      | (_, Some f) \<Rightarrow> (take n (content f), w)
      | (_, None) \<Rightarrow> ([], w)))"

text \<open>Calls that return 0 or -1.\<close>

definition chmod :: "path \<Rightarrow> nat \<Rightarrow> world \<Rightarrow> int \<times> world" where
  "chmod p m w = (case draw w of (e, w) \<Rightarrow>
     (case lookup w p of
        Some f \<Rightarrow> if e = Fail then (- 1, w)
                  else (0, set_files (AList.update p (f\<lparr>st_mode := m\<rparr>) (files w)) w)
      | None \<Rightarrow> (- 1, w)))"

definition chown :: "path \<Rightarrow> nat \<Rightarrow> nat \<Rightarrow> world \<Rightarrow> int \<times> world" where
  "chown p u g w = (case draw w of (e, w) \<Rightarrow>
     (case lookup w p of
        Some f \<Rightarrow> if e = Fail then (- 1, w)
                  else (0, set_files (AList.update p (f\<lparr>st_uid := u, st_gid := g\<rparr>) (files w)) w)
      | None \<Rightarrow> (- 1, w)))"

definition unlink :: "path \<Rightarrow> world \<Rightarrow> int \<times> world" where
  "unlink p w = (case draw w of (e, w) \<Rightarrow>
     if e = Fail \<or> lookup w p = None then (- 1, w)
     else (0, set_files (AList.delete p (files w)) w))"

definition rename :: "path \<Rightarrow> path \<Rightarrow> world \<Rightarrow> int \<times> world" where
  "rename p q w = (case draw w of (e, w) \<Rightarrow>
     (case lookup w p of
        Some f \<Rightarrow> if e = Fail then (- 1, w)
                  else (0, set_files (AList.update q f (AList.delete p (files w))) w)
      | None \<Rightarrow> (- 1, w)))"

text \<open>\<open>statfs\<close>: the block size and the number of free blocks, both \<open>unsigned long\<close>.\<close>

definition statfs :: "path \<Rightarrow> world \<Rightarrow> (nat \<times> nat) option \<times> world" where
  "statfs p w = (case draw w of (e, w) \<Rightarrow>
     (case e of Fail \<Rightarrow> None | Space a b \<Rightarrow> Some (a, b) | _ \<Rightarrow> Some (0, 0), w))"

section \<open>What the calls leave alone\<close>

text \<open>
  \<open>touches P w w'\<close>: only files whose path satisfies \<open>P\<close> changed from \<open>w\<close> to \<open>w'\<close>, and the file
  systems in between differ from that of \<open>w\<close> on these paths at most.
\<close>

definition agree :: "(path \<Rightarrow> bool) \<Rightarrow> files \<Rightarrow> files \<Rightarrow> bool" where
  "agree P fs fs' \<longleftrightarrow> (\<forall>p. \<not> P p \<longrightarrow> map_of fs' p = map_of fs p)"

definition touches :: "(path \<Rightarrow> bool) \<Rightarrow> world \<Rightarrow> world \<Rightarrow> bool" where
  "touches P w w' \<longleftrightarrow> agree P (files w) (files w')
     \<and> (\<exists>h. history w' = history w @ h \<and> (\<forall>fs \<in> set h. agree P (files w) fs))"

lemma agree_refl [simp]: "agree P fs fs"
  by (simp add: agree_def)

lemma touches_refl [simp]: "touches P w w"
  by (simp add: touches_def)

lemma touches_trans:
  assumes "touches P w w'" and "touches P w' w''"
  shows "touches P w w''"
proof -
  from assms obtain h h' where h: "history w' = history w @ h" "history w'' = history w' @ h'"
    "\<forall>fs \<in> set h. agree P (files w) fs" "\<forall>fs \<in> set h'. agree P (files w') fs"
    by (auto simp: touches_def)
  have "agree P (files w) fs" if "agree P (files w') fs" for fs
    using assms(1) that by (auto simp: touches_def agree_def)
  with h assms show ?thesis by (auto simp: touches_def intro!: exI [of _ "h @ h'"])
qed

lemma touches_mono: "touches P w w' \<Longrightarrow> (\<And>p. P p \<Longrightarrow> Q p) \<Longrightarrow> touches Q w w'"
  by (fastforce simp: touches_def agree_def)

lemma touches_lookup: "touches P w w' \<Longrightarrow> \<not> P p \<Longrightarrow> lookup w' p = lookup w p"
  by (simp add: touches_def agree_def lookup_def)

lemma tape_simps [simp]:
  "lookup (w\<lparr>tape := t\<rparr>) p = lookup w p"
  "touches P (w\<lparr>tape := t\<rparr>) w' = touches P w w'"
  "touches P w (w'\<lparr>tape := t\<rparr>) = touches P w w'"
  "set_files fs (w\<lparr>tape := t\<rparr>) = set_files fs w\<lparr>tape := t\<rparr>"
  by (simp_all add: lookup_def touches_def set_files_def)

lemma set_files_touches:
  "(\<And>p. \<not> P p \<Longrightarrow> map_of fs p = map_of (files w) p) \<Longrightarrow> touches P w (set_files fs w)"
  by (auto simp: set_files_def touches_def agree_def)

lemma set_files_simps [simp]:
  "files (set_files fs w) = fs" "history (set_files fs w) = history w @ [fs]"
  "tape (set_files fs w) = tape w" "short (set_files fs w) = short w"
  "devices (set_files fs w) = devices w" "mtd (set_files fs w) = mtd w"
  "lookup (set_files fs w) p = map_of fs p"
  by (simp_all add: set_files_def lookup_def)

lemma alist_lookup [simp]:
  "map_of (AList.update k v al) p = (if p = k then Some v else map_of al p)"
  "map_of (AList.delete k al) p = (if p = k then None else map_of al p)"
  by (simp_all add: update_conv' delete_conv')

named_theorems touch "what a call changes"

lemma stat_result:
  "stat p w = (r, w') \<Longrightarrow> w' = w\<lparr>tape := tape w'\<rparr> \<and> (r = None \<or> r = lookup w p)"
  by (auto simp: stat_def draw_def)

lemma statfs_touches [touch]: "statfs p w = (r, w') \<Longrightarrow> touches P w w'"
  by (auto simp: statfs_def draw_def)

lemma read_file_result: "read_file p n w = (r, w') \<Longrightarrow> w' = w\<lparr>tape := tape w'\<rparr>"
  by (auto simp: read_file_def draw_def split: prod.splits event.splits option.splits)

lemma open_trunc_touches [touch]: "open_trunc p w = (r, w') \<Longrightarrow> touches ((=) p) w w'"
  by (auto simp: open_trunc_def draw_def split: if_splits intro!: set_files_touches)

lemma append_bytes_touches: "touches ((=) p) w (append_bytes p bs w)"
  by (auto simp: append_bytes_def split: option.splits intro!: set_files_touches)

lemma append_bytes_tape [simp]:
  "append_bytes p bs (w\<lparr>tape := t\<rparr>) = append_bytes p bs w\<lparr>tape := t\<rparr>"
  by (auto simp: append_bytes_def set_files_def split: option.splits)

lemma write_file_touches [touch]: "write_file p bs w = (r, w') \<Longrightarrow> touches ((=) p) w w'"
  by (auto simp: write_file_def draw_def append_bytes_touches split: event.splits list.splits)

lemma chmod_touches [touch]: "chmod p m w = (r, w') \<Longrightarrow> touches ((=) p) w w'"
  by (auto simp: chmod_def draw_def split: if_splits option.splits intro!: set_files_touches)

lemma chown_touches [touch]: "chown p u g w = (r, w') \<Longrightarrow> touches ((=) p) w w'"
  by (auto simp: chown_def draw_def split: if_splits option.splits intro!: set_files_touches)

lemma unlink_touches [touch]: "unlink p w = (r, w') \<Longrightarrow> touches ((=) p) w w'"
  by (auto simp: unlink_def draw_def split: if_splits option.splits intro!: set_files_touches)

lemma write_file_result:
  assumes "write_file p bs w = (n, w')" "lookup w p = Some f"
  shows "n < 0 \<and> lookup w' p = Some f
    \<or> (\<exists>k. n = int (length (take k bs)) \<and> lookup w' p = Some (f\<lparr>content := content f @ take k bs\<rparr>))"
proof (cases "fst (draw w)")
  case (Part k)
  with assms show ?thesis by (auto simp: write_file_def append_bytes_def draw_def intro!: exI [of _ k])
qed (use assms in \<open>auto simp: write_file_def append_bytes_def draw_def
  intro!: exI [of _ "length bs"]\<close>)

lemma short_kept:
  "statfs p w = (r2, w') \<Longrightarrow> short w' = short w"
  "open_trunc p w = (r4, w') \<Longrightarrow> short w' = short w"
  "chmod p m w = (r5, w') \<Longrightarrow> short w' = short w"
  "chown p u g w = (r6, w') \<Longrightarrow> short w' = short w"
  "unlink p w = (r7, w') \<Longrightarrow> short w' = short w"
  "rename p q w = (r8, w') \<Longrightarrow> short w' = short w"
  "write_file p bs w = (r9, w') \<Longrightarrow> short w' = short w"
  by (auto simp: statfs_def open_trunc_def chmod_def chown_def unlink_def draw_def
      rename_def write_file_def append_bytes_def split: if_splits option.splits event.splits)

end
