(* ===== verification/LoadSave.thy ===== *)
theory LoadSave
  imports World Retouch
begin

text \<open>
  The loading, saving and checking half of \<open>applypatch/applypatch.c\<close>: digests, files, partitions
  and the sinks that receive the output of a patch.  SHA-1 (library mincrypt) is the parameter
  \<open>sha\<close>; an SHA context is the list of the bytes it was given.  \<open>malloc\<close> succeeds.
\<close>

section \<open>Digests\<close>

definition SHA_DIGEST_SIZE :: nat where "SHA_DIGEST_SIZE = 20"

definition hex_digit :: "char \<Rightarrow> nat option" where
  "hex_digit c =
     (let n = of_char c :: nat in
      if 48 \<le> n \<and> n \<le> 57 then Some (n - 48)
      else if 97 \<le> n \<and> n \<le> 102 then Some (n - 97 + 10)
      else if 65 \<le> n \<and> n \<le> 70 then Some (n - 65 + 10) else None)"

text \<open>The loop over the digits: \<open>n\<close> of them remain, \<open>pd\<close> holds the digest so far.\<close>

fun ParseSha1_loop :: "nat \<Rightarrow> nat \<Rightarrow> string \<Rightarrow> byte list \<Rightarrow> (string \<times> byte list) option" where
  "ParseSha1_loop 0 i ps pd = Some (ps, pd)"
| "ParseSha1_loop (Suc n) i [] pd = None"
| "ParseSha1_loop (Suc n) i (c # ps) pd =
     (case hex_digit c of
        None \<Rightarrow> None
      | Some digit \<Rightarrow>
          ParseSha1_loop n (i + 1) ps
            (if i mod 2 = 0 then pd @ [push_bit 4 (word_of_nat digit)]
             else butlast pd @ [last pd OR word_of_nat digit]))"

definition ParseSha1 :: "string \<Rightarrow> byte list option" where
  "ParseSha1 str =
     (case ParseSha1_loop (SHA_DIGEST_SIZE * 2) 0 str [] of
        None \<Rightarrow> None
      | Some (ps, digest) \<Rightarrow> if ps \<noteq> [] then None else Some digest)"

fun FindMatchingPatch_loop :: "byte list \<Rightarrow> string list \<Rightarrow> int \<Rightarrow> int" where
  "FindMatchingPatch_loop sha1 [] i = - 1"
| "FindMatchingPatch_loop sha1 (s # ss) i =
     (case ParseSha1 s of
        Some patch_sha1 \<Rightarrow> if memcmp patch_sha1 sha1 SHA_DIGEST_SIZE = 0 then i
                           else FindMatchingPatch_loop sha1 ss (i + 1)
      | None \<Rightarrow> FindMatchingPatch_loop sha1 ss (i + 1))"

definition FindMatchingPatch :: "byte list \<Rightarrow> string list \<Rightarrow> int" where
  "FindMatchingPatch sha1 patch_sha1_str = FindMatchingPatch_loop sha1 patch_sha1_str 0"

section \<open>Sinks\<close>

text \<open>\<open>FileSink\<close>: the descriptor is the path it writes to.\<close>

function FileSink_loop :: "path \<Rightarrow> byte list \<Rightarrow> nat \<Rightarrow> world \<Rightarrow> int \<times> world" where
  "FileSink_loop p bs sofar w =
     (if sofar < length bs then
        (case write_file p (drop sofar bs) w of
           (wrote, w) \<Rightarrow>
             if wrote \<le> 0 then (int sofar, w\<lparr>short := True\<rparr>)
             else FileSink_loop p bs (sofar + nat wrote) w)
      else (int sofar, w))"
  by pat_completeness auto
termination by (relation "measure (\<lambda>(p, bs, sofar, w). length bs - sofar)") auto

declare FileSink_loop.simps [simp del]

definition FileSink :: "path \<Rightarrow> byte list \<Rightarrow> world \<Rightarrow> int \<times> world" where
  "FileSink p bs w = FileSink_loop p bs 0 w"

text \<open>\<open>MemorySink\<close>: the size of the buffer and what it holds.\<close>

definition MemorySink :: "int \<Rightarrow> byte list \<Rightarrow> byte list \<Rightarrow> int \<times> byte list" where
  "MemorySink capacity bs buffer =
     (if capacity - int (length buffer) < int (length bs) then (- 1, buffer)
      else (int (length bs), buffer @ bs))"

section \<open>File contents\<close>

text \<open>
  \<open>FileContents\<close>: \<open>fc_data = None\<close> is a null pointer, \<open>fc_size = None\<close> a field that was never
  assigned, which must not be read.
\<close>

record FileContents =
  fc_sha1 :: "byte list"
  fc_data :: "byte list option"
  fc_size :: "int option"
  fc_mode :: nat
  fc_uid :: nat
  fc_gid :: nat

definition no_contents :: FileContents where
  "no_contents = \<lparr>fc_sha1 = [], fc_data = None, fc_size = None, fc_mode = 0, fc_uid = 0, fc_gid = 0\<rparr>"

datatype PartitionType = MTD | EMMC

text \<open>The tokens that successive calls of \<open>strtok\<close> return.\<close>

function strtok_all :: "char \<Rightarrow> string \<Rightarrow> string list" where
  "strtok_all d s =
     (let s = dropWhile ((=) d) s in
      if s = [] then [] else takeWhile ((\<noteq>) d) s # strtok_all d (dropWhile ((\<noteq>) d) s))"
  by pat_completeness auto
termination
proof (relation "measure (\<lambda>(d, s). length s)", goal_cases)
  case (2 d s x)
  then obtain c cs where c: "x = c # cs" "c \<noteq> d"
    by (metis (mono_tags) hd_dropWhile list.exhaust list.sel(1))
  have "length (dropWhile ((\<noteq>) d) x) \<le> length cs"
    using c length_dropWhile_le [of "(\<noteq>) d" cs] by simp
  also have "length cs < length x" using c by simp
  also have "length x \<le> length s" using 2(1) length_dropWhile_le [of "(=) d" s] by simp
  finally show ?case by simp
qed simp

declare strtok_all.simps [simp del]

definition compare_size_indices :: "nat list \<Rightarrow> nat \<Rightarrow> nat \<Rightarrow> int" where
  "compare_size_indices size_array aa bb =
     (if size_array ! aa < size_array ! bb then - 1
      else if size_array ! aa > size_array ! bb then 1 else 0)"

text \<open>\<open>qsort\<close>: insertion in the order of the comparison function (the C library leaves the order of
  equal elements open).\<close>

fun insert_cmp :: "('a \<Rightarrow> 'a \<Rightarrow> int) \<Rightarrow> 'a \<Rightarrow> 'a list \<Rightarrow> 'a list" where
  "insert_cmp cmp x [] = [x]"
| "insert_cmp cmp x (y # ys) = (if cmp x y \<le> 0 then x # y # ys else y # insert_cmp cmp x ys)"

definition qsort :: "('a \<Rightarrow> 'a \<Rightarrow> int) \<Rightarrow> 'a list \<Rightarrow> 'a list" where
  "qsort cmp xs = foldr (insert_cmp cmp) xs []"

text \<open>\<open>mtd_read_data\<close> or \<open>fread\<close> on a device: the bytes read behind position \<open>pos\<close>.\<close>

definition read_device :: "byte list \<Rightarrow> nat \<Rightarrow> nat \<Rightarrow> world \<Rightarrow> byte list \<times> world" where
  "read_device dev pos n w = (case draw w of (e, w) \<Rightarrow>
     (case e of
        Fail \<Rightarrow> []
      | Part k \<Rightarrow> take (min k n) (drop pos dev)
      | _ \<Rightarrow> take n (drop pos dev), w))"

text \<open>
  The pairs of sizes and digests in a partition file name: \<open>strtol\<close> of a missing size is undefined,
  a size of 0 is an error; a digest may be missing.
\<close>

fun parse_pairs :: "nat \<Rightarrow> string list \<Rightarrow> (nat \<times> string option) list option ub" where
  "parse_pairs 0 toks = Some (Some [])"
| "parse_pairs (Suc n) [] = None"
| "parse_pairs (Suc n) (size_str # toks) =
     (let size = unat (word_of_int (fst (strtol10 size_str)) :: 32 word) in
      if size = 0 then Some None
      else (case toks of
              [] \<Rightarrow> do { r \<leftarrow> parse_pairs n []; Some (map_option ((#) (size, None)) r) }
            | s # toks \<Rightarrow> do { r \<leftarrow> parse_pairs n toks; Some (map_option ((#) (size, Some s)) r) }))"

text \<open>
  The loop over the pairs in order of size; \<open>data\<close> is what was read so far.  The inner result is
  \<open>None\<close> when the load fails.
\<close>

fun pair_loop ::
  "(byte list \<Rightarrow> byte list) \<Rightarrow> byte list \<Rightarrow> (nat \<times> string option) list \<Rightarrow> nat list \<Rightarrow> byte list \<Rightarrow> world
    \<Rightarrow> (byte list option \<times> nat \<times> world) ub"
where
  "pair_loop sha dev pairs [] data w = Some (None, length data, w)"
| "pair_loop sha dev pairs (i # is) data w =
     (let need = fst (pairs ! i) - length data;
          (bs, w) = (if need > 0 then read_device dev (length data) need w else ([], w))
      in if length bs \<noteq> need then Some (None, length data, w)
      else (case snd (pairs ! i) of
              None \<Rightarrow> None
            | Some s \<Rightarrow>
                (case ParseSha1 s of
                   None \<Rightarrow> Some (None, length (data @ bs), w)
                 | Some parsed_sha \<Rightarrow>
                     if memcmp (sha (data @ bs)) parsed_sha SHA_DIGEST_SIZE = 0
                     then Some (Some (data @ bs), length (data @ bs), w)
                     else pair_loop sha dev pairs is (data @ bs) w)))"

definition LoadPartitionContents ::
  "(byte list \<Rightarrow> byte list) \<Rightarrow> string \<Rightarrow> FileContents \<Rightarrow> world \<Rightarrow> (int \<times> FileContents \<times> world) ub" where
  "LoadPartitionContents sha filename fc w =
     (case strtok_all CHR '':'' filename of
        [] \<Rightarrow> None
      | [magic] \<Rightarrow> if magic = ''MTD'' \<or> magic = ''EMMC'' then None else Some (- 1, fc, w)
      | magic # part # toks \<Rightarrow>
          if magic \<noteq> ''MTD'' \<and> magic \<noteq> ''EMMC'' then Some (- 1, fc, w)
          else do {
            let colons = length (filter ((=) CHR '':'') filename);
            let pairs = (colons - 1) div 2;
            r \<leftarrow> parse_pairs pairs toks;
            (case r of
               None \<Rightarrow> Some (- 1, fc, w)
             | Some ps \<Rightarrow>
                 let index = qsort (compare_size_indices (map fst ps)) [0..<pairs];
                     (e, w) = draw w;
                     dev = (if e = Fail then None
                            else if magic = ''MTD'' then map_of (mtd w) part
                            else map_of (devices w) part)
                 in (case dev of
                       None \<Rightarrow> Some (- 1, fc, w)
                     | Some dev \<Rightarrow>
                         if pairs = 0 then None
                         else do {
                           (data, n, w) \<leftarrow> pair_loop sha dev ps index [] w;
                           (case data of
                              None \<Rightarrow> Some (- 1, fc\<lparr>fc_data := None, fc_size := Some (int n)\<rparr>, w)
                            | Some d \<Rightarrow>
                                Some (0, fc\<lparr>fc_data := Some d, fc_size := Some (int n), fc_sha1 := sha d,
                                            fc_mode := 420, fc_uid := 0, fc_gid := 0\<rparr>, w))
                         }))
          })"

definition is_partition :: "string \<Rightarrow> bool" where
  "is_partition filename \<longleftrightarrow> take 4 filename = ''MTD:'' \<or> take 5 filename = ''EMMC:''"

definition LoadFileContents ::
  "(byte list \<Rightarrow> byte list) \<Rightarrow> string \<Rightarrow> FileContents \<Rightarrow> bool \<Rightarrow> world \<Rightarrow> (int \<times> FileContents \<times> world) ub"
where
  "LoadFileContents sha filename fc retouch_flag w =
     (let fc = fc\<lparr>fc_data := None\<rparr> in
      if is_partition filename then LoadPartitionContents sha filename fc w
      else (case stat filename w of
              (None, w) \<Rightarrow> Some (- 1, fc, w)
            | (Some f, w) \<Rightarrow>
                let size = length (content f);
                    fc = fc\<lparr>fc_size := Some (int size), fc_mode := st_mode f, fc_uid := st_uid f,
                            fc_gid := st_gid f\<rparr>;
                    (e, w) = draw w
                in if e = Fail then Some (- 1, fc, w)
                   else (case read_file filename size w of
                     (bs, w) \<Rightarrow>
                       if length bs \<noteq> size then Some (- 1, fc, w)
                       else if retouch_flag then do {
                         (r, bs, off) \<leftarrow> retouch_mask_data bs (Some 0);
                         if r \<noteq> RETOUCH_DATA_MATCHED then Some (- 1, fc, w)
                         else Some (0, fc\<lparr>fc_data := Some bs, fc_sha1 := sha bs\<rparr>, w)
                       } else Some (0, fc\<lparr>fc_data := Some bs, fc_sha1 := sha bs\<rparr>, w))))"

text \<open>\<open>SaveFileContents\<close>: writing from a null pointer fails.\<close>

definition SaveFileContents :: "string \<Rightarrow> FileContents \<Rightarrow> world \<Rightarrow> (int \<times> world) ub" where
  "SaveFileContents filename fc w =
     (case open_trunc filename w of
        (ok, w) \<Rightarrow>
          if \<not> ok then Some (- 1, w)
          else do {
            size \<leftarrow> fc_size fc;
            let (written, w) =
              (case fc_data fc of
                 Some d \<Rightarrow> FileSink filename (take (nat size) d) w
               | None \<Rightarrow> (0, if size > 0 then w\<lparr>short := True\<rparr> else w));
            if written \<noteq> size then Some (- 1, w)
            else (case chmod filename (fc_mode fc) w of
              (r, w) \<Rightarrow>
                if r \<noteq> 0 then Some (- 1, w)
                else (case chown filename (fc_uid fc) (fc_gid fc) w of
                  (r, w) \<Rightarrow> Some (if r \<noteq> 0 then - 1 else 0, w)))
          })"

section \<open>Checking a file\<close>

definition CACHE_TEMP_SOURCE :: string where "CACHE_TEMP_SOURCE = ''/cache/saved.file''"

definition applypatch_check ::
  "(byte list \<Rightarrow> byte list) \<Rightarrow> string \<Rightarrow> string list \<Rightarrow> world \<Rightarrow> (int \<times> world) ub" where
  "applypatch_check sha filename patch_sha1_str w = do {
     (r, fc, w) \<leftarrow> LoadFileContents sha filename no_contents True w;
     if r \<noteq> 0 \<or> patch_sha1_str \<noteq> [] \<and> FindMatchingPatch (fc_sha1 fc) patch_sha1_str < 0
     then do {
       (r, fc, w) \<leftarrow> LoadFileContents sha CACHE_TEMP_SOURCE fc True w;
       if r \<noteq> 0 then Some (1, w)
       else if FindMatchingPatch (fc_sha1 fc) patch_sha1_str < 0 then Some (1, w)
       else Some (0, w)
     } else Some (0, w)
   }"

section \<open>Lemmas on digests\<close>

definition hex_char :: "nat \<Rightarrow> char" where
  "hex_char n = char_of (if n < 10 then 48 + n else 87 + n)"

definition hex_string :: "byte list \<Rightarrow> string" where
  "hex_string ds = concat (map (\<lambda>d. [hex_char (unat d div 16), hex_char (unat d mod 16)]) ds)"

lemma hex_digit_char: "n < 16 \<Longrightarrow> hex_digit (hex_char n) = Some n"
  by (simp add: hex_digit_def hex_char_def Let_def)

lemma nibbles: "push_bit 4 (word_of_nat (unat d div 16)) OR word_of_nat (unat d mod 16) = (d :: byte)"
proof -
  have "word_of_nat (unat d div 16) = drop_bit 4 d"
    using word_arith_nat_div [of d 16] by (simp add: drop_bit_eq_div)
  moreover have "word_of_nat (unat d mod 16) = take_bit 4 d"
    using word_arith_nat_mod [of d 16] by (simp add: take_bit_eq_mod)
  moreover have "push_bit 4 (drop_bit 4 d) OR take_bit 4 d = d"
    by (rule bit_eqI) (auto simp: bit_simps)
  ultimately show ?thesis by simp
qed

lemma ParseSha1_loop_digits:
  "i mod 2 = 0 \<Longrightarrow> ParseSha1_loop (2 * length ds) i (hex_string ds @ rest) pd = Some (rest, pd @ ds)"
proof (induction ds arbitrary: i pd)
  case Nil
  then show ?case by (simp add: hex_string_def)
next
  case (Cons d ds)
  have "unat d div 16 < 16" using unsigned_less [of d, where 'a = nat] by simp
  moreover have "Suc (i mod 2) mod 2 = 1" "(i + 2) mod 2 = 0" using Cons.prems by simp_all
  ultimately show ?case
    using Cons.IH [of "i + 2" "pd @ [d]"] Cons.prems
    by (simp add: hex_string_def hex_digit_char nibbles mod_Suc)
qed

lemma ParseSha1_loop_length:
  "ParseSha1_loop n i s pd = Some (r, d) \<Longrightarrow> i mod 2 = 0 \<or> pd \<noteq> [] \<Longrightarrow>
    length s = n + length r \<and> length d = length pd + (n + 1 - i mod 2) div 2"
proof (induction n i s pd rule: ParseSha1_loop.induct)
  case (3 n i c ps pd)
  then show ?case
    by (cases "i mod 2 = 0") (auto simp: mod_Suc split: option.splits)
qed auto

lemma ParseSha1_length: "ParseSha1 s = Some d \<Longrightarrow> length d = 20 \<and> length s = 40"
  using ParseSha1_loop_length [of 40 0 s "[]"]
  by (auto simp: ParseSha1_def SHA_DIGEST_SIZE_def split: option.splits if_splits)

lemma ParseSha1_hex_string: "length d = 20 \<Longrightarrow> ParseSha1 (hex_string d) = Some d"
  using ParseSha1_loop_digits [of 0 d "[]" "[]"]
  by (simp add: ParseSha1_def SHA_DIGEST_SIZE_def)

lemma FindMatchingPatch_loop_result:
  assumes "length sha1 = 20"
  shows "FindMatchingPatch_loop sha1 ss i = r \<Longrightarrow>
    r = - 1 \<and> (\<forall>s \<in> set ss. ParseSha1 s \<noteq> Some sha1)
    \<or> (\<exists>k < length ss. r = i + int k \<and> ParseSha1 (ss ! k) = Some sha1
        \<and> (\<forall>j < k. ParseSha1 (ss ! j) \<noteq> Some sha1))"
proof (induction ss arbitrary: i)
  case (Cons s ss)
  show ?case
  proof (cases "ParseSha1 s = Some sha1")
    case True
    with Cons.prems assms memcmp_eq_0 [of sha1 sha1] show ?thesis
      by (auto simp: SHA_DIGEST_SIZE_def intro!: exI [of _ 0])
  next
    case False
    then have "FindMatchingPatch_loop sha1 ss (i + 1) = r"
      using Cons.prems assms memcmp_eq_0 [of _ sha1] ParseSha1_length [of s]
      by (auto simp: SHA_DIGEST_SIZE_def split: option.splits if_splits)
    from Cons.IH [OF this] show ?thesis
    proof (elim disjE exE conjE)
      fix k
      assume "k < length ss" "r = i + 1 + int k" "ParseSha1 (ss ! k) = Some sha1"
        "\<forall>j<k. ParseSha1 (ss ! j) \<noteq> Some sha1"
      with False show ?thesis
        by (intro disjI2 exI [of _ "Suc k"]) (auto simp: less_Suc_eq_0_disj)
    qed (use False in simp)
  qed
qed simp

lemma FindMatchingPatch_result:
  assumes "length sha1 = 20"
  shows "0 \<le> FindMatchingPatch sha1 ss \<longleftrightarrow> (\<exists>s \<in> set ss. ParseSha1 s = Some sha1)"
    "0 \<le> FindMatchingPatch sha1 ss \<Longrightarrow> nat (FindMatchingPatch sha1 ss) < length ss
      \<and> ParseSha1 (ss ! nat (FindMatchingPatch sha1 ss)) = Some sha1"
  using FindMatchingPatch_loop_result [OF assms, of ss 0 "FindMatchingPatch sha1 ss"]
  by (auto simp: FindMatchingPatch_def)

section \<open>Lemmas on the sinks and on files\<close>

lemma FileSink_loop_result:
  assumes "FileSink_loop p bs n w = (r, w')" "lookup w p = Some f" "n \<le> length bs"
  shows "touches ((=) p) w w' \<and> (short w \<longrightarrow> short w')
    \<and> (\<exists>k. n \<le> k \<and> k \<le> length bs \<and> r = int k \<and> (k < length bs \<longrightarrow> short w')
         \<and> lookup w' p = Some (f\<lparr>content := content f @ take (k - n) (drop n bs)\<rparr>))"
  using assms
proof (induction p bs n w arbitrary: f rule: FileSink_loop.induct)
  case (1 p bs n w)
  show ?case
  proof (cases "n < length bs")
    case False
    with 1(2-4) show ?thesis by (auto simp: FileSink_loop.simps [of p bs n])
  next
    case True
    obtain m w1 where m: "write_file p (drop n bs) w = (m, w1)" by (cases "write_file p (drop n bs) w")
    note t = write_file_touches [OF m] short_kept(7) [OF m]
    show ?thesis
    proof (cases "m \<le> 0")
      case le: True
      with 1(2) True m have w': "r = int n" "w' = w1\<lparr>short := True\<rparr>"
        by (auto simp: FileSink_loop.simps [of p bs n])
      have "lookup w1 p = Some f" using write_file_result [OF m 1(3)] le True
        by (auto simp: min_def split: if_splits)
      with w' t True show ?thesis by (auto simp: touches_def lookup_def intro!: exI [of _ n])
    next
      case gt: False
      with write_file_result [OF m 1(3)] obtain k where
        k: "m = int (length (take k (drop n bs)))"
          "lookup w1 p = Some (f\<lparr>content := content f @ take k (drop n bs)\<rparr>)" by auto
      define j where "j = length (take k (drop n bs))"
      have j: "m = int j" "take k (drop n bs) = take j (drop n bs)" "n + j \<le> length bs"
        using k(1) True by (auto simp: j_def min_def)
      from 1(2) True m gt j have "FileSink_loop p bs (n + j) w1 = (r, w')"
        by (simp add: FileSink_loop.simps [of p bs n])
      from 1(1) [OF True m [symmetric] gt, unfolded j(1) nat_int, OF this k(2) j(3)]
      obtain i where i: "touches ((=) p) w1 w'" "short w1 \<longrightarrow> short w'" "n + j \<le> i" "i \<le> length bs"
        "r = int i" "i < length bs \<longrightarrow> short w'"
        "lookup w' p = Some (f\<lparr>content := (content f @ take j (drop n bs)) @ take (i - (n + j)) (drop (n + j) bs)\<rparr>)"
        by (auto simp: j(2))
      have "take j (drop n bs) @ take (i - (n + j)) (drop (n + j) bs) = take (i - n) (drop n bs)"
        using i(3) take_add [of j "i - (n + j)" "drop n bs"] by (simp add: add.commute)
      with i(7) have "lookup w' p = Some (f\<lparr>content := content f @ take (i - n) (drop n bs)\<rparr>)" by simp
      with i(2-6) t(2) touches_trans [OF t(1) i(1)] show ?thesis
        by (intro conjI exI [of _ i]) simp_all
    qed
  qed
qed

lemma FileSink_result:
  assumes "FileSink p bs w = (r, w')" "lookup w p = Some f"
  shows "touches ((=) p) w w'" "short w \<Longrightarrow> short w'"
    "\<exists>k \<le> length bs. r = int k \<and> (k < length bs \<longrightarrow> short w')
      \<and> lookup w' p = Some (f\<lparr>content := content f @ take k bs\<rparr>)"
  using FileSink_loop_result [of p bs 0 w r w' f] assms by (auto simp: FileSink_def)

section \<open>Lemmas on loading and saving\<close>

text \<open>What is compared with a digest: the contents with the address randomisation masked.\<close>

definition masked :: "byte list \<Rightarrow> byte list option" where
  "masked bs = (case retouch_mask_data bs (Some 0) of
     Some (r, bs', off) \<Rightarrow> if r = RETOUCH_DATA_MATCHED then Some bs' else None
   | None \<Rightarrow> None)"

text \<open>Reading uses up events and changes nothing else.\<close>

definition tape_only :: "world \<Rightarrow> world \<Rightarrow> bool" where
  "tape_only w w' \<longleftrightarrow> w' = w\<lparr>tape := tape w'\<rparr>"

lemma tape_only_refl [simp]: "tape_only w w"
  by (simp add: tape_only_def)

lemma tape_only_trans: "tape_only w w' \<Longrightarrow> tape_only w' w'' \<Longrightarrow> tape_only w w''"
  unfolding tape_only_def by (metis world.update_convs(5) world.surjective world.select_convs(5))

lemma tape_only_dest:
  assumes "tape_only w w'"
  shows "touches P w w'" "lookup w' p = lookup w p" "short w' = short w" "files w' = files w"
    "history w' = history w" "devices w' = devices w" "mtd w' = mtd w" "proc w' = proc w"
proof -
  from assms have w': "w' = w\<lparr>tape := tape w'\<rparr>" by (simp add: tape_only_def)
  show "touches P w w'" "lookup w' p = lookup w p" "short w' = short w" "files w' = files w"
    "history w' = history w" "devices w' = devices w" "mtd w' = mtd w" "proc w' = proc w"
    by (subst w'; simp)+
qed

lemma draw_tape_only: "draw w = (e, w') \<Longrightarrow> tape_only w w'"
  by (auto simp: draw_def tape_only_def)

lemma stat_tape_only: "stat p w = (r, w') \<Longrightarrow> tape_only w w'"
  by (auto simp: stat_def draw_def tape_only_def)

lemma read_file_tape_only: "read_file p n w = (r, w') \<Longrightarrow> tape_only w w'"
  by (auto simp: read_file_def draw_def tape_only_def split: event.splits option.splits list.splits)

lemma read_device_tape_only: "read_device d p n w = (r, w') \<Longrightarrow> tape_only w w'"
  by (auto simp: read_device_def draw_def tape_only_def)

lemma statfs_tape_only: "statfs p w = (r, w') \<Longrightarrow> tape_only w w'"
  by (auto simp: statfs_def draw_def tape_only_def)

lemma pair_loop_result:
  assumes "pair_loop sha dev pairs is data w = Some (r, n, w')"
  shows "tape_only w w' \<and> (\<forall>d. r = Some d \<longrightarrow> n = length d)"
  using assms
proof (induction sha dev pairs "is" data w rule: pair_loop.induct)
  case (2 sha dev pairs i "is" data w)
  let ?r = "if fst (pairs ! i) - length data > 0
    then read_device dev (length data) (fst (pairs ! i) - length data) w else ([], w)"
  obtain bs w1 where r: "?r = (bs, w1)" by (cases ?r)
  then have t1: "tape_only w w1"
    by (auto dest: read_device_tape_only split: if_splits)
  show ?case
  proof (cases "length bs = fst (pairs ! i) - length data \<and> (\<exists>s p. snd (pairs ! i) = Some s
      \<and> ParseSha1 s = Some p \<and> memcmp (sha (data @ bs)) p SHA_DIGEST_SIZE \<noteq> 0)")
    case True
    then obtain s p where s: "snd (pairs ! i) = Some s" "ParseSha1 s = Some p"
      "memcmp (sha (data @ bs)) p SHA_DIGEST_SIZE \<noteq> 0" by blast
    have "pair_loop sha dev pairs is (data @ bs) w1 = Some (r, n, w')"
      using 2(2) True r s by (simp add: Let_def)
    from 2(1) [OF refl r [symmetric] refl _ s this] True t1 show ?thesis
      by (auto intro: tape_only_trans)
  next
    case False
    with 2(2) r t1 show ?thesis
      by (auto simp: Let_def split: if_splits option.splits)
  qed
qed auto

lemma LoadPartitionContents_result:
  assumes "LoadPartitionContents sha p fc w = Some (r, fc', w')" "fc_data fc = None"
  shows "tape_only w w'" "r = 0 \<and> (\<exists>d. fc_data fc' = Some d \<and> fc_size fc' = Some (int (length d))
      \<and> fc_sha1 fc' = sha d) \<or> r = - 1 \<and> fc_data fc' = None"
  using assms
  by (auto simp: LoadPartitionContents_def Let_def
      split: list.splits bind_splits option.splits if_splits prod.splits
      dest!: draw_tape_only pair_loop_result intro: tape_only_trans)

lemma LoadFileContents_result:
  assumes "LoadFileContents sha p fc True w = Some (r, fc', w')"
  shows "tape_only w w'"
    "r = 0 \<and> (\<exists>d. fc_data fc' = Some d \<and> fc_size fc' = Some (int (length d)) \<and> fc_sha1 fc' = sha d
        \<and> (\<not> is_partition p \<longrightarrow> (\<exists>f. lookup w p = Some f \<and> masked (content f) = Some d)))
     \<or> r = - 1 \<and> fc_data fc' = None"
proof -
  let ?g = "r = 0 \<and> (\<exists>d. fc_data fc' = Some d \<and> fc_size fc' = Some (int (length d)) \<and> fc_sha1 fc' = sha d
        \<and> (\<not> is_partition p \<longrightarrow> (\<exists>f. lookup w p = Some f \<and> masked (content f) = Some d)))
     \<or> r = - 1 \<and> fc_data fc' = None"
  have "tape_only w w' \<and> ?g"
  proof (cases "is_partition p")
    case True
    with assms LoadPartitionContents_result [of sha p "fc\<lparr>fc_data := None\<rparr>" w r fc' w']
    show ?thesis by (auto simp: LoadFileContents_def)
  next
    case False
    obtain sf w1 where s: "stat p w = (sf, w1)" by (cases "stat p w")
    show ?thesis
    proof (cases sf)
      case None
      with False assms s show ?thesis by (auto simp: LoadFileContents_def dest: stat_tape_only)
    next
      case (Some f)
      then have f: "lookup w p = Some f" using stat_result [OF s] by simp
      obtain e w2 where e: "draw w1 = (e, w2)" by (cases "draw w1")
      obtain bs w3 where b: "read_file p (length (content f)) w2 = (bs, w3)"
        by (cases "read_file p (length (content f)) w2")
      note t = tape_only_trans [OF stat_tape_only [OF s] draw_tape_only [OF e]]
      note t3 = tape_only_trans [OF t read_file_tape_only [OF b]]
      have "lookup w2 p = Some f" using tape_only_dest(2) [OF t] f by simp
      then have "length bs = length (content f) \<Longrightarrow> bs = content f"
        using b by (auto simp: read_file_def draw_def split: event.splits list.splits)
      with False assms s Some e b t t3 f show ?thesis
        by (auto simp: LoadFileContents_def Let_def masked_def retouch_mask_data_length
            split: if_splits bind_splits)
    qed
  qed
  then show "tape_only w w'" ?g by blast+
qed

lemma SaveFileContents_result:
  assumes "SaveFileContents p fc w = Some (r, w')"
  shows "touches ((=) p) w w'"
    "r = 0 \<Longrightarrow> fc_data fc = Some d \<Longrightarrow> fc_size fc = Some (int (length d))
      \<Longrightarrow> \<exists>f. lookup w' p = Some f \<and> content f = d"
proof -
  obtain ok w1 where o: "open_trunc p w = (ok, w1)" by (cases "open_trunc p w")
  note t1 = open_trunc_touches [OF o]
  have "touches ((=) p) w w' \<and> (r = 0 \<and> fc_data fc = Some d \<and> fc_size fc = Some (int (length d))
      \<longrightarrow> (\<exists>f. lookup w' p = Some f \<and> content f = d))"
  proof (cases ok)
    case False
    with assms o t1 show ?thesis by (auto simp: SaveFileContents_def)
  next
    case True
    with o obtain f where f: "lookup w1 p = Some f" "content f = []"
      by (auto simp: open_trunc_def draw_def split: if_splits option.splits)
    obtain sz where fsz: "fc_size fc = Some sz"
      using assms o True by (auto simp: SaveFileContents_def split: bind_splits)
    define sink where "sink = (case fc_data fc of Some d \<Rightarrow> FileSink p (take (nat sz) d) w1
      | None \<Rightarrow> (0, if sz > 0 then w1\<lparr>short := True\<rparr> else w1))"
    obtain n w2 where n: "sink = (n, w2)" by (cases sink)
    have t2: "touches ((=) p) w1 w2"
      using n FileSink_result(1) [of p _ w1 n w2 f] f
      by (auto simp: sink_def touches_def split: option.splits if_splits)
    have full: "\<exists>f. lookup w2 p = Some f \<and> content f = d"
      if "fc_data fc = Some d" "sz = int (length d)" "n = sz"
      using n that FileSink_result(3) [of p d w1 n w2 f] f by (auto simp: sink_def)
    have run: "SaveFileContents p fc w = (if n \<noteq> sz then Some (- 1, w2)
        else (case chmod p (fc_mode fc) w2 of
          (r, w) \<Rightarrow>
            if r \<noteq> 0 then Some (- 1, w)
            else (case chown p (fc_uid fc) (fc_gid fc) w of
              (r, w) \<Rightarrow> Some (if r \<noteq> 0 then - 1 else 0, w))))"
      using o True fsz n unfolding sink_def by (simp add: SaveFileContents_def)
    obtain r3 w3 where m: "chmod p (fc_mode fc) w2 = (r3, w3)" by (cases "chmod p (fc_mode fc) w2")
    obtain r4 w4 where ch: "chown p (fc_uid fc) (fc_gid fc) w3 = (r4, w4)"
      by (cases "chown p (fc_uid fc) (fc_gid fc) w3")
    note t12 = touches_trans [OF t1 t2]
    note t123 = touches_trans [OF t12 chmod_touches [OF m]]
    note t1234 = touches_trans [OF t123 chown_touches [OF ch]]
    have keep: "\<exists>f. lookup w4 p = Some f \<and> content f = d" if "\<exists>f. lookup w2 p = Some f \<and> content f = d"
      using that m ch by (auto simp: chmod_def chown_def draw_def split: if_splits)
    show ?thesis
      using assms fsz t12 t123 t1234 keep full
      by (auto simp: run m ch split: if_splits)
  qed
  then show "touches ((=) p) w w'"
    "r = 0 \<Longrightarrow> fc_data fc = Some d \<Longrightarrow> fc_size fc = Some (int (length d))
      \<Longrightarrow> \<exists>f. lookup w' p = Some f \<and> content f = d" by blast+
qed

section \<open>Partition names\<close>

definition partition_name :: "string \<Rightarrow> string \<Rightarrow> (nat \<times> byte list) list \<Rightarrow> string" where
  "partition_name magic name pairs =
     magic @ concat (map ((#) CHR '':'')
       (name # concat (map (\<lambda>(n, d). [show_nat n, hex_string d]) pairs)))"

lemma strtok_all_fields:
  assumes "\<forall>x \<in> set (x # xs). x \<noteq> [] \<and> d \<notin> set x"
  shows "strtok_all d (x @ concat (map ((#) d) xs)) = x # xs"
  using assms
proof (induction xs arbitrary: x)
  case Nil
  then have x: "x \<noteq> []" "d \<notin> set x" by auto
  then have eqs: "takeWhile ((\<noteq>) d) x = x" "dropWhile ((\<noteq>) d) x = []" by auto
  from x have "dropWhile ((=) d) x = x" by (cases x) auto
  with x(1) have "strtok_all d x = takeWhile ((\<noteq>) d) x # strtok_all d (dropWhile ((\<noteq>) d) x)"
    by (subst strtok_all.simps) (simp add: Let_def)
  also have "\<dots> = [x]" unfolding eqs by (simp add: strtok_all.simps [of d "[]"])
  finally show ?case by simp
next
  case (Cons y ys)
  let ?r = "y @ concat (map ((#) d) ys)"
  have x: "hd (x @ d # ?r) \<noteq> d" "takeWhile ((\<noteq>) d) (x @ d # ?r) = x"
    "dropWhile ((\<noteq>) d) (x @ d # ?r) = d # ?r"
    using Cons.prems by (auto simp: takeWhile_append dropWhile_append hd_append intro: hd_in_set)
  have "strtok_all d (d # ?r) = strtok_all d ?r"
    by (simp add: strtok_all.simps [of d "d # _"] strtok_all.simps [of d ?r])
  also have "\<dots> = y # ys" using Cons.IH [of y] Cons.prems by simp
  finally show ?case
    using x Cons.prems by (auto simp: strtok_all.simps [of d "x @ _"] Let_def neq_Nil_conv)
qed

lemma isdigit_no_colon: "CHR '':'' \<notin> set (show_nat n)"
  using isdigit_show_nat [of "CHR '':''" n] by (auto simp: isdigit_def)

lemma hex_no_colon: "CHR '':'' \<notin> set (hex_string d)"
proof -
  have "CHR '':'' \<noteq> hex_char n" if "n < 16" for n
  proof
    assume "CHR '':'' = hex_char n"
    then have "hex_digit (CHR '':'') = Some n" using hex_digit_char [OF that] by simp
    then show False by (simp add: hex_digit_def Let_def)
  qed
  moreover have "unat (x :: byte) div 16 < 16" for x
    using unsigned_less [of x, where 'a = nat] by simp
  ultimately show ?thesis by (auto simp: hex_string_def)
qed

lemma parse_pairs_fields:
  assumes "\<forall>(n, d) \<in> set pairs. 0 < n \<and> int n \<le> LONG_MAX"
  shows "parse_pairs (length pairs) (concat (map (\<lambda>(n, d). [show_nat n, hex_string d]) pairs))
    = Some (Some (map (\<lambda>(n, d). (n, Some (hex_string d))) pairs))"
  using assms
proof (induction pairs)
  case (Cons p pairs)
  obtain n d where p: "p = (n, d)" by (cases p)
  with Cons.prems have n: "0 < n" "int n \<le> LONG_MAX" by auto
  then have "strtol10 (show_nat n) = (int n, [])"
    using strtol10_show_int [of "int n"] by (simp add: show_int_def LONG_MIN_def)
  moreover have "unat (word_of_int (int n) :: 32 word) = n"
    using n by (simp add: unsigned_of_nat take_bit_nat_eq_self LONG_MAX_def)
  ultimately show ?case using Cons n p by simp
qed simp

section \<open>Sorting and reading\<close>

lemma set_insert_cmp [simp]: "set (insert_cmp cmp x xs) = insert x (set xs)"
  by (induction xs) auto

lemma set_qsort [simp]: "set (qsort cmp xs) = set xs"
  by (induction xs) (auto simp: qsort_def)

lemma sorted_insert_cmp:
  "sorted (map ((!) sz) xs) \<Longrightarrow> sorted (map ((!) sz) (insert_cmp (compare_size_indices sz) x xs))"
  by (induction xs) (auto simp: compare_size_indices_def split: if_splits)

lemma sorted_qsort: "sorted (map ((!) sz) (qsort (compare_size_indices sz) xs))"
proof (induction xs)
  case (Cons x xs)
  from sorted_insert_cmp [OF this] show ?case by (simp add: qsort_def)
qed (simp add: qsort_def)

text \<open>A pair matches a device when the digest is that of the prefix of its size.\<close>

definition pair_matches :: "(byte list \<Rightarrow> byte list) \<Rightarrow> byte list \<Rightarrow> nat \<times> byte list \<Rightarrow> bool" where
  "pair_matches sha dev p \<longleftrightarrow> fst p \<le> length dev \<and> sha (take (fst p) dev) = snd p"

lemma read_device_all: "tape w = [] \<Longrightarrow> read_device dev pos n w = (take n (drop pos dev), w)"
  by (simp add: read_device_def draw_def)

lemma pair_loop_step:
  assumes "(if fst (pairs ! i) - length data > 0
      then read_device dev (length data) (fst (pairs ! i) - length data) w else ([], w)) = (bs, w1)"
  shows "pair_loop sha dev pairs (i # is) data w =
    (if length bs \<noteq> fst (pairs ! i) - length data then Some (None, length data, w1)
     else (case snd (pairs ! i) of
             None \<Rightarrow> None
           | Some s \<Rightarrow>
               (case ParseSha1 s of
                  None \<Rightarrow> Some (None, length (data @ bs), w1)
                | Some parsed_sha \<Rightarrow>
                    if memcmp (sha (data @ bs)) parsed_sha SHA_DIGEST_SIZE = 0
                    then Some (Some (data @ bs), length (data @ bs), w1)
                    else pair_loop sha dev pairs is (data @ bs) w1)))"
  using assms by (simp only: pair_loop.simps Let_def prod.case)

lemma pair_loop_finds:
  assumes "tape w = []" "\<forall>bs. length (sha bs) = 20" "sorted (map (\<lambda>i. fst (ps ! i)) is)"
    and "\<forall>i \<in> set is. i < length ps \<and> length (snd (ps ! i)) = 20 \<and> k \<le> fst (ps ! i)"
    and "k \<le> length dev"
  shows "\<exists>r n. pair_loop sha dev (map (\<lambda>(n, d). (n, Some (hex_string d))) ps) is (take k dev) w = Some (r, n, w)
    \<and> (case r of
         None \<Rightarrow> \<forall>i \<in> set is. \<not> pair_matches sha dev (ps ! i)
       | Some x \<Rightarrow> \<exists>i \<in> set is. pair_matches sha dev (ps ! i) \<and> x = take (fst (ps ! i)) dev
           \<and> (\<forall>j \<in> set is. fst (ps ! j) < fst (ps ! i) \<longrightarrow> \<not> pair_matches sha dev (ps ! j)))"
  using assms(3-)
proof (induction "is" arbitrary: k)
  case (Cons i "is")
  define n d where "n = fst (ps ! i)" and "d = snd (ps ! i)"
  let ?ps = "map (\<lambda>(n, d). (n, Some (hex_string d))) ps"
  have i: "?ps ! i = (n, Some (hex_string d))" "ps ! i = (n, d)" "k \<le> n"
    using Cons.prems by (auto simp: n_def d_def case_prod_unfold)
  have d: "ParseSha1 (hex_string d) = Some d" "length d = 20"
    using Cons.prems by (auto simp: d_def intro: ParseSha1_hex_string)
  have k: "length (take k dev) = k" using Cons.prems by simp
  have read: "(if fst (?ps ! i) - length (take k dev) > 0
      then read_device dev (length (take k dev)) (fst (?ps ! i) - length (take k dev)) w else ([], w))
    = (take (n - k) (drop k dev), w)"
    unfolding i k using assms(1) by (simp add: read_device_all)
  note step = pair_loop_step [OF read, of sha "is", unfolded i k fst_conv snd_conv option.case d(1)]
  show ?case
  proof (cases "n \<le> length dev")
    case False
    then have len: "length (take (n - k) (drop k dev)) \<noteq> n - k"
      using Cons.prems(3) i(3) by auto
    have "\<not> pair_matches sha dev (ps ! j)" if "j \<in> set (i # is)" for j
      using that False Cons.prems(1) i(2) by (fastforce simp: pair_matches_def)
    then show ?thesis unfolding step if_P [OF len] by simp
  next
    case True
    then have len: "length (take (n - k) (drop k dev)) = n - k"
      and app: "take k dev @ take (n - k) (drop k dev) = take n dev"
      using i(3) take_add [of k "n - k" dev] by simp_all
    have cmp: "memcmp (sha (take n dev)) d SHA_DIGEST_SIZE = 0 \<longleftrightarrow> sha (take n dev) = d"
      using d assms(2) memcmp_eq_0 [of "sha (take n dev)" d] by (simp add: SHA_DIGEST_SIZE_def)
    note step = step [unfolded app cmp if_not_P [OF not_not [THEN iffD2, OF len]]]
    show ?thesis
    proof (cases "sha (take n dev) = d")
      case match: True
      have "\<forall>j \<in> set is. n \<le> fst (ps ! j)" using Cons.prems(1) i(2) by auto
      with match True i(2) show ?thesis unfolding step
        by (auto simp: pair_matches_def intro!: bexI [of _ i])
    next
      case False
      have "\<not> pair_matches sha dev (ps ! i)" using False i(2) by (simp add: pair_matches_def)
      moreover obtain r m where "pair_loop sha dev ?ps is (take n dev) w = Some (r, m, w)"
        "case r of
           None \<Rightarrow> \<forall>i \<in> set is. \<not> pair_matches sha dev (ps ! i)
         | Some x \<Rightarrow> \<exists>i \<in> set is. pair_matches sha dev (ps ! i) \<and> x = take (fst (ps ! i)) dev
             \<and> (\<forall>j \<in> set is. fst (ps ! j) < fst (ps ! i) \<longrightarrow> \<not> pair_matches sha dev (ps ! j))"
        using Cons.IH [of n] Cons.prems True i(2) by auto
      ultimately show ?thesis unfolding step using False
        by (intro exI [of _ r] exI [of _ m]) (auto split: option.splits)
    qed
  qed
qed simp

lemma load_partition_finds:
  assumes "\<forall>bs. length (sha bs) = 20"
    and "magic = ''MTD'' \<and> map_of (mtd w) part = Some dev \<or> magic = ''EMMC'' \<and> map_of (devices w) part = Some dev"
    and "tape w = []" "part \<noteq> []" "CHR '':'' \<notin> set part" "pairs \<noteq> []"
    and "\<forall>(n, d) \<in> set pairs. 0 < n \<and> int n \<le> LONG_MAX \<and> length d = 20"
  shows "\<exists>r fc'. LoadFileContents sha (partition_name magic part pairs) fc flag w = Some (r, fc', w)
    \<and> (r = 0 \<longleftrightarrow> (\<exists>p \<in> set pairs. pair_matches sha dev p))
    \<and> (r = 0 \<longrightarrow> (\<exists>p \<in> set pairs. pair_matches sha dev p \<and> fc_data fc' = Some (take (fst p) dev)
          \<and> fc_size fc' = Some (int (fst p)) \<and> fc_sha1 fc' = snd p
          \<and> (\<forall>q \<in> set pairs. fst q < fst p \<longrightarrow> \<not> pair_matches sha dev q)))"
proof -
  let ?toks = "concat (map (\<lambda>(n, d). [show_nat n, hex_string d]) pairs)"
  let ?name = "partition_name magic part pairs"
  define ps where "ps = map (\<lambda>(n, d). (n, Some (hex_string d))) pairs"
  let ?index = "qsort (compare_size_indices (map fst ps)) [0..<length pairs]"
  have magic: "magic \<noteq> []" "CHR '':'' \<notin> set magic" "magic = ''MTD'' \<or> magic = ''EMMC''"
    using assms(2) by auto
  have hex: "hex_string d \<noteq> []" if "length d = 20" for d
    using ParseSha1_length [OF ParseSha1_hex_string [OF that]] by auto
  then have fields: "\<forall>x \<in> set (magic # part # ?toks). x \<noteq> [] \<and> CHR '':'' \<notin> set x"
    using magic assms(4,5,7) by (auto simp: isdigit_no_colon hex_no_colon show_nat_nonempty)
  have toks: "strtok_all CHR '':'' ?name = magic # part # ?toks"
    unfolding partition_name_def by (rule strtok_all_fields [OF fields])
  have "length (filter ((=) CHR '':'') (concat (map ((#) CHR '':'') xs))) = length xs"
    if "\<forall>x \<in> set xs. CHR '':'' \<notin> set x" for xs
    using that by (induction xs) (auto simp: filter_empty_conv)
  from this [of "part # ?toks"] fields
  have "length (filter ((=) CHR '':'') ?name) = length (part # ?toks)"
    using magic(2) by (auto simp: partition_name_def filter_empty_conv)
  then have count: "(length (filter ((=) CHR '':'') ?name) - 1) div 2 = length pairs"
    by (simp add: length_concat comp_def case_prod_unfold sum_list_triv)
  have part: "is_partition ?name"
    using magic(3) by (auto simp: is_partition_def partition_name_def)
  have pairs: "parse_pairs (length pairs) ?toks = Some (Some ps)"
    unfolding ps_def using assms(7) by (intro parse_pairs_fields) auto
  have sizes: "map (\<lambda>i. fst (pairs ! i)) ?index = map ((!) (map fst ps)) ?index"
    by (rule map_cong) (auto simp: ps_def case_prod_unfold)
  have sorted: "sorted (map (\<lambda>i. fst (pairs ! i)) ?index)"
    unfolding sizes by (rule sorted_qsort)
  have all: "\<forall>i \<in> set ?index. i < length pairs \<and> length (snd (pairs ! i)) = 20 \<and> 0 \<le> fst (pairs ! i)"
    using assms(7) by (force dest: nth_mem)
  obtain r n where loop: "pair_loop sha dev ps ?index [] w = Some (r, n, w)"
    and res: "case r of
         None \<Rightarrow> \<forall>i \<in> set ?index. \<not> pair_matches sha dev (pairs ! i)
       | Some x \<Rightarrow> \<exists>i \<in> set ?index. pair_matches sha dev (pairs ! i) \<and> x = take (fst (pairs ! i)) dev
           \<and> (\<forall>j \<in> set ?index. fst (pairs ! j) < fst (pairs ! i) \<longrightarrow> \<not> pair_matches sha dev (pairs ! j))"
    using pair_loop_finds [OF assms(3,1) sorted all, where dev = dev] by (auto simp: ps_def)
  have n: "n = length d" if "r = Some d" for d
    using pair_loop_result [OF loop] that by blast
  have dev: "draw w = (Ok, w)" using assms(3) by (simp add: draw_def)
  have load: "LoadFileContents sha ?name fc flag w = (case r of
      None \<Rightarrow> Some (- 1, fc\<lparr>fc_data := None, fc_size := Some (int n)\<rparr>, w)
    | Some d \<Rightarrow> Some (0, fc\<lparr>fc_data := Some d, fc_size := Some (int n), fc_sha1 := sha d,
                          fc_mode := 420, fc_uid := 0, fc_gid := 0\<rparr>, w))"
    using assms(2,6) part toks pairs loop dev count
    by (auto simp: LoadFileContents_def LoadPartitionContents_def Let_def
        simp del: One_nat_def split: option.splits)
  have ex: "(\<exists>i \<in> set ?index. P (pairs ! i)) \<longleftrightarrow> (\<exists>p \<in> set pairs. P p)" for P
    by (simp add: Bex_def in_set_conv_nth del: split_paired_Ex) blast
  have ball: "(\<forall>i \<in> set ?index. P (pairs ! i)) \<longleftrightarrow> (\<forall>p \<in> set pairs. P p)" for P
    by (simp add: Ball_def in_set_conv_nth del: split_paired_All) blast
  show ?thesis
  proof (cases r)
    case None
    with res have "\<forall>p \<in> set pairs. \<not> pair_matches sha dev p"
      using ball [of "\<lambda>p. \<not> pair_matches sha dev p"] by simp
    then show ?thesis unfolding load None by auto
  next
    case (Some x)
    with res have "\<exists>p \<in> set pairs. pair_matches sha dev p \<and> x = take (fst p) dev
        \<and> (\<forall>q \<in> set pairs. fst q < fst p \<longrightarrow> \<not> pair_matches sha dev q)"
      unfolding ex [symmetric] ball [symmetric] by simp
    then show ?thesis unfolding load Some using n [OF Some]
      by (fastforce simp: pair_matches_def)
  qed
qed

section \<open>Properties\<close>

text \<open>
  Digests print and parse: the 40 hexadecimal digits of a 20 byte digest parse to that digest,
  and whatever string is accepted has exactly 40 characters.
\<close>

theorem ParseSha1_roundtrip:
  assumes "length digest = SHA_DIGEST_SIZE"
  shows "ParseSha1 (hex_string digest) = Some digest \<and> length (hex_string digest) = 40"
  using assms ParseSha1_hex_string [of digest] ParseSha1_length [of "hex_string digest"]
  by (simp add: SHA_DIGEST_SIZE_def)

theorem ParseSha1_roundtrip_witness:
  "ParseSha1 (hex_string (replicate 20 0xA5)) = Some (replicate 20 0xA5)
    \<and> length (hex_string (replicate 20 0xA5)) = 40"
  by (rule ParseSha1_roundtrip) (simp add: SHA_DIGEST_SIZE_def)

text \<open>
  C25. Loading a partition by a name that lists sizes and digests, when every read succeeds: the load
  succeeds exactly when one of the listed prefixes of the partition has its digest, and then it
  yields the smallest such prefix, with its size and digest.  This holds in whatever order
  the pairs are listed.
\<close>

theorem LoadFileContents_partition:
  assumes "\<forall>bs. length (sha bs) = 20"
    and "magic = ''MTD'' \<and> map_of (mtd w) part = Some dev \<or> magic = ''EMMC'' \<and> map_of (devices w) part = Some dev"
    and "tape w = []" "part \<noteq> []" "CHR '':'' \<notin> set part" "pairs \<noteq> []"
    and "\<forall>(n, d) \<in> set pairs. 0 < n \<and> int n \<le> LONG_MAX \<and> length d = 20"
  shows "\<exists>r fc'. LoadFileContents sha (partition_name magic part pairs) fc flag w = Some (r, fc', w)
    \<and> (r = 0 \<longleftrightarrow> (\<exists>p \<in> set pairs. pair_matches sha dev p))
    \<and> (r = 0 \<longrightarrow> (\<exists>p \<in> set pairs. pair_matches sha dev p \<and> fc_data fc' = Some (take (fst p) dev)
          \<and> fc_size fc' = Some (int (fst p)) \<and> fc_sha1 fc' = snd p
          \<and> (\<forall>q \<in> set pairs. fst q < fst p \<longrightarrow> \<not> pair_matches sha dev q)))"
  using assms by (rule load_partition_finds)

text \<open>A digest function of the right size and a system with one MTD partition and one file.\<close>

definition toy_sha :: "byte list \<Rightarrow> byte list" where
  "toy_sha bs = take 20 (bs @ replicate 20 0)"

lemma length_toy_sha [simp]: "length (toy_sha bs) = 20"
  by (simp add: toy_sha_def)

definition sample_world :: world where
  "sample_world = \<lparr>files = [(''/system/a'', \<lparr>content = [7, 8], st_mode = 420, st_uid = 0, st_gid = 0\<rparr>)],
     devices = [], mtd = [(''boot'', [1, 2, 3])], proc = None, tape = [], history = [], short = False\<rparr>"

lemma toy_sha_size: "\<forall>bs. length (toy_sha bs) = 20"
  by simp

theorem LoadFileContents_partition_witness:
  "\<exists>fc'. LoadFileContents toy_sha
        (partition_name ''MTD'' ''boot'' [(3, toy_sha [1, 2, 3]), (2, toy_sha [1, 2])])
        no_contents True sample_world = Some (0, fc', sample_world)
    \<and> fc_data fc' = Some [1, 2] \<and> fc_size fc' = Some 2"
proof -
  have m: "pair_matches toy_sha [1, 2, 3] (2, toy_sha [1, 2])" by (simp add: pair_matches_def)
  have "\<exists>r fc'. LoadFileContents toy_sha
        (partition_name ''MTD'' ''boot'' [(3, toy_sha [1, 2, 3]), (2, toy_sha [1, 2])])
        no_contents True sample_world = Some (r, fc', sample_world)
    \<and> (r = 0 \<longleftrightarrow> (\<exists>p \<in> set [(3, toy_sha [1, 2, 3]), (2, toy_sha [1, 2])].
          pair_matches toy_sha [1, 2, 3] p))
    \<and> (r = 0 \<longrightarrow> (\<exists>p \<in> set [(3, toy_sha [1, 2, 3]), (2, toy_sha [1, 2])].
          pair_matches toy_sha [1, 2, 3] p \<and> fc_data fc' = Some (take (fst p) [1, 2, 3])
          \<and> fc_size fc' = Some (int (fst p)) \<and> fc_sha1 fc' = snd p
          \<and> (\<forall>q \<in> set [(3, toy_sha [1, 2, 3]), (2, toy_sha [1, 2])].
               fst q < fst p \<longrightarrow> \<not> pair_matches toy_sha [1, 2, 3] q)))"
    by (rule LoadFileContents_partition [OF toy_sha_size])
      (simp_all add: sample_world_def LONG_MAX_def)
  with m show ?thesis by auto
qed

text \<open>What a path holds, as \<open>LoadFileContents\<close> sees it.\<close>

definition loaded :: "world \<Rightarrow> path \<Rightarrow> byte list option" where
  "loaded w p = Option.bind (lookup w p) (\<lambda>f. masked (content f))"

definition expected :: "(byte list \<Rightarrow> byte list) \<Rightarrow> string list \<Rightarrow> byte list \<Rightarrow> bool" where
  "expected sha strs m \<longleftrightarrow> (\<exists>s \<in> set strs. ParseSha1 s = Some (sha m))"

lemma LoadFileContents_quiet:
  assumes "tape w = []" "\<not> is_partition p" "\<forall>f. lookup w p = Some f \<longrightarrow> length (content f) < 2 ^ 31"
  shows "\<exists>r fc'. LoadFileContents sha p fc True w = Some (r, fc', w) \<and> (r = 0 \<longleftrightarrow> loaded w p \<noteq> None)
    \<and> (\<forall>m. loaded w p = Some m \<longrightarrow> fc_sha1 fc' = sha m)"
proof (cases "lookup w p")
  case None
  with assms show ?thesis
    by (simp add: LoadFileContents_def stat_def draw_def loaded_def)
next
  case (Some f)
  with assms obtain r bs off where r: "retouch_mask_data (content f) (Some 0) = Some (r, bs, off)"
    using retouch_mask_data_defined [of "content f"] by blast
  have q: "draw w = (Ok, w)" using assms(1) by (simp add: draw_def)
  have "read_file p (length (content f)) w = (content f, w)" "stat p w = (Some f, w)"
    using Some q by (simp_all add: read_file_def stat_def)
  with assms(2) Some r q show ?thesis
    by (simp add: LoadFileContents_def Let_def loaded_def masked_def)
qed



end
