(* ===== verification/FreeCache.thy ===== *)
theory FreeCache
  imports LoadSave
begin

text \<open>
  \<open>applypatch/freecache.c\<close> and the two functions on free space of \<open>applypatch/applypatch.c\<close>: making
  room on \<open>/cache\<close> by deleting files nobody has open, never the saved copy of a file that is
  being patched.  A directory is read in the order of the list of files; only regular files
  are modelled.  The free space is a \<open>size_t\<close> of 32 bits, so the product of block size and free blocks
  wraps, and the -1 of a failed \<open>statfs\<close> is the largest value.
\<close>

definition FreeSpaceForFile :: "path \<Rightarrow> world \<Rightarrow> nat \<times> world" where
  "FreeSpaceForFile filename w =
     (case statfs filename w of
        (None, w) \<Rightarrow> (2 ^ 32 - 1, w)
      | (Some (bsize, bfree), w) \<Rightarrow> (bsize * bfree mod 2 ^ 32, w))"

section \<open>Files that may be deleted\<close>

text \<open>The names that a link of a process matches are cleared, \<open>None\<close> is a null pointer.\<close>

definition clear_link :: "path \<Rightarrow> path option list \<Rightarrow> path option list" where
  "clear_link l fs =
     (if take 7 l = ''/cache/'' then map (\<lambda>f. if f = Some l then None else f) fs else fs)"

definition clear_process ::
  "string \<times> path option list option \<Rightarrow> path option list \<Rightarrow> path option list" where
  "clear_process de fs =
     (if \<not> list_all isdigit (fst de) then fs
      else (case snd de of
              None \<Rightarrow> fs
            | Some links \<Rightarrow>
                fold (\<lambda>l fs. case l of None \<Rightarrow> fs | Some l \<Rightarrow> clear_link l fs) links fs))"

definition EliminateOpenFiles :: "path option list \<Rightarrow> world \<Rightarrow> int \<times> path option list" where
  "EliminateOpenFiles fs w =
     (case proc w of None \<Rightarrow> (- 1, fs) | Some es \<Rightarrow> (0, fold clear_process es fs))"

definition in_dir :: "path \<Rightarrow> path \<Rightarrow> bool" where
  "in_dir d p \<longleftrightarrow> (let n = length d + 1 in
     take n p = d @ ''/'' \<and> drop n p \<noteq> [] \<and> CHR ''/'' \<notin> set (drop n p))"

fun scan_entries :: "path list \<Rightarrow> path option list \<Rightarrow> world \<Rightarrow> path option list \<times> world" where
  "scan_entries [] names w = (names, w)"
| "scan_entries (path # ps) names w =
     (if path = CACHE_TEMP_SOURCE then scan_entries ps names w
      else (case stat path w of
              (None, w) \<Rightarrow> scan_entries ps names w
            | (Some st, w) \<Rightarrow> scan_entries ps (names @ [Some path]) w))"

definition scan_dir :: "path \<Rightarrow> path option list \<Rightarrow> world \<Rightarrow> path option list \<times> world" where
  "scan_dir d names w = (case draw w of (e, w) \<Rightarrow>
     if e = Fail then (names, w) else scan_entries (filter (in_dir d) (map fst (files w))) names w)"

definition FindExpendableFiles :: "world \<Rightarrow> int \<times> path option list \<times> world" where
  "FindExpendableFiles w =
     (case scan_dir ''/cache'' [] w of
        (names, w) \<Rightarrow>
          (case scan_dir ''/cache/recovery/otatest'' names w of
             (names, w) \<Rightarrow>
               (case EliminateOpenFiles names w of
                  (r, names) \<Rightarrow> (if r < 0 then - 1 else 0, names, w))))"

fun delete_loop :: "path option list \<Rightarrow> nat \<Rightarrow> nat \<Rightarrow> world \<Rightarrow> nat \<times> world" where
  "delete_loop [] bytes_needed free_now w = (free_now, w)"
| "delete_loop (name # names) bytes_needed free_now w =
     (if free_now < bytes_needed then
        (case name of
           None \<Rightarrow> delete_loop names bytes_needed free_now w
         | Some p \<Rightarrow>
             (case unlink p w of
                (_, w) \<Rightarrow>
                  (case FreeSpaceForFile ''/cache'' w of
                     (free_now, w) \<Rightarrow> delete_loop names bytes_needed free_now w)))
      else (free_now, w))"

definition MakeFreeSpaceOnCache :: "int \<Rightarrow> world \<Rightarrow> int \<times> world" where
  "MakeFreeSpaceOnCache bytes w =
     (let bytes_needed = nat (bytes mod 2 ^ 32) in
      case FreeSpaceForFile ''/cache'' w of
        (free_now, w) \<Rightarrow>
          if free_now \<ge> bytes_needed then (0, w)
          else (case FindExpendableFiles w of
                  (r, names, w) \<Rightarrow>
                    if r < 0 then (- 1, w)
                    else if names = [] then (- 1, w)
                    else (case delete_loop names bytes_needed free_now w of
                            (free_now, w) \<Rightarrow> (if free_now \<ge> bytes_needed then 0 else - 1, w))))"

definition CacheSizeCheck :: "nat \<Rightarrow> world \<Rightarrow> int \<times> world" where
  "CacheSizeCheck bytes w =
     (case MakeFreeSpaceOnCache (int bytes) w of (r, w) \<Rightarrow> (if r < 0 then 1 else 0, w))"

section \<open>What may be deleted\<close>

definition deletable :: "path \<Rightarrow> bool" where
  "deletable p \<longleftrightarrow> (in_dir ''/cache'' p \<or> in_dir ''/cache/recovery/otatest'' p) \<and> p \<noteq> CACHE_TEMP_SOURCE"

text \<open>The links of the processes: what some process has open.\<close>

definition is_open :: "world \<Rightarrow> path \<Rightarrow> bool" where
  "is_open w p \<longleftrightarrow> (\<exists>es. proc w = Some es \<and>
     (\<exists>(name, links) \<in> set es. list_all isdigit name \<and> (\<exists>ls. links = Some ls \<and> Some p \<in> set ls)))"

text \<open>From \<open>w\<close> to \<open>w'\<close>, at all times, some files with property \<open>P\<close> were removed and nothing else.\<close>

definition only_removes :: "(path \<Rightarrow> bool) \<Rightarrow> world \<Rightarrow> world \<Rightarrow> bool" where
  "only_removes P w w' \<longleftrightarrow> touches P w w' \<and> (\<forall>p. lookup w' p = None \<or> lookup w' p = lookup w p)"

lemma only_removes_refl [simp]: "only_removes P w w"
  by (simp add: only_removes_def)

lemma only_removes_trans:
  "only_removes P w w1 \<Longrightarrow> only_removes P w1 w2 \<Longrightarrow> only_removes P w w2"
  unfolding only_removes_def by (metis touches_trans)

lemma tape_only_removes: "tape_only w w' \<Longrightarrow> only_removes P w w'"
  by (simp add: only_removes_def tape_only_dest)

lemma FreeSpaceForFile_tape_only: "FreeSpaceForFile p w = (n, w') \<Longrightarrow> tape_only w w'"
  by (auto simp: FreeSpaceForFile_def split: prod.splits option.splits dest: statfs_tape_only)

lemma unlink_removes:
  assumes "unlink p w = (r, w')" "P p"
  shows "only_removes P w w'"
proof -
  have "touches P w w'" using unlink_touches [OF assms(1)] touches_mono assms(2) by blast
  with assms(1) show ?thesis
    by (auto simp: only_removes_def unlink_def draw_def lookup_def split: if_splits)
qed

lemma delete_loop_removes:
  "delete_loop names n free w = (m, w') \<Longrightarrow> \<forall>p. Some p \<in> set names \<longrightarrow> P p \<Longrightarrow> only_removes P w w'"
proof (induction names n free w rule: delete_loop.induct)
  case (2 name names n free w)
  show ?case
  proof (cases "free < n \<and> name \<noteq> None")
    case True
    then obtain p where p: "name = Some p" "P p" using 2(4) by auto
    obtain r w1 where u: "unlink p w = (r, w1)" by (cases "unlink p w")
    obtain f w2 where f: "FreeSpaceForFile ''/cache'' w1 = (f, w2)"
      by (cases "FreeSpaceForFile ''/cache'' w1")
    have "delete_loop names n f w2 = (m, w')" using 2(3) True p u f by simp
    then have "only_removes P w2 w'"
      using 2(2) [OF conjunct1 [OF True] p(1) u [symmetric] f [symmetric]] 2(4) by simp
    with unlink_removes [OF u, of P] p(2) tape_only_removes [OF FreeSpaceForFile_tape_only [OF f]]
    show ?thesis by (blast intro: only_removes_trans)
  next
    case False
    with 2 show ?thesis by (auto split: if_splits option.splits)
  qed
qed simp

lemma scan_entries_result:
  "scan_entries ps names w = (names', w') \<Longrightarrow>
    tape_only w w' \<and> (\<forall>x \<in> set names'. x \<in> set names \<or> (\<exists>p \<in> set ps. x = Some p \<and> p \<noteq> CACHE_TEMP_SOURCE))"
proof (induction ps names w rule: scan_entries.induct)
  case (2 p ps names w)
  show ?case
  proof (cases "p = CACHE_TEMP_SOURCE")
    case True
    with 2 show ?thesis by auto
  next
    case False
    obtain s w1 where s: "stat p w = (s, w1)" by (cases "stat p w")
    note t = stat_tape_only [OF s]
    show ?thesis
    proof (cases s)
      case None
      with 2(2) [OF False s [symmetric]] 2(4) False s t show ?thesis
        by (auto intro: tape_only_trans)
    next
      case (Some f)
      with 2(3) [OF False s [symmetric]] 2(4) False s t show ?thesis
        by (auto intro: tape_only_trans)
    qed
  qed
qed simp

lemma in_dir_prefix: "in_dir d p \<Longrightarrow> k \<le> length d + 1 \<Longrightarrow> take k p = take k (d @ ''/'')"
  unfolding in_dir_def Let_def by (metis min.absorb1 take_take)

lemma FindExpendableFiles_result:
  assumes "FindExpendableFiles w = (r, names, w')" "r \<ge> 0" "Some p \<in> set names"
  shows "deletable p \<and> \<not> is_open w p"
proof -
  obtain n1 w1 where s1: "scan_dir ''/cache'' [] w = (n1, w1)" by (cases "scan_dir ''/cache'' [] w")
  obtain n2 w2 where s2: "scan_dir ''/cache/recovery/otatest'' n1 w1 = (n2, w2)"
    by (cases "scan_dir ''/cache/recovery/otatest'' n1 w1")
  have sc: "tape_only v v' \<and> (\<forall>x \<in> set ns'. x \<in> set ns \<or> (\<exists>p. x = Some p \<and> in_dir d p \<and> p \<noteq> CACHE_TEMP_SOURCE))"
    if "scan_dir d ns v = (ns', v')" for d ns v ns' v'
    using that draw_tape_only [of v]
    by (auto simp: scan_dir_def split: prod.splits if_splits dest!: scan_entries_result
        intro: tape_only_trans)
  from sc [OF s1] sc [OF s2] have n2: "\<forall>x \<in> set n2. \<exists>p. x = Some p \<and> deletable p"
    by (fastforce simp: deletable_def)
  have "proc w2 = proc w"
    using sc [OF s1] sc [OF s2] tape_only_dest(8) by metis
  with assms s1 s2 obtain es where es: "proc w = Some es" "names = fold clear_process es n2"
    by (auto simp: FindExpendableFiles_def EliminateOpenFiles_def split: option.splits if_splits)
  have link: "x \<in> set (clear_link l fs) \<Longrightarrow> x = None \<or> x \<in> set fs \<and> (x = Some l \<longrightarrow> take 7 l \<noteq> ''/cache/'')"
    for x l fs by (auto simp: clear_link_def split: if_splits)
  have links: "x \<in> set (fold (\<lambda>l fs. case l of None \<Rightarrow> fs | Some l \<Rightarrow> clear_link l fs) ls fs) \<Longrightarrow>
      x = None \<or> x \<in> set fs \<and> (\<forall>l. x = Some l \<and> Some l \<in> set ls \<longrightarrow> take 7 l \<noteq> ''/cache/'')" for x ls fs
  proof (induction ls arbitrary: fs)
    case (Cons l ls)
    then show ?case by (cases l) (auto dest!: Cons.IH link)
  qed simp
  have proc: "x \<in> set (clear_process de fs) \<Longrightarrow> x = None \<or> x \<in> set fs \<and>
      (\<forall>ls l. list_all isdigit (fst de) \<and> snd de = Some ls \<and> x = Some l \<and> Some l \<in> set ls
        \<longrightarrow> take 7 l \<noteq> ''/cache/'')" for x de fs
    by (auto simp: clear_process_def split: if_splits option.splits dest!: links)
  have procs: "x \<in> set (fold clear_process es fs) \<Longrightarrow> x = None \<or> x \<in> set fs \<and>
      (\<forall>de ls l. de \<in> set es \<and> list_all isdigit (fst de) \<and> snd de = Some ls \<and> x = Some l \<and> Some l \<in> set ls
        \<longrightarrow> take 7 l \<noteq> ''/cache/'')" for x fs
  proof (induction es arbitrary: fs)
    case (Cons de es)
    have "x \<in> set (fold clear_process es (clear_process de fs))" using Cons.prems by simp
    from Cons.IH [OF this] proc [of x de fs] show ?case by fastforce
  qed simp
  from procs [of "Some p" n2] assms(3) es(2) have p: "Some p \<in> set n2"
    "\<forall>de ls. de \<in> set es \<and> list_all isdigit (fst de) \<and> snd de = Some ls \<and> Some p \<in> set ls
        \<longrightarrow> take 7 p \<noteq> ''/cache/''" by auto
  from n2 p(1) have d: "deletable p" by auto
  then have "take 7 p = ''/cache/''"
    using in_dir_prefix [of "''/cache''" p 7] in_dir_prefix [of "''/cache/recovery/otatest''" p 7]
    by (auto simp: deletable_def)
  with p(2) es(1) d show ?thesis by (fastforce simp: is_open_def)
qed

lemma FindExpendableFiles_tape_only: "FindExpendableFiles w = (r, names, w') \<Longrightarrow> tape_only w w'"
  by (auto simp: FindExpendableFiles_def scan_dir_def split: prod.splits if_splits
      dest!: scan_entries_result draw_tape_only intro: tape_only_trans)

section \<open>Properties\<close>

lemma MakeFreeSpaceOnCache_removes:
  assumes "MakeFreeSpaceOnCache n w = (r, w')"
  shows "only_removes (\<lambda>p. deletable p \<and> \<not> is_open w p) w w'"
proof -
  obtain f w1 where f: "FreeSpaceForFile ''/cache'' w = (f, w1)" by (cases "FreeSpaceForFile ''/cache'' w")
  obtain e names w2 where x: "FindExpendableFiles w1 = (e, names, w2)" by (cases "FindExpendableFiles w1")
  note t = FreeSpaceForFile_tape_only [OF f] FindExpendableFiles_tape_only [OF x]
  note t2 = tape_only_trans [OF t]
  have same: "is_open w1 p = is_open w p" for p
    using tape_only_dest(8) [OF t(1)] by (simp add: is_open_def)
  obtain m w3 where d: "delete_loop names (nat (n mod 2 ^ 32)) f w2 = (m, w3)"
    by (cases "delete_loop names (nat (n mod 2 ^ 32)) f w2")
  have "only_removes (\<lambda>p. deletable p \<and> \<not> is_open w p) w2 w3" if "\<not> e < 0"
    using delete_loop_removes [OF d] FindExpendableFiles_result [OF x] that by (simp add: same)
  with assms f x d t t2 show ?thesis
    by (auto simp: MakeFreeSpaceOnCache_def Let_def split: if_splits
        intro: tape_only_removes only_removes_trans)
qed

text \<open>
  C26. Making room on the cache is safe: whatever the system does, at every moment the only files that
  are gone are regular files directly in \<open>/cache\<close> or \<open>/cache/recovery/otatest\<close> that no process has
  open, and the saved copy of a file being patched is never one of them; no file is changed.
\<close>

theorem MakeFreeSpaceOnCache_safe:
  assumes "MakeFreeSpaceOnCache n w = (r, w')"
  shows "(\<forall>p. lookup w' p = lookup w p
        \<or> lookup w' p = None \<and> (in_dir ''/cache'' p \<or> in_dir ''/cache/recovery/otatest'' p) \<and> \<not> is_open w p)
    \<and> lookup w' CACHE_TEMP_SOURCE = lookup w CACHE_TEMP_SOURCE
    \<and> (\<exists>h. history w' = history w @ h
        \<and> (\<forall>fs \<in> set h. map_of fs CACHE_TEMP_SOURCE = lookup w CACHE_TEMP_SOURCE))"
proof -
  note o = MakeFreeSpaceOnCache_removes [OF assms]
  have "lookup w' p = lookup w p \<or> lookup w' p = None
      \<and> (in_dir ''/cache'' p \<or> in_dir ''/cache/recovery/otatest'' p) \<and> \<not> is_open w p" for p
    using o touches_lookup [of _ w w' p] by (fastforce simp: only_removes_def deletable_def)
  moreover have "\<exists>h. history w' = history w @ h
        \<and> (\<forall>fs \<in> set h. map_of fs CACHE_TEMP_SOURCE = lookup w CACHE_TEMP_SOURCE)"
    using o by (auto simp: only_removes_def touches_def agree_def lookup_def deletable_def)
  moreover have "lookup w' CACHE_TEMP_SOURCE = lookup w CACHE_TEMP_SOURCE"
    using o by (auto simp: only_removes_def deletable_def dest: touches_lookup [where p = CACHE_TEMP_SOURCE])
  ultimately show ?thesis by blast
qed

text \<open>A cache with a saved file, a file in use and one that can go.\<close>

definition full_cache :: world where
  "full_cache = \<lparr>files = [(CACHE_TEMP_SOURCE, \<lparr>content = [1], st_mode = 420, st_uid = 0, st_gid = 0\<rparr>),
       (''/cache/log'', \<lparr>content = [2], st_mode = 420, st_uid = 0, st_gid = 0\<rparr>),
       (''/cache/old'', \<lparr>content = [3], st_mode = 420, st_uid = 0, st_gid = 0\<rparr>)],
     devices = [], mtd = [], proc = Some [(''12'', Some [Some ''/cache/log''])],
     tape = [Space 1 0, Ok, Ok, Ok, Ok, Ok, Space 4096 1], history = [], short = False\<rparr>"

lemma full_cache_run:
  "MakeFreeSpaceOnCache 100 full_cache = (0, snd (MakeFreeSpaceOnCache 100 full_cache))
    \<and> map fst (files (snd (MakeFreeSpaceOnCache 100 full_cache))) = [CACHE_TEMP_SOURCE, ''/cache/log'']"
  by (simp add: full_cache_def MakeFreeSpaceOnCache_def FreeSpaceForFile_def statfs_def draw_def
      FindExpendableFiles_def scan_dir_def in_dir_def CACHE_TEMP_SOURCE_def stat_def lookup_def
      EliminateOpenFiles_def clear_process_def isdigit_def clear_link_def unlink_def set_files_def Let_def)

theorem MakeFreeSpaceOnCache_safe_witness:
  "lookup (snd (MakeFreeSpaceOnCache 100 full_cache)) ''/cache/log'' = lookup full_cache ''/cache/log''
    \<and> lookup (snd (MakeFreeSpaceOnCache 100 full_cache)) CACHE_TEMP_SOURCE = lookup full_cache CACHE_TEMP_SOURCE"
proof -
  have "is_open full_cache ''/cache/log''" by (simp add: is_open_def full_cache_def isdigit_def)
  with MakeFreeSpaceOnCache_safe [OF conjunct1 [OF full_cache_run]] show ?thesis by blast
qed

end
