(* ===== verification/PartitionWrite.thy ===== *)
theory PartitionWrite
  imports LoadSave
begin

text \<open>
  \<open>WriteToPartition\<close> of \<open>applypatch/applypatch.c\<close>: writing the output of a patch to an MTD partition, or
  to a block device with verification and up to ten attempts.  A block device stores what it is
  given, part of it, or (event \<open>Garble\<close>) something else; the verification reads it back.  The C text
  names an undeclared \<open>f\<close> in two calls, which is read as the descriptor \<open>fd\<close>; its writes go
  through the page cache, which the code drops before it verifies.
\<close>

section \<open>MTD\<close>

definition mtd_write :: "string \<Rightarrow> byte list \<Rightarrow> world \<Rightarrow> bool \<times> world" where
  "mtd_write part data w = (case draw w of (e, w) \<Rightarrow>
     let n = (case e of Fail \<Rightarrow> 0 | Part k \<Rightarrow> min k (length data) | _ \<Rightarrow> length data);
         old = the (map_of (mtd w) part)
     in (e \<noteq> Fail \<and> n = length data,
         w\<lparr>mtd := AList.update part (take n data @ drop n old) (mtd w)\<rparr>))"

definition mtd_erase_rest :: "string \<Rightarrow> nat \<Rightarrow> world \<Rightarrow> bool \<times> world" where
  "mtd_erase_rest part n w = (case draw w of (e, w) \<Rightarrow>
     if e = Fail then (False, w)
     else let old = the (map_of (mtd w) part)
          in (True, w\<lparr>mtd := AList.update part (take n old @ map (\<lambda>_. 0xFF) (drop n old)) (mtd w)\<rparr>))"

definition write_mtd :: "string \<Rightarrow> byte list \<Rightarrow> world \<Rightarrow> int \<times> world" where
  "write_mtd part data w =
     (case map_of (mtd w) part of
        None \<Rightarrow> (- 1, w)
      | Some _ \<Rightarrow>
          (case draw w of (e, w) \<Rightarrow>
             if e = Fail then (- 1, w)
             else (case mtd_write part data w of (ok, w) \<Rightarrow>
               if \<not> ok then (- 1, snd (draw w))
               else (case mtd_erase_rest part (length data) w of (ok, w) \<Rightarrow>
                 if \<not> ok then (- 1, snd (draw w))
                 else (case draw w of (e, w) \<Rightarrow> (if e = Fail then - 1 else 0, w))))))"

section \<open>Block devices\<close>

text \<open>A \<open>write\<close> or \<open>read\<close>: an error, an interruption, or the bytes transferred.\<close>

datatype 'a io = IoError | IoIntr | IoDone 'a

definition overlay :: "nat \<Rightarrow> byte list \<Rightarrow> byte list \<Rightarrow> byte list" where
  "overlay pos bs dev =
     take pos dev @ replicate (pos - length dev) 0 @ bs @ drop (pos + length bs) dev"

definition write_device :: "path \<Rightarrow> nat \<Rightarrow> byte list \<Rightarrow> world \<Rightarrow> nat io \<times> world" where
  "write_device p pos bs w = (case draw w of (e, w) \<Rightarrow>
     let dev = the (map_of (devices w) p);
         put = (\<lambda>stored. w\<lparr>devices := AList.update p (overlay pos stored dev) (devices w)\<rparr>)
     in (case e of
           Fail \<Rightarrow> (IoError, w)
         | Intr \<Rightarrow> (IoIntr, w)
         | Part n \<Rightarrow> (IoDone (length (take n bs)), put (take n bs))
         | Garble gs \<Rightarrow> (IoDone (length bs), put (take (length bs) (gs @ drop (length gs) bs)))
         | _ \<Rightarrow> (IoDone (length bs), put bs)))"

definition read_at :: "path \<Rightarrow> nat \<Rightarrow> nat \<Rightarrow> world \<Rightarrow> byte list io \<times> world" where
  "read_at p pos n w = (case draw w of (e, w) \<Rightarrow>
     let avail = take n (drop pos (the (map_of (devices w) p)))
     in (case e of
           Fail \<Rightarrow> IoError
         | Intr \<Rightarrow> IoIntr
         | Part k \<Rightarrow> IoDone (take k avail)
         | _ \<Rightarrow> IoDone avail, w))"

lemma write_device_tape: "write_device p pos bs w = (r, w') \<Longrightarrow> tape w' = tl (tape w)
    \<and> (tape w = [] \<longrightarrow> r = IoDone (length bs))"
  by (auto simp: write_device_def draw_def Let_def split: event.splits list.splits)

lemma read_at_tape: "read_at p pos n w = (r, w') \<Longrightarrow> tape w' = tl (tape w)
    \<and> (tape w = [] \<longrightarrow> r = IoDone (take n (drop pos (the (map_of (devices w) p)))))"
  by (auto simp: read_at_def draw_def Let_def split: event.splits list.splits)

text \<open>The write loop of an attempt; \<open>None\<close> when a write fails.\<close>

function emmc_write :: "path \<Rightarrow> byte list \<Rightarrow> nat \<Rightarrow> world \<Rightarrow> nat option \<times> world" where
  "emmc_write p data start w =
     (if start < length data then
        let to_write = min (length data - start) 4096 in
        (case write_device p start (take to_write (drop start data)) w of
           (IoError, w) \<Rightarrow> (None, w)
         | (IoIntr, w) \<Rightarrow> emmc_write p data start w
         | (IoDone written, w) \<Rightarrow> emmc_write p data (start + written) w)
      else (Some start, w))"
  by pat_completeness auto
termination
proof (relation "measure (\<lambda>(p, data, start, w). length (tape w) + (length data - start))", goal_cases)
  case (2 p data start w x y w')
  then show ?case using write_device_tape [of p start _ w y w'] by (cases "tape w") auto
next
  case (3 p data start w x y w' n)
  then show ?case using write_device_tape [of p start _ w y w'] by (cases "tape w") auto
qed simp

declare emmc_write.simps [simp del]

text \<open>
  Filling the verification buffer, of which \<open>buf\<close> was read so far.  The inner \<open>None\<close> is a read error;
  at the end of the device the loop reads nothing for ever, which is the outer \<open>None\<close>.
\<close>

function emmc_read :: "path \<Rightarrow> nat \<Rightarrow> nat \<Rightarrow> byte list \<Rightarrow> world \<Rightarrow> (byte list option \<times> world) ub" where
  "emmc_read p pos to_read buf w =
     (if length buf < to_read then
        (if tape w = [] \<and> drop (pos + length buf) (the (map_of (devices w) p)) = [] then None
         else (case read_at p (pos + length buf) (to_read - length buf) w of
           (IoError, w) \<Rightarrow> Some (None, w)
         | (IoIntr, w) \<Rightarrow> emmc_read p pos to_read buf w
         | (IoDone bs, w) \<Rightarrow> emmc_read p pos to_read (buf @ bs) w))
      else Some (Some buf, w))"
  by pat_completeness auto
termination
proof (relation "measure (\<lambda>(p, pos, to_read, buf, w). length (tape w) + (to_read - length buf))", goal_cases)
  case (2 p pos to_read buf w y w')
  then show ?case using read_at_tape [of p _ _ w y w'] by (cases "tape w") auto
next
  case (3 p pos to_read buf w y w' bs)
  then show ?case using read_at_tape [of p _ _ w y w'] by (cases "tape w") auto
qed simp

declare emmc_read.simps [simp del]

text \<open>Verification from position \<open>pos\<close>: the new value of \<open>start\<close>, \<open>None\<close> after a read error.\<close>

function emmc_verify :: "path \<Rightarrow> byte list \<Rightarrow> nat \<Rightarrow> world \<Rightarrow> (nat option \<times> world) ub" where
  "emmc_verify p data pos w =
     (if pos < length data then do {
        let to_read = min (length data - pos) 4096;
        (buffer, w) \<leftarrow> emmc_read p pos to_read [] w;
        (case buffer of
           None \<Rightarrow> Some (None, w)
         | Some b \<Rightarrow>
             if memcmp b (take to_read (drop pos data)) to_read \<noteq> 0 then Some (Some pos, w)
             else emmc_verify p data (pos + 4096) w)
      } else Some (Some (length data), w))"
  by pat_completeness auto
termination by (relation "measure (\<lambda>(p, data, pos, w). length data - pos)") auto

declare emmc_verify.simps [simp del]

text \<open>The attempts: \<open>Some True\<close> for success, \<open>None\<close> when a system call fails.\<close>

fun emmc_attempts :: "nat \<Rightarrow> path \<Rightarrow> byte list \<Rightarrow> nat \<Rightarrow> world \<Rightarrow> (bool option \<times> world) ub" where
  "emmc_attempts 0 p data start w = Some (Some False, w)"
| "emmc_attempts (Suc n) p data start w =
     (case emmc_write p data start w of
        (None, w) \<Rightarrow> Some (None, w)
      | (Some _, w) \<Rightarrow> do {
          (r, w) \<leftarrow> emmc_verify p data 0 w;
          (case r of
             None \<Rightarrow> Some (None, w)
           | Some start \<Rightarrow> if start = length data then Some (Some True, w)
                            else emmc_attempts n p data start w)
        })"

definition write_emmc :: "path \<Rightarrow> byte list \<Rightarrow> world \<Rightarrow> (int \<times> world) ub" where
  "write_emmc p data w =
     (case draw w of (e, w) \<Rightarrow>
        if e = Fail \<or> map_of (devices w) p = None then Some (- 1, w)
        else do {
          (r, w) \<leftarrow> emmc_attempts 10 p data 0 w;
          if r \<noteq> Some True then Some (- 1, w)
          else (case draw w of (e, w) \<Rightarrow> Some (if e = Fail then - 1 else 0, w))
        })"

definition WriteToPartition :: "byte list \<Rightarrow> string \<Rightarrow> world \<Rightarrow> (int \<times> world) ub" where
  "WriteToPartition data target w =
     (case strtok_all CHR '':'' target of
        [] \<Rightarrow> None
      | magic # toks \<Rightarrow>
          if magic \<noteq> ''MTD'' \<and> magic \<noteq> ''EMMC'' then Some (- 1, w)
          else (case toks of
                  [] \<Rightarrow> Some (- 1, w)
                | part # _ \<Rightarrow> if magic = ''MTD'' then Some (write_mtd part data w)
                              else write_emmc part data w))"

section \<open>What verification guarantees\<close>

lemma read_at_tape_only: "read_at p pos n w = (r, w') \<Longrightarrow> tape_only w w'"
  by (auto simp: read_at_def draw_def tape_only_def Let_def)

lemma read_at_prefix:
  "read_at p pos n w = (IoDone bs, w') \<Longrightarrow>
    \<exists>k. bs = take k (take n (drop pos (the (map_of (devices w) p))))"
  by (auto simp: read_at_def draw_def Let_def split: event.splits list.splits
      intro: exI [of _ n])

lemma emmc_read_result:
  assumes "emmc_read p pos n buf w = Some (r, w')"
    and "buf = take (length buf) (drop pos (the (map_of (devices w) p)))" "length buf \<le> n"
  shows "tape_only w w' \<and> (\<forall>b. r = Some b \<longrightarrow> length b = n
    \<and> b = take n (drop pos (the (map_of (devices w) p))))"
  using assms
proof (induction p pos n buf w rule: emmc_read.induct)
  case (1 p pos n buf w)
  let ?dev = "the (map_of (devices w) p)"
  show ?case
  proof (cases "length buf < n")
    case False
    with 1(3-5) show ?thesis by (auto simp: emmc_read.simps [of p pos n])
  next
    case True
    with 1(3) have more_: "\<not> (tape w = [] \<and> drop (pos + length buf) ?dev = [])"
      by (auto simp: emmc_read.simps [of p pos n])
    obtain x w1 where x: "read_at p (pos + length buf) (n - length buf) w = (x, w1)"
      by (cases "read_at p (pos + length buf) (n - length buf) w")
    note t = read_at_tape_only [OF x]
    have dev: "devices w1 = devices w" using t by (rule tape_only_dest)
    show ?thesis
    proof (cases x)
      case IoError
      with 1(3) True more_ x t show ?thesis by (auto simp: emmc_read.simps [of p pos n])
    next
      case IoIntr
      with 1(3) True more_ x have "emmc_read p pos n buf w1 = Some (r, w')"
        by (auto simp: emmc_read.simps [of p pos n] split: if_splits)
      from 1(1) [OF True more_ x [symmetric] IoIntr this] 1(4,5) t dev show ?thesis
        by (auto intro: tape_only_trans)
    next
      case (IoDone bs)
      with 1(3) True more_ x have rec: "emmc_read p pos n (buf @ bs) w1 = Some (r, w')"
        by (auto simp: emmc_read.simps [of p pos n] split: if_splits)
      obtain k where k: "bs = take k (take (n - length buf) (drop (pos + length buf) ?dev))"
        using read_at_prefix x IoDone by blast
      define j where "j = length bs"
      have bs: "bs = take j (drop (pos + length buf) ?dev)" "j \<le> n - length buf"
        unfolding j_def using k by (auto simp: min_def)
      have "buf @ bs = take (length buf) (drop pos ?dev) @ take j (drop (pos + length buf) ?dev)"
        using 1(4) bs(1) by metis
      also have "\<dots> = take (length (buf @ bs)) (drop pos ?dev)"
        using take_add [of "length buf" j "drop pos ?dev"] by (simp add: j_def add.commute)
      finally have "buf @ bs = take (length (buf @ bs)) (drop pos ?dev)" .
      moreover have "length (buf @ bs) \<le> n" using bs(2) True by (simp add: j_def)
      ultimately show ?thesis
        using 1(2) [OF True more_ x [symmetric] IoDone rec, unfolded dev] t
        by (blast intro: tape_only_trans)
    qed
  qed
qed

lemma emmc_verify_result:
  assumes "emmc_verify p data pos w = Some (r, w')"
  shows "tape_only w w' \<and> (r = Some (length data) \<longrightarrow>
    take (length data - pos) (drop pos (the (map_of (devices w) p))) = drop pos data)"
  using assms
proof (induction p data pos w rule: emmc_verify.induct)
  case (1 p data pos w)
  let ?dev = "drop pos (the (map_of (devices w) p))" and ?t = "min (length data - pos) 4096"
  show ?case
  proof (cases "pos < length data")
    case False
    with 1(2) show ?thesis by (auto simp: emmc_verify.simps [of p data pos])
  next
    case True
    with 1(2) obtain b w1 where b: "emmc_read p pos ?t [] w = Some (b, w1)"
      by (auto simp: emmc_verify.simps [of p data pos] Let_def split: bind_splits)
    note e = emmc_read_result [OF b]
    have t: "tape_only w w1" and buf: "\<And>x. b = Some x \<Longrightarrow> length x = ?t \<and> x = take ?t ?dev"
      using e by auto
    show ?thesis
    proof (cases "\<exists>x. b = Some x \<and> memcmp x (take ?t (drop pos data)) ?t = 0")
      case False
      with 1(2) True b t show ?thesis
        by (auto simp: emmc_verify.simps [of p data pos] Let_def split: option.splits)
    next
      case match: True
      then obtain x where x: "b = Some x" "memcmp x (take ?t (drop pos data)) ?t = 0" by blast
      with 1(2) True b have rec: "emmc_verify p data (pos + 4096) w1 = Some (r, w')"
        by (auto simp: emmc_verify.simps [of p data pos] Let_def)
      have eq: "take ?t ?dev = take ?t (drop pos data)"
      proof -
        have len: "length x = ?t" and bx: "x = take ?t ?dev" using buf [OF x(1)] by blast+
        have "length x = length (take ?t (drop pos data))" unfolding len by simp
        from memcmp_eq_0 [OF this] x(2) len have "x = take ?t (drop pos data)" by simp
        with bx show ?thesis by simp
      qed
      have "\<not> memcmp x (take ?t (drop pos data)) ?t \<noteq> 0" using x(2) by simp
      from 1(1) [OF True refl b refl x(1) this rec] have IH: "tape_only w1 w' \<and> (r = Some (length data) \<longrightarrow>
        take (length data - (pos + 4096)) (drop (pos + 4096) (the (map_of (devices w) p)))
          = drop (pos + 4096) data)"
        using tape_only_dest(6) [OF t] by auto
      have "take (length data - pos) ?dev = drop pos data" if "r = Some (length data)"
      proof (cases "length data - pos \<le> 4096")
        case True
        with eq show ?thesis by (simp add: min_def)
      next
        case False
        then have n: "length data - pos = 4096 + (length data - (pos + 4096))" "?t = 4096" by auto
        have "take (length data - pos) ?dev
          = take 4096 ?dev @ take (length data - (pos + 4096)) (drop 4096 ?dev)"
          unfolding n(1) by (rule take_add)
        also have "\<dots> = take 4096 (drop pos data) @ drop (pos + 4096) data"
          using eq IH that unfolding n(2) by (simp add: add.commute)
        also have "\<dots> = drop pos data" by (metis add.commute append_take_drop_id drop_drop)
        finally show ?thesis .
      qed
      with IH t show ?thesis by (auto intro: tape_only_trans)
    qed
  qed
qed

lemma emmc_attempts_result:
  "emmc_attempts n p data start w = Some (Some True, w') \<Longrightarrow>
    take (length data) (the (map_of (devices w') p)) = data"
proof (induction n p data start w rule: emmc_attempts.induct)
  case (2 n p data start w)
  then obtain s w1 r w2 where s: "emmc_write p data start w = (Some s, w1)"
    "emmc_verify p data 0 w1 = Some (r, w2)"
    by (auto split: prod.splits option.splits bind_splits)
  note v = emmc_verify_result [OF s(2)]
  show ?case
  proof (cases "r = Some (length data)")
    case True
    with 2(2) s v tape_only_dest(6) [of w1 w2] show ?thesis by auto
  next
    case False
    with 2(2) s obtain st where "r = Some st" "emmc_attempts n p data st w2 = Some (Some True, w')"
      by (auto split: option.splits)
    with 2(1) [OF s(1) [symmetric] refl s(2) refl] False show ?thesis by auto
  qed
qed simp

lemma emmc_write_dom:
  "emmc_write p data start w = (r, w') \<Longrightarrow> map_of (devices w) q \<noteq> None \<Longrightarrow> map_of (devices w') q \<noteq> None"
proof (induction p data start w rule: emmc_write.induct)
  case (1 p data start w)
  have wd: "map_of (devices w1) q \<noteq> None"
    if "write_device p start bs w = (x, w1)" for x w1 bs
    using that 1(4) by (auto simp: write_device_def draw_def Let_def split: event.splits list.splits if_splits)
  show ?case
  proof (cases "start < length data")
    case True
    let ?n = "min (length data - start) 4096"
    obtain x w1 where x: "write_device p start (take ?n (drop start data)) w = (x, w1)"
      by (cases "write_device p start (take ?n (drop start data)) w")
    with 1 True wd [OF x] show ?thesis
      by (cases x) (auto simp: emmc_write.simps [of p data start w] Let_def)
  qed (use 1 in \<open>auto simp: emmc_write.simps [of p data start w]\<close>)
qed

lemma emmc_attempts_dom:
  "emmc_attempts n p data start w = Some (r, w') \<Longrightarrow> map_of (devices w) q \<noteq> None \<Longrightarrow> map_of (devices w') q \<noteq> None"
proof (induction n p data start w rule: emmc_attempts.induct)
  case (2 n p data start w)
  obtain s w1 where s: "emmc_write p data start w = (s, w1)" by (cases "emmc_write p data start w")
  note d = emmc_write_dom [OF s 2(3)]
  show ?case
  proof (cases s)
    case None
    with 2 s d show ?thesis by auto
  next
    case (Some x)
    with 2(2) s obtain v w2 where v: "emmc_verify p data 0 w1 = Some (v, w2)"
      by (auto split: bind_splits)
    have d2: "map_of (devices w2) q \<noteq> None"
      using emmc_verify_result [OF v] tape_only_dest(6) [of w1 w2] d by simp
    show ?thesis
    proof (cases "v = None \<or> v = Some (length data)")
      case True
      with 2(2) s Some v d2 show ?thesis by (auto split: option.splits)
    next
      case False
      then obtain st where st: "v = Some st" "st \<noteq> length data" by auto
      from 2(1) [OF s [symmetric] Some v refl st] 2(2) s Some v st d2 show ?thesis by simp
    qed
  qed
qed simp

lemma partition_begins_with_data:
  assumes "WriteToPartition data target w = Some (0, w')"
  shows "\<exists>magic part toks dev. strtok_all CHR '':'' target = magic # part # toks
    \<and> (magic = ''MTD'' \<and> map_of (mtd w') part = Some dev
       \<or> magic = ''EMMC'' \<and> map_of (devices w') part = Some dev)
    \<and> take (length data) dev = data"
proof -
  from assms obtain magic part toks where t: "strtok_all CHR '':'' target = magic # part # toks"
    "magic = ''MTD'' \<or> magic = ''EMMC''"
    by (auto simp: WriteToPartition_def split: list.splits if_splits)
  show ?thesis
  proof (cases "magic = ''MTD''")
    case True
    with assms t have "write_mtd part data w = (0, w')" by (simp add: WriteToPartition_def)
    then have "\<exists>dev. map_of (mtd w') part = Some dev \<and> take (length data) dev = data"
      by (auto simp: write_mtd_def mtd_write_def mtd_erase_rest_def draw_def Let_def
          split: option.splits if_splits event.splits)
    with True t show ?thesis by auto
  next
    case False
    with assms t have w: "write_emmc part data w = Some (0, w')" by (simp add: WriteToPartition_def)
    obtain e w0 where e: "draw w = (e, w0)" by (cases "draw w")
    then have d0: "devices w0 = devices w" by (auto simp: draw_def)
    from w e have dom: "map_of (devices w0) part \<noteq> None"
      by (auto simp: write_emmc_def split: if_splits)
    from w e obtain w1 where r: "emmc_attempts 10 part data 0 w0 = Some (Some True, w1)" "w' = snd (draw w1)"
      by (auto simp: write_emmc_def split: if_splits bind_splits prod.splits)
    have d1: "devices w' = devices w1" using r(2) by (simp add: draw_def)
    from emmc_attempts_dom [OF r(1) dom] obtain dev where "map_of (devices w1) part = Some dev" by auto
    with emmc_attempts_result [OF r(1)] d1 False t show ?thesis by auto
  qed
qed

section \<open>Property\<close>


text \<open>A block device that interrupts a write, stores garbage once and reads short.\<close>

definition flaky_path :: path where "flaky_path = ''/dev/a''"

definition flaky_world :: world where
  "flaky_world = \<lparr>files = [], devices = [(flaky_path, [0, 0, 0, 0])], mtd = [], proc = None,
     tape = [Ok, Intr, Garble [9], Part (Suc 0)], history = [], short = False\<rparr>"

lemma flaky_write:
  "emmc_write flaky_path [1, 2, 3] 0 (flaky_world\<lparr>tape := [Intr, Garble [9], Part (Suc 0)]\<rparr>)
    = (Some 3, flaky_world\<lparr>devices := [(flaky_path, [9, 2, 3, 0])], tape := [Part (Suc 0)]\<rparr>)"
  "emmc_write flaky_path [1, 2, 3] 0 (flaky_world\<lparr>devices := [(flaky_path, [9, 2, 3, 0])], tape := []\<rparr>)
    = (Some 3, flaky_world\<lparr>devices := [(flaky_path, [1, 2, 3, 0])], tape := []\<rparr>)"
  by (simp_all add: flaky_world_def draw_def emmc_write.simps [of flaky_path] write_device_def overlay_def)

lemma memcmp_numeral: "memcmp (a # as) (b # bs) (numeral k)
    = (if a \<noteq> b then uint a - uint b else memcmp as bs (pred_numeral k))"
  by (simp add: numeral_eq_Suc)

lemma flaky_verify:
  "emmc_verify flaky_path [1, 2, 3] 0 (flaky_world\<lparr>devices := [(flaky_path, [9, 2, 3, 0])], tape := [Part (Suc 0)]\<rparr>)
    = Some (Some 0, flaky_world\<lparr>devices := [(flaky_path, [9, 2, 3, 0])], tape := []\<rparr>)"
  "emmc_verify flaky_path [1, 2, 3] 0 (flaky_world\<lparr>devices := [(flaky_path, [1, 2, 3, 0])], tape := []\<rparr>)
    = Some (Some 3, flaky_world\<lparr>devices := [(flaky_path, [1, 2, 3, 0])], tape := []\<rparr>)"
  by (simp_all add: flaky_world_def draw_def emmc_verify.simps [of flaky_path] memcmp_numeral
      emmc_read.simps [of flaky_path] read_at_def)

lemma flaky_run:
  "WriteToPartition [1, 2, 3] ''EMMC:/dev/a:'' flaky_world
    = Some (0, flaky_world\<lparr>devices := [(flaky_path, [1, 2, 3, 0])], tape := []\<rparr>)"
proof -
  have t: "strtok_all CHR '':'' ''EMMC:/dev/a:'' = [''EMMC'', flaky_path]"
    by (simp add: strtok_all.simps [of "CHR '':''"] flaky_path_def)
  have "emmc_attempts (Suc (Suc 8)) flaky_path [1, 2, 3] 0 (flaky_world\<lparr>tape := [Intr, Garble [9], Part (Suc 0)]\<rparr>)
    = Some (Some True, flaky_world\<lparr>devices := [(flaky_path, [1, 2, 3, 0])], tape := []\<rparr>)"
    by (simp only: emmc_attempts.simps flaky_write flaky_verify prod.case option.case Option.bind_lunit) simp
  moreover have "Suc (Suc 8) = (10 :: nat)" by simp
  ultimately have run: "emmc_attempts 10 flaky_path [1, 2, 3] 0 (flaky_world\<lparr>tape := [Intr, Garble [9], Part (Suc 0)]\<rparr>)
    = Some (Some True, flaky_world\<lparr>devices := [(flaky_path, [1, 2, 3, 0])], tape := []\<rparr>)"
    by (simp only:)
  have start: "draw flaky_world = (Ok, flaky_world\<lparr>tape := [Intr, Garble [9], Part (Suc 0)]\<rparr>)"
    "draw (flaky_world\<lparr>devices := d, tape := []\<rparr>) = (Ok, flaky_world\<lparr>devices := d, tape := []\<rparr>)"
    "map_of (devices flaky_world) flaky_path = Some [0, 0, 0, 0]" for d
    by (simp_all add: draw_def flaky_world_def)
  show ?thesis
    by (simp add: WriteToPartition_def t write_emmc_def run start)
qed


end
