(* ===== verification/SinkLaws.thy ===== *)
theory SinkLaws
  imports ImgPatch FreeCache
begin

text \<open>
  What the patch code relies on in the sink it is given, as an interface: a sink takes a prefix of the
  bytes or signals that it did not, and changes nothing but its own output.  The lemmas follow
  \<open>ApplyBSDiffPatch\<close> and \<open>ApplyImagePatch\<close> with any such sink; the interpretations are the two sinks
  of \<open>applypatch/applypatch.c\<close>.
\<close>

text \<open>
  \<open>view\<close> is the output so far, \<open>valid\<close> says that the sink can be used, \<open>bad\<close> that it gave up at some
  time, \<open>frame\<close> what a call leaves alone.
\<close>

locale output_sink =
  fixes sink :: "'t sink" and view :: "'t \<Rightarrow> byte list" and valid :: "'t \<Rightarrow> bool" and bad :: "'t \<Rightarrow> bool"
    and frame :: "'t \<Rightarrow> 't \<Rightarrow> bool"
  assumes frame_refl: "frame t t"
    and frame_trans: "frame t1 t2 \<Longrightarrow> frame t2 t3 \<Longrightarrow> frame t1 t3"
    and sink_frame: "valid t \<Longrightarrow> sink bs t = (n, t') \<Longrightarrow> frame t t' \<and> valid t' \<and> (bad t \<longrightarrow> bad t')"
    and sink_all: "valid t \<Longrightarrow> sink bs t = (int (length bs), t') \<Longrightarrow> view t' = view t @ bs"
    and sink_short: "valid t \<Longrightarrow> sink bs t = (n, t') \<Longrightarrow> n \<noteq> int (length bs)
        \<Longrightarrow> n < int (length bs) \<and> (bad t' \<or> view t' = view t)"
begin

lemma ApplyBSDiffPatch_sink:
  assumes "ApplyBSDiffPatch bz old patch off sink t c = Some (r, t', c')" "valid t"
  shows "frame t t' \<and> valid t' \<and> (bad t \<longrightarrow> bad t')"
    "r = 0 \<Longrightarrow> \<exists>w. view t' = view t @ w \<and> c' = c @ w"
    "bad t' \<or> (\<exists>w. view t' = view t @ w \<and> c' = c @ w)"
proof -
  from assms(1) obtain q d where "ApplyBSDiffPatchMem bz old patch off = Some (q, d)"
    "q \<noteq> 0 \<and> r = - 1 \<and> t' = t \<and> c' = c \<or> q = 0 \<and> (\<exists>n. sink d t = (n, t') \<and>
       (n < int (length d) \<and> r = 1 \<and> c' = c \<or> \<not> n < int (length d) \<and> r = 0 \<and> c' = c @ d))"
    by (auto simp: ApplyBSDiffPatch_def split: bind_splits if_splits prod.splits)
  then consider "t' = t" "c' = c" "r = - 1"
    | n where "sink d t = (n, t')" "n < int (length d)" "r = 1" "c' = c"
    | n where "sink d t = (n, t')" "\<not> n < int (length d)" "r = 0" "c' = c @ d" by auto
  then have "(frame t t' \<and> valid t' \<and> (bad t \<longrightarrow> bad t'))
    \<and> (r = 0 \<longrightarrow> (\<exists>w. view t' = view t @ w \<and> c' = c @ w))
    \<and> (bad t' \<or> (\<exists>w. view t' = view t @ w \<and> c' = c @ w))"
  proof cases
    case 1
    with assms(2) show ?thesis by (simp add: frame_refl)
  next
    case (2 n)
    with sink_frame [OF assms(2) 2(1)] sink_short [OF assms(2) 2(1)] show ?thesis by auto
  next
    case (3 n)
    then have n: "n = int (length d)" using sink_short [OF assms(2) 3(1)] by auto
    with 3 sink_frame [OF assms(2) 3(1)] sink_all [OF assms(2), of d t'] show ?thesis by auto
  qed
  then show "frame t t' \<and> valid t' \<and> (bad t \<longrightarrow> bad t')"
    "r = 0 \<Longrightarrow> \<exists>w. view t' = view t @ w \<and> c' = c @ w"
    "bad t' \<or> (\<exists>w. view t' = view t @ w \<and> c' = c @ w)" by blast+
qed

lemma deflate_loop_sink:
  assumes "deflate_loop zl sink n z t c = Some (ok, t', c')" "valid t"
  shows "frame t t' \<and> valid t' \<and> (bad t \<longrightarrow> bad t')
    \<and> (ok \<longrightarrow> (\<exists>w. view t' = view t @ w \<and> c' = c @ w))"
proof -
  let ?P = "\<lambda>t c y. valid t \<longrightarrow> frame t (fst (snd y)) \<and> valid (fst (snd y)) \<and> (bad t \<longrightarrow> bad (fst (snd y)))
    \<and> (fst y \<longrightarrow> (\<exists>w. view (fst (snd y)) = view t @ w \<and> snd (snd y) = c @ w))"
  have "s = sink \<longrightarrow> ?P t c y" if "deflate_loop zl s n z t c = Some y" for s y
  proof (rule deflate_loop.raw_induct [where P = "\<lambda>zl s n z t c y. s = sink \<longrightarrow> ?P t c y", OF _ that])
    fix f zl s n z t c y
    assume IH: "\<And>zl s n z t c y. f zl s n z t c = Some y \<Longrightarrow> s = sink \<longrightarrow> ?P t c y"
      and step: "(case z_deflate zl z n of (ret, bs, strm) \<Rightarrow> case s bs t of (n', token) \<Rightarrow>
         if n' \<noteq> int (length bs) then Some (False, token, c)
         else if ret = Z_STREAM_END then Some (True, token, c @ bs)
         else f zl s n strm token (c @ bs)) = Some y"
    obtain ret bs strm where d: "z_deflate zl z n = (ret, bs, strm)" by (cases "z_deflate zl z n")
    show "s = sink \<longrightarrow> ?P t c y"
    proof (intro impI)
      assume s: "s = sink" and v: "valid t"
      obtain m t1 where m: "sink bs t = (m, t1)" by (cases "sink bs t")
      note fr = sink_frame [OF v m]
      show "frame t (fst (snd y)) \<and> valid (fst (snd y)) \<and> (bad t \<longrightarrow> bad (fst (snd y)))
        \<and> (fst y \<longrightarrow> (\<exists>w. view (fst (snd y)) = view t @ w \<and> snd (snd y) = c @ w))"
      proof (cases "m = int (length bs) \<and> ret \<noteq> Z_STREAM_END")
        case True
        with step d s m have "f zl sink n strm t1 (c @ bs) = Some y" by simp
        from IH [OF this] True fr sink_all [OF v, of bs t1] m show ?thesis
          by (auto intro: frame_trans)
      next
        case False
        with step d s m fr sink_all [OF v, of bs t1] show ?thesis by (auto split: if_splits)
      qed
    qed
  qed
  from this [OF assms(1)] assms(2) show ?thesis by simp
qed

lemma normal_chunk_sink:
  assumes "normal_chunk bz old patch sink p t c = Some (ok, p', t', c')" "valid t"
  shows "frame t t' \<and> valid t' \<and> (bad t \<longrightarrow> bad t')
    \<and> (ok \<longrightarrow> bad t' \<or> (\<exists>w. view t' = view t @ w \<and> c' = c @ w))"
  using assms
  by (auto simp: normal_chunk_def frame_refl split: if_splits bind_splits
      dest: ApplyBSDiffPatch_sink(1) ApplyBSDiffPatch_sink(3))

lemma raw_chunk_sink:
  assumes "raw_chunk patch sink p t c = Some (ok, p', t', c')" "valid t"
  shows "frame t t' \<and> valid t' \<and> (bad t \<longrightarrow> bad t')
    \<and> (ok \<longrightarrow> (\<exists>w. view t' = view t @ w \<and> c' = c @ w))"
proof -
  from assms(1) consider "t' = t" "\<not> ok"
    | m bs n where "bytes_at patch (p + 4) (nat m) = Some bs" "\<not> m < 0" "sink bs t = (n, t')"
        "ok \<longrightarrow> n = m \<and> c' = c @ bs"
    unfolding raw_chunk_def Let_def
    by (simp split: if_splits bind_splits prod.splits)
  then show ?thesis
  proof cases
    case (2 m bs n)
    then have "m = int (length bs)" by (auto simp: bytes_at_def split: if_splits)
    with 2 sink_frame [OF assms(2) 2(3)] sink_all [OF assms(2), of bs t'] show ?thesis by auto
  qed (use assms(2) in \<open>simp add: frame_refl\<close>)
qed

lemma deflate_chunk_sink:
  assumes "deflate_chunk bz zl old patch i bonus sink p t c = Some (ok, p', t', c')" "valid t"
  shows "frame t t' \<and> valid t' \<and> (bad t \<longrightarrow> bad t')
    \<and> (ok \<longrightarrow> (\<exists>w. view t' = view t @ w \<and> c' = c @ w))"
  using assms
  by (auto simp: deflate_chunk_def Let_def frame_refl split: if_splits bind_splits prod.splits
      dest: deflate_loop_sink)

lemma chunk_loop_sink:
  "chunk_loop bz zl old patch bonus sink n i p t c = Some (r, t', c') \<Longrightarrow> valid t \<Longrightarrow>
    frame t t' \<and> valid t' \<and> (bad t \<longrightarrow> bad t')
    \<and> (r = 0 \<longrightarrow> bad t' \<or> (\<exists>w. view t' = view t @ w \<and> c' = c @ w))"
proof (induction n arbitrary: i p t c)
  case 0
  then show ?case by (simp add: frame_refl)
next
  case (Suc n)
  show ?case
  proof (cases "p + 4 > length patch")
    case True
    with Suc.prems show ?thesis by (simp add: frame_refl)
  next
    case False
    with Suc.prems(1) obtain ty ok q t1 c1 where
      step: "(if ty = CHUNK_NORMAL then normal_chunk bz old patch sink (p + 4) t c
           else if ty = CHUNK_RAW then raw_chunk patch sink (p + 4) t c
           else if ty = CHUNK_DEFLATE then deflate_chunk bz zl old patch i bonus sink (p + 4) t c
           else Some (False, p, t, c)) = Some (ok, q, t1, c1)"
      and cont: "(if ok then chunk_loop bz zl old patch bonus sink n (i + 1) q t1 c1
           else Some (- 1, t1, c1)) = Some (r, t', c')"
      by (auto split: bind_splits)
    have s: "frame t t1 \<and> valid t1 \<and> (bad t \<longrightarrow> bad t1)
      \<and> (ok \<longrightarrow> bad t1 \<or> (\<exists>w. view t1 = view t @ w \<and> c1 = c @ w))"
      using step Suc.prems(2) normal_chunk_sink [of bz old patch "p + 4" t c]
        raw_chunk_sink [of patch "p + 4" t c] deflate_chunk_sink [of bz zl old patch i bonus "p + 4" t c]
      by (auto simp: frame_refl split: if_splits)
    show ?thesis
    proof (cases ok)
      case True
      with cont have "chunk_loop bz zl old patch bonus sink n (i + 1) q t1 c1 = Some (r, t', c')" by simp
      from Suc.IH [OF this] s True show ?thesis by (auto intro: frame_trans)
    qed (use cont s in auto)
  qed
qed

lemma ApplyImagePatch_sink:
  assumes "ApplyImagePatch bz zl old patch sink t c bonus = Some (r, t', c')" "valid t"
  shows "frame t t' \<and> valid t' \<and> (bad t \<longrightarrow> bad t')
    \<and> (r = 0 \<longrightarrow> bad t' \<or> (\<exists>w. view t' = view t @ w \<and> c' = c @ w))"
  using assms
  by (auto simp: ApplyImagePatch_def frame_refl split: if_splits bind_splits dest: chunk_loop_sink)

end

section \<open>The sinks of applypatch\<close>

text \<open>A sink into the file \<open>p\<close> only touches that file; a sink into memory changes nothing else at all.\<close>

definition file_content :: "path \<Rightarrow> world \<Rightarrow> byte list" where
  "file_content p w = (case lookup w p of Some f \<Rightarrow> content f | None \<Rightarrow> [])"

interpretation file_sink: output_sink "FileSink p" "file_content p" "\<lambda>w. lookup w p \<noteq> None" short
  "touches ((=) p)"
proof (unfold_locales, goal_cases)
  case (2 t1 t2 t3)
  then show ?case by (rule touches_trans)
next
  case (3 w bs n w')
  then show ?case by (auto dest: FileSink_result)
next
  case (4 w bs w')
  then obtain f where f: "lookup w p = Some f" by auto
  from FileSink_result(3) [OF 4(2) f] f show ?case by (auto simp: file_content_def)
next
  case (5 w bs n w')
  then obtain f where f: "lookup w p = Some f" by auto
  from FileSink_result(3) [OF 5(2) f] f 5(3) show ?case by (auto simp: file_content_def)
qed simp

interpretation memory_sink: output_sink "MemorySink capacity" "\<lambda>b. b" "\<lambda>b. True" "\<lambda>b. False" "\<lambda>b b'. True"
  by unfold_locales (auto simp: MemorySink_def split: if_splits)

end
