(* ===== verification/ApplyPatch.thy ===== *)
theory ApplyPatch
  imports SinkLaws PartitionWrite Edify
begin

text \<open>
  \<open>applypatch\<close> and \<open>GenerateTarget\<close> of \<open>applypatch/applypatch.c\<close>: patching a file or partition so that
  an interruption at any point can be recovered from.  The patch formats are those of BsPatch and
  ImgPatch; bzip2, zlib and SHA-1 are parameters.  The order of the effects is the order of the C
  text; \<open>fsync\<close>, \<open>close\<close>, \<open>free\<close> and the console have no effect on the model.
\<close>

section \<open>Generating the target\<close>

text \<open>The arguments of \<open>GenerateTarget\<close>.\<close>

record patch_job =
  j_source :: FileContents
  j_source_patch :: "Value option"
  j_copy :: FileContents
  j_copy_patch :: "Value option"
  j_source_name :: string
  j_target_name :: string
  j_sha1 :: "byte list"
  j_size :: nat
  j_bonus :: "byte list option"

text \<open>The top-level directory of a file; the empty name is read past its end.\<close>

definition target_fs :: "string \<Rightarrow> string ub" where
  "target_fs target_filename =
     (case target_filename of
        [] \<Rightarrow> None
      | c # cs \<Rightarrow> if CHR ''/'' \<in> set cs then Some (c # takeWhile ((\<noteq>) CHR ''/'') cs)
                 else Some target_filename)"

text \<open>Saving the source in the cache, with room made for it: \<open>False\<close> when that fails.\<close>

definition backup_source :: "patch_job \<Rightarrow> world \<Rightarrow> (bool \<times> world) ub" where
  "backup_source job w = do {
     bytes \<leftarrow> fc_size (j_source job);
     (case MakeFreeSpaceOnCache bytes w of
        (r, w) \<Rightarrow>
          if r < 0 then Some (False, w)
          else do {
            (r, w) \<leftarrow> SaveFileContents CACHE_TEMP_SOURCE (j_source job) w;
            Some (\<not> r < 0, w)
          })
   }"

definition enough_space :: "nat \<Rightarrow> nat \<Rightarrow> bool" where
  "enough_space free_space tgt_size \<longleftrightarrow>
     free_space > 262144 \<and> free_space > tgt_size * 3 mod 2 ^ 32 div 2"

text \<open>
  The first part of the loop body: room for the target.  The result is \<open>None\<close> to give up, else the
  new values of \<open>retry\<close> and \<open>made_copy\<close>.
\<close>

definition make_room_for_target ::
  "patch_job \<Rightarrow> path \<Rightarrow> nat \<Rightarrow> bool \<Rightarrow> world \<Rightarrow> ((nat \<times> bool) option \<times> world) ub" where
  "make_room_for_target job fs retry made_copy w =
     (if is_partition (j_target_name job) then do {
        (ok, w) \<leftarrow> backup_source job w;
        Some (if ok then Some (0, True) else None, w)
      } else
        (case (if retry > 0
               then (case FreeSpaceForFile fs w of (n, w) \<Rightarrow> (enough_space n (j_size job), w))
               else (False, w)) of
           (enough, w) \<Rightarrow>
             let retry = (if enough then retry else 0) in
             if \<not> enough \<and> j_source_patch job \<noteq> None then
               (if is_partition (j_source_name job) then Some (None, w)
                else do {
                  (ok, w) \<leftarrow> backup_source job w;
                  if \<not> ok then Some (None, w)
                  else (case unlink (j_source_name job) w of
                    (_, w) \<Rightarrow> (case FreeSpaceForFile fs w of
                      (_, w) \<Rightarrow> Some (Some (retry, True), w)))
                })
             else Some (Some (retry, made_copy), w)))"

text \<open>Applying a patch of either format; \<open>None\<close> inside for an unknown format.\<close>

definition apply_patch_data ::
  "'s bz2 \<Rightarrow> 'z zlib \<Rightarrow> byte list \<Rightarrow> byte list option \<Rightarrow> 't sink \<Rightarrow> 't \<Rightarrow> byte list option
    \<Rightarrow> (int \<times> 't \<times> byte list) option ub" where
  "apply_patch_data bz zl src patch sink token bonus =
     (case patch of
        None \<Rightarrow> Some None
      | Some header \<Rightarrow>
          if length header \<ge> 8 \<and> take 8 header = bsdiff_magic
          then do { r \<leftarrow> ApplyBSDiffPatch bz src header 0 sink token []; Some (Some r) }
          else if length header \<ge> 8 \<and> take 8 header = imgdiff_magic
          then do { r \<leftarrow> ApplyImagePatch bz zl src header sink token [] bonus; Some (Some r) }
          else Some None)"

definition patch_name :: "string \<Rightarrow> path" where
  "patch_name target_filename = target_filename @ ''.patch''"

text \<open>
  How an iteration ends: with a return value, with another iteration, or with an output (what the SHA
  context was given, and the memory buffer when the target is a partition).
\<close>

datatype attempt = Return int | Retry | Output "byte list" "byte list"

definition attempt_target ::
  "'s bz2 \<Rightarrow> 'z zlib \<Rightarrow> patch_job \<Rightarrow> path \<Rightarrow> nat \<Rightarrow> bool \<Rightarrow> world \<Rightarrow> (attempt \<times> bool \<times> world) ub" where
  "attempt_target bz zl job fs retry made_copy w = do {
     (room, w) \<leftarrow> make_room_for_target job fs retry made_copy w;
     (case room of
        None \<Rightarrow> Some (Return 1, made_copy, w)
      | Some (retry, made_copy) \<Rightarrow> do {
          let from_source = j_source_patch job \<noteq> None;
          src \<leftarrow> fc_data (if from_source then j_source job else j_copy job);
          patch \<leftarrow> (if from_source then j_source_patch job else j_copy_patch job);
          (case patch of
             VAL_STRING _ \<Rightarrow> Some (Return 1, made_copy, w)
           | VAL_BLOB header \<Rightarrow>
               if is_partition (j_target_name job) then do {
                 r \<leftarrow> apply_patch_data bz zl src header
                        (MemorySink (sint (word_of_nat (j_size job) :: 32 word))) [] (j_bonus job);
                 (case r of
                    None \<Rightarrow> Some (Return 1, made_copy, w)
                  | Some (result, buffer, ctx) \<Rightarrow>
                      if result = 0 then Some (Output ctx buffer, made_copy, w)
                      else if retry = 0 then Some (Return 1, made_copy, w)
                      else Some (Retry, made_copy, w))
               } else (let outname = patch_name (j_target_name job) in
                 case open_trunc outname w of
                   (ok, w) \<Rightarrow>
                     if \<not> ok then Some (Return 1, made_copy, w)
                     else do {
                       r \<leftarrow> apply_patch_data bz zl src header (FileSink outname) w (j_bonus job);
                       (case r of
                          None \<Rightarrow> Some (Return 1, made_copy, w)
                        | Some (result, w, ctx) \<Rightarrow>
                            if result = 0 then Some (Output ctx [], made_copy, w)
                            else if retry = 0 then Some (Return 1, made_copy, w)
                            else Some (Retry, made_copy, snd (unlink outname w)))
                     }))
        })
   }"

text \<open>
  The loop \<open>do ... while (retry-- > 0)\<close>.  An iteration that starts with \<open>retry = 0\<close> never asks for
  another.
\<close>

fun target_loop ::
  "'s bz2 \<Rightarrow> 'z zlib \<Rightarrow> patch_job \<Rightarrow> path \<Rightarrow> nat \<Rightarrow> bool \<Rightarrow> world \<Rightarrow> (attempt \<times> bool \<times> world) ub" where
  "target_loop bz zl job fs 0 made_copy w = attempt_target bz zl job fs 0 made_copy w"
| "target_loop bz zl job fs (Suc retry) made_copy w = do {
     (a, made_copy, w) \<leftarrow> attempt_target bz zl job fs (Suc retry) made_copy w;
     if a = Retry then target_loop bz zl job fs retry made_copy w else Some (a, made_copy, w)
   }"

text \<open>The part behind the loop: check the digest, put the output in place, drop the copy.\<close>

definition install_output ::
  "(byte list \<Rightarrow> byte list) \<Rightarrow> patch_job \<Rightarrow> byte list \<Rightarrow> byte list \<Rightarrow> bool \<Rightarrow> world \<Rightarrow> (int \<times> world) ub" where
  "install_output sha job ctx buffer made_copy w =
     (let finish = (\<lambda>w. Some (0, if made_copy then snd (unlink CACHE_TEMP_SOURCE w) else w));
          outname = patch_name (j_target_name job);
          source_to_use = (if j_source_patch job \<noteq> None then j_source job else j_copy job)
      in if memcmp (sha ctx) (j_sha1 job) SHA_DIGEST_SIZE \<noteq> 0 then Some (1, w)
      else if is_partition (j_target_name job) then do {
        (r, w) \<leftarrow> WriteToPartition buffer (j_target_name job) w;
        if r \<noteq> 0 then Some (1, w) else finish w
      }
      else (case chmod outname (fc_mode source_to_use) w of (r, w) \<Rightarrow>
        if r \<noteq> 0 then Some (1, w)
        else (case chown outname (fc_uid source_to_use) (fc_gid source_to_use) w of (r, w) \<Rightarrow>
          if r \<noteq> 0 then Some (1, w)
          else (case rename outname (j_target_name job) w of (r, w) \<Rightarrow>
            if r \<noteq> 0 then Some (1, w) else finish w))))"

definition GenerateTarget ::
  "'s bz2 \<Rightarrow> 'z zlib \<Rightarrow> (byte list \<Rightarrow> byte list) \<Rightarrow> patch_job \<Rightarrow> world \<Rightarrow> (int \<times> world) ub" where
  "GenerateTarget bz zl sha job w = do {
     fs \<leftarrow> target_fs (j_target_name job);
     (a, made_copy, w) \<leftarrow> target_loop bz zl job fs 1 False w;
     (case a of
        Return r \<Rightarrow> Some (r, w)
      | Output ctx buffer \<Rightarrow> install_output sha job ctx buffer made_copy w
      | Retry \<Rightarrow> None)
   }"

section \<open>Applying a patch\<close>

text \<open>The patch for a digest: \<open>None\<close> when there is none (or a null one).\<close>

definition patch_for :: "byte list \<Rightarrow> string list \<Rightarrow> Value option list \<Rightarrow> Value option ub" where
  "patch_for sha1 patch_sha1_str patch_data =
     (let to_use = FindMatchingPatch sha1 patch_sha1_str in
      if to_use \<ge> 0 then array_get patch_data (nat to_use) else Some None)"

definition applypatch ::
  "'s bz2 \<Rightarrow> 'z zlib \<Rightarrow> (byte list \<Rightarrow> byte list) \<Rightarrow> string \<Rightarrow> string \<Rightarrow> string \<Rightarrow> nat \<Rightarrow> string list
    \<Rightarrow> Value option list \<Rightarrow> byte list option \<Rightarrow> world \<Rightarrow> (int \<times> world) ub" where
  "applypatch bz zl sha source_filename target_arg target_sha1_str tgt_size patch_sha1_str
     patch_data bonus_data w =
     (let target_filename = (if target_arg = ''-'' then source_filename else target_arg) in
      case ParseSha1 target_sha1_str of
        None \<Rightarrow> Some (1, w)
      | Some target_sha1 \<Rightarrow> do {
          (r, source_file, w) \<leftarrow> LoadFileContents sha target_filename no_contents True w;
          if r = 0 \<and> memcmp (fc_sha1 source_file) target_sha1 SHA_DIGEST_SIZE = 0 then Some (0, w)
          else do {
            (source_file, w) \<leftarrow>
              (if fc_data source_file = None \<or> target_filename \<noteq> source_filename
               then do {
                 (r, f, w) \<leftarrow> LoadFileContents sha source_filename (source_file\<lparr>fc_data := None\<rparr>) True w;
                 Some (f, w)
               } else Some (source_file, w));
            source_patch \<leftarrow> (if fc_data source_file \<noteq> None
               then patch_for (fc_sha1 source_file) patch_sha1_str patch_data else Some None);
            let job = \<lparr>j_source = source_file, j_source_patch = source_patch, j_copy = no_contents,
                       j_copy_patch = None, j_source_name = source_filename,
                       j_target_name = target_filename, j_sha1 = target_sha1, j_size = tgt_size,
                       j_bonus = bonus_data\<rparr>;
            if source_patch \<noteq> None then GenerateTarget bz zl sha job w
            else do {
              (r, copy_file, w) \<leftarrow> LoadFileContents sha CACHE_TEMP_SOURCE no_contents True w;
              if r < 0 then Some (1, w)
              else do {
                copy_patch \<leftarrow> patch_for (fc_sha1 copy_file) patch_sha1_str patch_data;
                if copy_patch = None then Some (1, w)
                else GenerateTarget bz zl sha
                  (job\<lparr>j_source := source_file\<lparr>fc_data := None\<rparr>, j_copy := copy_file,
                       j_copy_patch := copy_patch\<rparr>) w
              }
            }
          }
        })"

section \<open>Recoverable file systems\<close>

text \<open>
  \<open>holds\<close>: a file whose masked contents have one of the digests \<open>D\<close>.  \<open>finished\<close>: the target has the
  target digest, as it is or masked.  \<open>recoverable\<close>: running the program again can succeed, for
  the source or its copy is good, or the target is done.
\<close>

definition holds :: "(byte list \<Rightarrow> byte list) \<Rightarrow> byte list set \<Rightarrow> files \<Rightarrow> path \<Rightarrow> bool" where
  "holds sha D fs p \<longleftrightarrow> (\<exists>f m. map_of fs p = Some f \<and> masked (content f) = Some m \<and> sha m \<in> D)"

definition finished :: "(byte list \<Rightarrow> byte list) \<Rightarrow> byte list \<Rightarrow> path \<Rightarrow> files \<Rightarrow> bool" where
  "finished sha t tgt fs \<longleftrightarrow> (\<exists>f. map_of fs tgt = Some f \<and>
     (sha (content f) = t \<or> (\<exists>m. masked (content f) = Some m \<and> sha m = t)))"

definition recoverable ::
  "(byte list \<Rightarrow> byte list) \<Rightarrow> byte list set \<Rightarrow> byte list \<Rightarrow> path \<Rightarrow> path \<Rightarrow> files \<Rightarrow> bool" where
  "recoverable sha D t src tgt fs \<longleftrightarrow>
     holds sha D fs src \<or> holds sha D fs CACHE_TEMP_SOURCE \<or> finished sha t tgt fs"

text \<open>Paths that do not get in each other's way.\<close>

definition ordinary :: "path \<Rightarrow> path \<Rightarrow> bool" where
  "ordinary src tgt \<longleftrightarrow> \<not> is_partition src \<and> \<not> is_partition tgt \<and> src \<noteq> CACHE_TEMP_SOURCE
     \<and> tgt \<noteq> CACHE_TEMP_SOURCE \<and> \<not> deletable src \<and> patch_name tgt \<noteq> src
     \<and> patch_name tgt \<noteq> CACHE_TEMP_SOURCE"

text \<open>From \<open>w\<close> to \<open>w'\<close> every file system has the property \<open>R\<close>.\<close>

definition always :: "(files \<Rightarrow> bool) \<Rightarrow> world \<Rightarrow> world \<Rightarrow> bool" where
  "always R w w' \<longleftrightarrow> R (files w') \<and> (\<exists>h. history w' = history w @ h \<and> (\<forall>fs \<in> set h. R fs))"

lemma always_trans: "always R w w1 \<Longrightarrow> always R w1 w2 \<Longrightarrow> always R w w2"
  unfolding always_def by (metis (no_types, lifting) Un_iff append_assoc set_append)

lemma always_touch:
  assumes "touches P w w'" "\<And>fs. agree P (files w) fs \<Longrightarrow> R fs"
  shows "always R w w'"
  using assms by (auto simp: touches_def always_def)

lemma always_tape: "tape_only w w' \<Longrightarrow> R (files w) \<Longrightarrow> always R w w'"
  by (simp add: always_def tape_only_dest)

lemma holds_agree: "holds sha D fs p \<Longrightarrow> agree P fs fs' \<Longrightarrow> \<not> P p \<Longrightarrow> holds sha D fs' p"
  by (auto simp: holds_def agree_def)

lemma finished_agree: "finished sha t p fs \<Longrightarrow> agree P fs fs' \<Longrightarrow> \<not> P p \<Longrightarrow> finished sha t p fs'"
  by (auto simp: finished_def agree_def)

text \<open>A file that holds stays while other files change, and everything stays recoverable.\<close>

lemma holds_touch:
  assumes "touches P w w'" "holds sha D (files w) p" "\<not> P p" "p = src \<or> p = CACHE_TEMP_SOURCE"
  shows "always (recoverable sha D t src tgt) w w' \<and> holds sha D (files w') p"
proof -
  have "agree P (files w) (files w')" using assms(1) by (simp add: touches_def)
  with assms show ?thesis
    by (auto intro!: always_touch [OF assms(1)] simp: recoverable_def dest: holds_agree)
qed

text \<open>
  What a job knows of the files: the source is intact until the copy was made, and a job that works
  from the copy has it.
\<close>

definition job_file :: "patch_job \<Rightarrow> bool \<Rightarrow> path" where
  "job_file job made = (if j_source_patch job \<noteq> None \<and> \<not> made then j_source_name job else CACHE_TEMP_SOURCE)"

definition job_ok :: "(byte list \<Rightarrow> byte list) \<Rightarrow> byte list set \<Rightarrow> patch_job \<Rightarrow> bool" where
  "job_ok sha D job \<longleftrightarrow> ordinary (j_source_name job) (j_target_name job)
     \<and> (j_source_patch job \<noteq> None \<longrightarrow> (\<exists>m. fc_data (j_source job) = Some m
          \<and> fc_size (j_source job) = Some (int (length m)) \<and> masked m = Some m \<and> sha m \<in> D))"

abbreviation job_safe :: "(byte list \<Rightarrow> byte list) \<Rightarrow> byte list set \<Rightarrow> patch_job \<Rightarrow> world \<Rightarrow> world \<Rightarrow> bool" where
  "job_safe sha D job \<equiv> always (recoverable sha D (j_sha1 job) (j_source_name job) (j_target_name job))"

lemma job_touch:
  assumes "touches P w w'" "holds sha D (files w) (job_file job made)" "\<not> P (job_file job made)"
  shows "job_safe sha D job w w' \<and> holds sha D (files w') (job_file job made)"
  using assms by (intro holds_touch) (auto simp: job_file_def)

lemma SaveFileContents_code: "SaveFileContents p fc w = Some (r, w') \<Longrightarrow> r = 0 \<or> r = - 1"
  by (auto simp: SaveFileContents_def Let_def split: prod.splits if_splits bind_splits)

section \<open>The steps of a job are safe\<close>

lemma backup_source_safe:
  assumes "backup_source job w = Some (ok, w')" "job_ok sha D job" "j_source_patch job \<noteq> None"
    and "holds sha D (files w) (j_source_name job)"
  shows "job_safe sha D job w w'" "ok \<Longrightarrow> holds sha D (files w') CACHE_TEMP_SOURCE"
proof -
  let ?src = "j_source_name job"
  obtain m where m: "fc_data (j_source job) = Some m" "fc_size (j_source job) = Some (int (length m))"
    "masked m = Some m" "sha m \<in> D" using assms(2,3) by (auto simp: job_ok_def)
  have src: "\<not> deletable ?src" "?src \<noteq> CACHE_TEMP_SOURCE"
    using assms(2) by (auto simp: job_ok_def ordinary_def)
  have jf: "job_file job False = ?src" using assms(3) by (simp add: job_file_def)
  obtain r w1 where r: "MakeFreeSpaceOnCache (int (length m)) w = (r, w1)"
    by (cases "MakeFreeSpaceOnCache (int (length m)) w")
  have t1: "touches (\<lambda>p. deletable p \<and> \<not> is_open w p) w w1"
    using MakeFreeSpaceOnCache_removes [OF r] by (simp add: only_removes_def)
  from job_touch [OF this, of sha D job False] assms(4) src jf
  have s1: "job_safe sha D job w w1" "holds sha D (files w1) ?src" by auto
  have "job_safe sha D job w w' \<and> (ok \<longrightarrow> holds sha D (files w') CACHE_TEMP_SOURCE)"
  proof (cases "r < 0")
    case True
    with assms(1) m r s1 show ?thesis by (auto simp: backup_source_def)
  next
    case False
    with assms(1) m r obtain r' where sv: "SaveFileContents CACHE_TEMP_SOURCE (j_source job) w1 = Some (r', w')"
      "ok \<longleftrightarrow> \<not> r' < 0"
      by (auto simp: backup_source_def split: bind_splits)
    note t2 = SaveFileContents_result [OF sv(1)]
    from job_touch [OF t2(1), of sha D job False] s1 src(2) jf
    have "job_safe sha D job w1 w'" by auto
    moreover have "holds sha D (files w') CACHE_TEMP_SOURCE" if ok
      using t2(2) [OF _ m(1,2)] SaveFileContents_code [OF sv(1)] sv(2) that m(3,4)
      by (auto simp: holds_def lookup_def)
    ultimately show ?thesis using s1(1) always_trans by blast
  qed
  then show "job_safe sha D job w w'" "ok \<Longrightarrow> holds sha D (files w') CACHE_TEMP_SOURCE" by blast+
qed

lemma make_room_safe:
  assumes "make_room_for_target job fs retry False w = Some (room, w')" "job_ok sha D job"
    and "holds sha D (files w) (job_file job False)"
  shows "job_safe sha D job w w'" "room = Some (retry', made) \<Longrightarrow> holds sha D (files w') (job_file job made)"
    "room = Some (retry', made) \<Longrightarrow> retry' \<noteq> 0 \<Longrightarrow> \<not> made"
proof -
  have np: "\<not> is_partition (j_target_name job)" "\<not> is_partition (j_source_name job)"
    using assms(2) by (auto simp: job_ok_def ordinary_def)
  let ?g = "job_safe sha D job w w' \<and> (\<forall>retry' made. room = Some (retry', made) \<longrightarrow>
    holds sha D (files w') (job_file job made) \<and> (retry' \<noteq> 0 \<longrightarrow> \<not> made))"
  define q where "q = (if retry > 0
      then (case FreeSpaceForFile fs w of (n, w) \<Rightarrow> (enough_space n (j_size job), w)) else (False, w))"
  obtain enough w1 where e: "q = (enough, w1)" by (cases q)
  have t: "tape_only w w1"
    using e unfolding q_def by (auto split: if_splits prod.splits dest: FreeSpaceForFile_tape_only)
  have s1: "job_safe sha D job w w1 \<and> holds sha D (files w1) (job_file job False)"
    using job_touch [OF tape_only_dest(1) [OF t, of "\<lambda>_. False"] assms(3)] by simp
  have ?g
  proof (cases "\<not> enough \<and> j_source_patch job \<noteq> None")
    case False
    then have "make_room_for_target job fs retry False w
        = Some (Some (if enough then retry else 0, False), w1)"
      using np(1) e unfolding make_room_for_target_def q_def [symmetric] by (cases enough) (auto simp: Let_def)
    with assms(1) s1 show ?thesis by auto
  next
    case True
    then have run: "make_room_for_target job fs retry False w = do {
        (ok, w) \<leftarrow> backup_source job w1;
        if \<not> ok then Some (None, w)
        else (case unlink (j_source_name job) w of
          (_, w) \<Rightarrow> (case FreeSpaceForFile fs w of (_, w) \<Rightarrow> Some (Some (0, True), w))) }"
      using np e unfolding make_room_for_target_def q_def [symmetric] by (simp add: Let_def)
    then obtain ok w2 where b: "backup_source job w1 = Some (ok, w2)"
      using assms(1) by (auto split: bind_splits)
    have "holds sha D (files w1) (j_source_name job)"
      using s1 True by (simp add: job_file_def)
    note bs = backup_source_safe [OF b assms(2) conjunct2 [OF True] this]
    show ?thesis
    proof (cases ok)
      case False
      with assms(1) run b bs(1) s1 show ?thesis by (auto intro: always_trans)
    next
      case ok: True
      obtain r w3 where u: "unlink (j_source_name job) w2 = (r, w3)" by (cases "unlink (j_source_name job) w2")
      obtain n w4 where f: "FreeSpaceForFile fs w3 = (n, w4)" by (cases "FreeSpaceForFile fs w3")
      have w': "room = Some (0, True)" "w' = w4" using assms(1) run b ok u f by auto
      have cache: "job_file job True = CACHE_TEMP_SOURCE" "j_source_name job \<noteq> CACHE_TEMP_SOURCE"
        using assms(2) by (auto simp: job_file_def job_ok_def ordinary_def)
      have s3: "job_safe sha D job w2 w3 \<and> holds sha D (files w3) (job_file job True)"
        using job_touch [OF unlink_touches [OF u], of sha D job True] bs(2) [OF ok] cache by auto
      have s4: "job_safe sha D job w3 w4 \<and> holds sha D (files w4) (job_file job True)"
        using job_touch [OF tape_only_dest(1) [OF FreeSpaceForFile_tape_only [OF f], of "\<lambda>_. False"],
            of sha D job True] s3 by simp
      from s1 bs(1) s3 s4 w' show ?thesis by (auto intro: always_trans)
    qed
  qed
  then show "job_safe sha D job w w'" "room = Some (retry', made) \<Longrightarrow> holds sha D (files w') (job_file job made)"
    "room = Some (retry', made) \<Longrightarrow> retry' \<noteq> 0 \<Longrightarrow> \<not> made" by blast+
qed

text \<open>
  What an output means: the file \<open>.patch\<close> holds what the SHA context was given, unless a write fell
  short and the patch is an image patch, whose code does not look at that.
\<close>

definition image_patch :: "patch_job \<Rightarrow> bool" where
  "image_patch job \<longleftrightarrow> (\<exists>h. (if j_source_patch job \<noteq> None then j_source_patch job else j_copy_patch job)
      = Some (VAL_BLOB (Some h)) \<and> take 8 h = imgdiff_magic)"

lemma apply_patch_data_file:
  assumes "apply_patch_data bz zl src patch (FileSink p) w bonus = Some (Some (r, w', ctx))"
    and "lookup w p = Some f" "content f = []"
  shows "touches ((=) p) w w' \<and> lookup w' p \<noteq> None \<and> (short w \<longrightarrow> short w')
    \<and> (r = 0 \<longrightarrow> file_content p w' = ctx \<or> short w' \<and> (\<exists>h. patch = Some h \<and> take 8 h = imgdiff_magic))"
proof -
  have w: "lookup w p \<noteq> None" "file_content p w = []" using assms by (auto simp: file_content_def)
  from assms(1) consider
      h where "ApplyBSDiffPatch bz src h 0 (FileSink p) w [] = Some (r, w', ctx)"
    | h where "patch = Some h" "take 8 h = imgdiff_magic"
        "ApplyImagePatch bz zl src h (FileSink p) w [] bonus = Some (r, w', ctx)"
    by (auto simp: apply_patch_data_def split: option.splits if_splits bind_splits)
  then show ?thesis
  proof cases
    case (1 h)
    from file_sink.ApplyBSDiffPatch_sink(1,2) [OF 1 w(1)] w(2) show ?thesis by auto
  next
    case (2 h)
    from file_sink.ApplyImagePatch_sink [OF 2(3) w(1)] w(2) 2(1,2) show ?thesis by auto
  qed
qed

lemma attempt_target_safe:
  assumes "attempt_target bz zl job fs retry False w = Some (a, made, w')" "job_ok sha D job"
    and "holds sha D (files w) (job_file job False)"
  shows "job_safe sha D job w w'" "a = Retry \<Longrightarrow> \<not> made \<and> holds sha D (files w') (job_file job False)"
    "a = Return r \<Longrightarrow> r = 1"
    "a = Output ctx buf \<Longrightarrow> holds sha D (files w') (job_file job made)
      \<and> (\<exists>f. lookup w' (patch_name (j_target_name job)) = Some f
           \<and> (content f = ctx \<or> short w' \<and> image_patch job))"
proof -
  let ?out = "patch_name (j_target_name job)"
  let ?g = "job_safe sha D job w w' \<and> (a = Retry \<longrightarrow> \<not> made \<and> holds sha D (files w') (job_file job False))
    \<and> (\<forall>r. a = Return r \<longrightarrow> r = 1)
    \<and> (\<forall>ctx buf. a = Output ctx buf \<longrightarrow> holds sha D (files w') (job_file job made)
        \<and> (\<exists>f. lookup w' ?out = Some f \<and> (content f = ctx \<or> short w' \<and> image_patch job)))"
  have np: "\<not> is_partition (j_target_name job)" and
    out: "?out \<noteq> j_source_name job" "?out \<noteq> CACHE_TEMP_SOURCE"
    using assms(2) by (auto simp: job_ok_def ordinary_def)
  from assms(1) obtain room w1 where room: "make_room_for_target job fs retry False w = Some (room, w1)"
    by (auto simp: attempt_target_def split: bind_splits)
  note mr = make_room_safe [OF room assms(2,3)]
  have ?g
  proof (cases room)
    case None
    with assms(1) room mr(1) show ?thesis by (auto simp: attempt_target_def)
  next
    case (Some x)
    obtain retry1 made1 where x: "x = (retry1, made1)" by (cases x)
    define src where "src = fc_data (if j_source_patch job \<noteq> None then j_source job else j_copy job)"
    define patch where "patch = (if j_source_patch job \<noteq> None then j_source_patch job else j_copy_patch job)"
    have img: "patch = Some (VAL_BLOB (Some h)) \<Longrightarrow> take 8 h = imgdiff_magic \<Longrightarrow> image_patch job" for h
      by (simp add: patch_def image_patch_def)
    have h1: "holds sha D (files w1) (job_file job made1)" and m1: "retry1 \<noteq> 0 \<Longrightarrow> \<not> made1"
      using mr(2,3) Some x by auto
    have file_ne: "?out \<noteq> job_file job made1" using out by (simp add: job_file_def)
    have run: "attempt_target bz zl job fs retry False w = do {
       src \<leftarrow> src; patch \<leftarrow> patch;
       (case patch of
          VAL_STRING _ \<Rightarrow> Some (Return 1, made1, w1)
        | VAL_BLOB header \<Rightarrow>
            (case open_trunc ?out w1 of
               (ok, w) \<Rightarrow>
                 if \<not> ok then Some (Return 1, made1, w)
                 else do {
                   r \<leftarrow> apply_patch_data bz zl src header (FileSink ?out) w (j_bonus job);
                   (case r of
                      None \<Rightarrow> Some (Return 1, made1, w)
                    | Some (result, w, ctx) \<Rightarrow>
                        if result = 0 then Some (Output ctx [], made1, w)
                        else if retry1 = 0 then Some (Return 1, made1, w)
                        else Some (Retry, made1, snd (unlink ?out w)))
                 })) }"
      using room Some x np unfolding attempt_target_def src_def patch_def by (simp add: Let_def)
    then obtain sd pt where sd: "src = Some sd" "patch = Some pt"
      using assms(1) by (auto split: bind_splits)
    show ?thesis
    proof (cases pt)
      case (VAL_STRING s)
      with assms(1) run sd mr(1) show ?thesis by auto
    next
      case (VAL_BLOB header)
      obtain ok w2 where o: "open_trunc ?out w1 = (ok, w2)" by (cases "open_trunc ?out w1")
      note s2 = job_touch [OF open_trunc_touches [OF o], of sha D job made1, OF h1 file_ne]
      note s12 = always_trans [OF mr(1) conjunct1 [OF s2]]
      show ?thesis
      proof (cases ok)
        case False
        with assms(1) run sd VAL_BLOB o s12 show ?thesis by auto
      next
        case True
        with o obtain f where f: "lookup w2 ?out = Some f" "content f = []"
          by (auto simp: open_trunc_def draw_def split: if_splits option.splits)
        obtain r where r: "apply_patch_data bz zl sd header (FileSink ?out) w2 (j_bonus job) = Some r"
          using assms(1) run sd VAL_BLOB o True by (auto split: bind_splits)
        show ?thesis
        proof (cases r)
          case None
          with assms(1) run sd VAL_BLOB o True r s12 show ?thesis by auto
        next
          case (Some y)
          obtain result w3 ctx where y: "y = (result, w3, ctx)" by (cases y)
          note ap = apply_patch_data_file [OF r [unfolded Some y] f]
          have s3: "job_safe sha D job w2 w3 \<and> holds sha D (files w3) (job_file job made1)"
            using job_touch [of "(=) ?out" w2 w3 sha D job made1] ap s2 file_ne by blast
          note s123 = always_trans [OF s12 conjunct1 [OF s3]]
          show ?thesis
          proof (cases "result = 0")
            case ok0: True
            then have "a = Output ctx [] \<and> made = made1 \<and> w' = w3"
              using assms(1) run sd VAL_BLOB o True r Some y by auto
            moreover have "\<exists>f. lookup w3 ?out = Some f \<and> (content f = ctx \<or> short w3 \<and> image_patch job)"
              using ap ok0 img sd(2) VAL_BLOB by (auto simp: file_content_def split: option.splits)
            ultimately show ?thesis using s123 s3 by auto
          next
            case bad: False
            obtain u w4 where u: "unlink ?out w3 = (u, w4)" by (cases "unlink ?out w3")
            have s4: "job_safe sha D job w3 w4 \<and> holds sha D (files w4) (job_file job made1)"
              using job_touch [OF unlink_touches [OF u], of sha D job made1] s3 file_ne by blast
            note s1234 = always_trans [OF s123 conjunct1 [OF s4]]
            show ?thesis
              using assms(1) run sd VAL_BLOB o True r Some y bad u s123 s4 s1234 m1
              by (cases "retry1 = 0") auto
          qed
        qed
      qed
    qed
  qed
  then show "job_safe sha D job w w'" "a = Retry \<Longrightarrow> \<not> made \<and> holds sha D (files w') (job_file job False)"
    "a = Return r \<Longrightarrow> r = 1"
    "a = Output ctx buf \<Longrightarrow> holds sha D (files w') (job_file job made)
      \<and> (\<exists>f. lookup w' (patch_name (j_target_name job)) = Some f
           \<and> (content f = ctx \<or> short w' \<and> image_patch job))" by blast+
qed

lemma target_loop_safe:
  assumes "target_loop bz zl job fs retry False w = Some (a, made, w')" "job_ok sha D job"
    and "holds sha D (files w) (job_file job False)"
  shows "job_safe sha D job w w' \<and> (\<forall>r. a = Return r \<longrightarrow> r = 1)
    \<and> (\<forall>ctx buf. a = Output ctx buf \<longrightarrow> holds sha D (files w') (job_file job made)
      \<and> (\<exists>f. lookup w' (patch_name (j_target_name job)) = Some f
           \<and> (content f = ctx \<or> short w' \<and> image_patch job)))"
  using assms
proof (induction retry arbitrary: w)
  case 0
  then show ?case using attempt_target_safe [of bz zl job fs 0 w a made w' sha D] by simp
next
  case (Suc retry)
  from Suc.prems(1) obtain a1 made1 w1 where
    at: "attempt_target bz zl job fs (Suc retry) False w = Some (a1, made1, w1)"
    by (auto split: bind_splits)
  note s1 = attempt_target_safe [OF at Suc.prems(2,3)]
  show ?case
  proof (cases "a1 = Retry")
    case True
    with Suc.prems(1) at s1(2) have "target_loop bz zl job fs retry False w1 = Some (a, made, w')" by auto
    from Suc.IH [OF this Suc.prems(2)] s1(1,2) True show ?thesis by (auto intro: always_trans)
  next
    case False
    with Suc.prems(1) at have "a1 = a" "made1 = made" "w1 = w'" by auto
    with s1 show ?thesis by blast
  qed
qed

lemma chmod_chown_content:
  assumes "chmod p m w = (r, w1)" "chown p u g w1 = (r', w')" "lookup w p = Some f"
  shows "\<exists>f'. lookup w' p = Some f' \<and> content f' = content f"
  using assms by (auto simp: chmod_def chown_def draw_def split: if_splits)

lemma memcmp_sha:
  assumes "\<forall>bs. length (sha bs) = 20" "length t = 20"
  shows "memcmp (sha bs) t SHA_DIGEST_SIZE = 0 \<longleftrightarrow> sha bs = t"
  using assms memcmp_eq_0 [of "sha bs" t] by (simp add: SHA_DIGEST_SIZE_def)

lemma finished_safe:
  assumes "finished sha t tgt (files w)" "tgt \<noteq> CACHE_TEMP_SOURCE"
    and "w' = (if made then snd (unlink CACHE_TEMP_SOURCE w) else w)"
  shows "always (recoverable sha D t src tgt) w w' \<and> finished sha t tgt (files w')"
proof -
  have t: "touches ((=) CACHE_TEMP_SOURCE) w w'"
    using unlink_touches [of CACHE_TEMP_SOURCE w "fst (unlink CACHE_TEMP_SOURCE w)" w'] assms(3)
    by (cases made) auto
  then have "agree ((=) CACHE_TEMP_SOURCE) (files w) (files w')" by (simp add: touches_def)
  with assms(1,2) show ?thesis
    by (auto intro!: always_touch [OF t] simp: recoverable_def dest: finished_agree)
qed

lemma install_output_safe:
  assumes "install_output sha job ctx buf made w = Some (r, w')" "job_ok sha D job"
    and "holds sha D (files w) (job_file job made)"
    and "lookup w (patch_name (j_target_name job)) = Some f"
    and "content f = ctx \<or> short w \<and> image_patch job" "\<not> (short w' \<and> image_patch job)"
    and "\<forall>bs. length (sha bs) = 20" "length (j_sha1 job) = 20"
  shows "job_safe sha D job w w' \<and> (r = 0 \<longrightarrow> finished sha (j_sha1 job) (j_target_name job) (files w'))"
proof -
  let ?out = "patch_name (j_target_name job)" and ?tgt = "j_target_name job" and ?t = "j_sha1 job"
  have np: "\<not> is_partition ?tgt" "?tgt \<noteq> CACHE_TEMP_SOURCE"
    and out: "?out \<noteq> j_source_name job" "?out \<noteq> CACHE_TEMP_SOURCE"
    using assms(2) by (auto simp: job_ok_def ordinary_def)
  have file_ne: "?out \<noteq> job_file job made" using out by (simp add: job_file_def)
  define use where "use = (if j_source_patch job \<noteq> None then j_source job else j_copy job)"
  define finish where "finish = (\<lambda>w. if made then snd (unlink CACHE_TEMP_SOURCE w) else w)"
  have run: "install_output sha job ctx buf made w =
    (if sha ctx \<noteq> ?t then Some (1, w)
     else (case chmod ?out (fc_mode use) w of (r, w) \<Rightarrow>
        if r \<noteq> 0 then Some (1, w)
        else (case chown ?out (fc_uid use) (fc_gid use) w of (r, w) \<Rightarrow>
          if r \<noteq> 0 then Some (1, w)
          else (case rename ?out ?tgt w of (r, w) \<Rightarrow>
            if r \<noteq> 0 then Some (1, w) else Some (0, finish w)))))"
    unfolding install_output_def Let_def memcmp_sha [OF assms(7,8)] use_def finish_def
    by (simp only: np if_False)
  have refl: "job_safe sha D job w w \<and> holds sha D (files w) (job_file job made)"
    using job_touch [OF touches_refl [of "\<lambda>_. False"] assms(3)] by simp
  show ?thesis
  proof (cases "sha ctx = ?t")
    case False
    with assms(1) run refl show ?thesis by auto
  next
    case t: True
    obtain r1 w1 where c1: "chmod ?out (fc_mode use) w = (r1, w1)" by (cases "chmod ?out (fc_mode use) w")
    obtain r2 w2 where c2: "chown ?out (fc_uid use) (fc_gid use) w1 = (r2, w2)"
      by (cases "chown ?out (fc_uid use) (fc_gid use) w1")
    obtain r3 w3 where c3: "rename ?out ?tgt w2 = (r3, w3)" by (cases "rename ?out ?tgt w2")
    have s1: "job_safe sha D job w w1 \<and> holds sha D (files w1) (job_file job made)"
      using job_touch [OF chmod_touches [OF c1] assms(3)] file_ne by simp
    have s2: "job_safe sha D job w1 w2 \<and> holds sha D (files w2) (job_file job made)"
      using job_touch [OF chown_touches [OF c2] conjunct2 [OF s1]] file_ne by simp
    note s12 = always_trans [OF conjunct1 [OF s1] conjunct1 [OF s2]]
    obtain f' where f': "lookup w2 ?out = Some f'" "content f' = content f"
      using chmod_chown_content [OF c1 c2 assms(4)] by blast
    show ?thesis
    proof (cases "r1 = 0 \<and> r2 = 0")
      case False
      with assms(1) run t c1 c2 s1 s12 show ?thesis by (auto split: if_splits)
    next
      case ok: True
      show ?thesis
      proof (cases "r3 = 0")
        case False
        then have "files w3 = files w2" "history w3 = history w2"
          using c3 f' by (auto simp: rename_def draw_def split: if_splits)
        with s12 have "job_safe sha D job w w3" by (simp add: always_def)
        with assms(1) run t c1 c2 c3 ok False show ?thesis by auto
      next
        case True
        have w': "r = 0" "w' = finish w3" using assms(1) run t c1 c2 c3 ok True by auto
        have "short w' = short w"
          using short_kept(3) [OF c1] short_kept(4) [OF c2] short_kept(6) [OF c3]
            short_kept(5) [of CACHE_TEMP_SOURCE w3 _ w'] w'(2)
          by (cases "unlink CACHE_TEMP_SOURCE w3") (auto simp: finish_def split: if_splits)
        with assms(5,6) have ctx: "content f' = ctx" using f'(2) by auto
        have fs3: "files w3 = AList.update ?tgt f' (AList.delete ?out (files w2))"
          "history w3 = history w2 @ [files w3]"
          using c3 f'(1) True by (auto simp: rename_def draw_def split: if_splits)
        have fin: "finished sha ?t ?tgt (files w3)"
          using ctx t by (simp add: finished_def fs3(1))
        then have "job_safe sha D job w2 w3"
          by (simp add: always_def fs3(2) recoverable_def)
        moreover note finished_safe [OF fin np(2) w'(2) [unfolded finish_def], of D "j_source_name job"]
        ultimately show ?thesis using s12 by (blast intro: always_trans)
      qed
    qed
  qed
qed

lemma install_output_short:
  assumes "install_output sha job ctx buf made w = Some (r, w')" "\<not> is_partition (j_target_name job)"
  shows "short w' = short w"
proof -
  have u: "short (snd (unlink p v)) = short v" for p v
    using short_kept(5) [of p v] by (cases "unlink p v") auto
  show ?thesis
    using assms
    by (auto simp: install_output_def Let_def u split: if_splits prod.splits
        dest!: short_kept(3) short_kept(4) short_kept(6))
qed

lemma GenerateTarget_safe:
  assumes "GenerateTarget bz zl sha job w = Some (r, w')" "job_ok sha D job"
    and "holds sha D (files w) (job_file job False)" "\<not> (short w' \<and> image_patch job)"
    and "\<forall>bs. length (sha bs) = 20" "length (j_sha1 job) = 20"
  shows "job_safe sha D job w w' \<and> (r = 0 \<longrightarrow> finished sha (j_sha1 job) (j_target_name job) (files w'))"
proof -
  from assms(1) obtain fs a made w1 where
    l: "target_loop bz zl job fs 1 False w = Some (a, made, w1)"
    and rest_: "(case a of
        Return r \<Rightarrow> Some (r, w1)
      | Output ctx buffer \<Rightarrow> install_output sha job ctx buffer made w1
      | Retry \<Rightarrow> None) = Some (r, w')"
    by (auto simp: GenerateTarget_def simp del: target_loop.simps One_nat_def split: bind_splits)
  note s = target_loop_safe [OF l assms(2,3)]
  show ?thesis
  proof (cases a)
    case (Output ctx buf)
    with rest_ have i: "install_output sha job ctx buf made w1 = Some (r, w')" by simp
    from s Output obtain f where f: "holds sha D (files w1) (job_file job made)"
      "lookup w1 (patch_name (j_target_name job)) = Some f" "content f = ctx \<or> short w1 \<and> image_patch job"
      by blast
    from install_output_safe [OF i assms(2) f assms(4-6)] s show ?thesis by (blast intro: always_trans)
  qed (use rest_ s in auto)
qed

definition digests :: "string list \<Rightarrow> byte list set" where
  "digests strs = {d. \<exists>s \<in> set strs. ParseSha1 s = Some d}"

lemma patch_for_result:
  assumes "patch_for sha1 strs patches = Some (Some v)" "length sha1 = 20"
  shows "sha1 \<in> digests strs" "Some v \<in> set patches"
  using assms FindMatchingPatch_result [OF assms(2), of strs]
  by (auto simp: patch_for_def Let_def digests_def array_get_def split: if_splits) (metis nth_mem)

text \<open>What a loaded \<open>FileContents\<close> says about a path.\<close>

definition loads :: "(byte list \<Rightarrow> byte list) \<Rightarrow> world \<Rightarrow> path \<Rightarrow> FileContents \<Rightarrow> bool" where
  "loads sha w p fc \<longleftrightarrow> (\<forall>m. fc_data fc = Some m \<longrightarrow> fc_size fc = Some (int (length m))
     \<and> fc_sha1 fc = sha m \<and> loaded w p = Some m)"

lemma LoadFileContents_loads:
  assumes "LoadFileContents sha p fc True w = Some (r, fc', w')" "\<not> is_partition p"
  shows "tape_only w w'" "loads sha w p fc'" "\<not> r < 0 \<Longrightarrow> fc_data fc' \<noteq> None"
  using LoadFileContents_result [OF assms(1)] assms(2) by (auto simp: loads_def loaded_def)

lemma loaded_tape: "tape_only w w' \<Longrightarrow> loaded w' p = loaded w p"
  by (simp add: loaded_def tape_only_dest)

lemma loads_holds: "loads sha w p fc \<Longrightarrow> fc_data fc = Some m \<Longrightarrow> sha m \<in> D \<Longrightarrow> holds sha D (files w) p"
  by (auto simp: loads_def loaded_def holds_def lookup_def split: bind_splits)

definition no_image_patch :: "Value option list \<Rightarrow> bool" where
  "no_image_patch patches \<longleftrightarrow>
     (\<forall>h. Some (VAL_BLOB (Some h)) \<in> set patches \<longrightarrow> take 8 h \<noteq> imgdiff_magic)"

lemma applypatch_safe:
  assumes "applypatch bz zl sha src arg target_sha1_str n strs patches bonus w = Some (r, w')"
  defines "tgt \<equiv> if arg = ''-'' then src else arg"
  assumes "ParseSha1 target_sha1_str = Some t" "ordinary src tgt" "\<forall>bs. length (sha bs) = 20"
    and "\<forall>m. loaded w src = Some m \<longrightarrow> masked m = Some m"
    and "\<not> short w' \<or> no_image_patch patches"
  shows "(recoverable sha (digests strs) t src tgt (files w) \<longrightarrow>
      always (recoverable sha (digests strs) t src tgt) w w') \<and> (r = 0 \<longrightarrow> finished sha t tgt (files w'))"
proof -
  let ?D = "digests strs"
  have np: "\<not> is_partition src" "\<not> is_partition tgt" "\<not> is_partition CACHE_TEMP_SOURCE"
    using assms(4) by (auto simp: ordinary_def is_partition_def CACHE_TEMP_SOURCE_def)
  have t: "length t = 20" using ParseSha1_length assms(3) by blast
  have img: "\<not> (short w' \<and> image_patch job)"
    if "(if j_source_patch job \<noteq> None then j_source_patch job else j_copy_patch job) = Some v"
      "Some v \<in> set patches" for job v
    using that assms(7) by (auto simp: image_patch_def no_image_patch_def)
  from assms(1,3) obtain r1 f1 w1 where l1: "LoadFileContents sha tgt no_contents True w = Some (r1, f1, w1)"
    by (auto simp: applypatch_def tgt_def Let_def split: bind_splits)
  note L1 = LoadFileContents_loads [OF l1 np(2)]
  have quiet: "recoverable sha ?D t src tgt (files w) \<longrightarrow> always (recoverable sha ?D t src tgt) w v"
    if "tape_only w v" for v
    using always_tape [OF that, of "recoverable sha ?D t src tgt"] by simp
  show ?thesis
  proof (cases "r1 = 0 \<and> sha (the (fc_data f1)) = t")
    case True
    from True L1(3) obtain m where m: "fc_data f1 = Some m" by auto
    with L1(2) have f: "fc_sha1 f1 = sha m" "loaded w tgt = Some m" by (auto simp: loads_def)
    have "sha m = t" using True m by simp
    then have "memcmp (fc_sha1 f1) t SHA_DIGEST_SIZE = 0"
      unfolding f(1) by (rule memcmp_sha [OF assms(5) t, THEN iffD2])
    with assms(1,3) l1 True have "r = 0" "w' = w1" by (auto simp: applypatch_def tgt_def [symmetric])
    moreover have "finished sha t tgt (files w)"
      using f(2) m True by (auto simp: finished_def loaded_def lookup_def split: bind_splits)
    ultimately show ?thesis using quiet [OF L1(1)] tape_only_dest(4) [OF L1(1)] by simp
  next
    case False
    have early: "\<not> (r1 = 0 \<and> memcmp (fc_sha1 f1) t SHA_DIGEST_SIZE = 0)"
      using False L1(2,3) memcmp_sha [OF assms(5) t] by (auto simp: loads_def)
    define ld where "ld = (if fc_data f1 = None \<or> tgt \<noteq> src
      then do { (r, f, w) \<leftarrow> LoadFileContents sha src (f1\<lparr>fc_data := None\<rparr>) True w1; Some (f, w) }
      else Some (f1, w1))"
    have run: "applypatch bz zl sha src arg target_sha1_str n strs patches bonus w = do {
        (source_file, w) \<leftarrow> ld;
        source_patch \<leftarrow> (if fc_data source_file \<noteq> None
          then patch_for (fc_sha1 source_file) strs patches else Some None);
        let job = \<lparr>j_source = source_file, j_source_patch = source_patch, j_copy = no_contents,
                   j_copy_patch = None, j_source_name = src, j_target_name = tgt, j_sha1 = t,
                   j_size = n, j_bonus = bonus\<rparr>;
        if source_patch \<noteq> None then GenerateTarget bz zl sha job w
        else do {
          (r, copy_file, w) \<leftarrow> LoadFileContents sha CACHE_TEMP_SOURCE no_contents True w;
          if r < 0 then Some (1, w)
          else do {
            copy_patch \<leftarrow> patch_for (fc_sha1 copy_file) strs patches;
            if copy_patch = None then Some (1, w)
            else GenerateTarget bz zl sha
              (job\<lparr>j_source := source_file\<lparr>fc_data := None\<rparr>, j_copy := copy_file,
                   j_copy_patch := copy_patch\<rparr>) w
          } } }"
      unfolding applypatch_def tgt_def [symmetric] Let_def assms(3) option.case l1 Option.bind_lunit
        prod.case if_not_P [OF early] ld_def ..
    with assms(1) obtain sf w2 where sf: "ld = Some (sf, w2)" by (auto split: bind_splits)
    have S: "tape_only w w2 \<and> loads sha w src sf"
    proof (cases "fc_data f1 = None \<or> tgt \<noteq> src")
      case True
      with sf obtain r2 where l2: "LoadFileContents sha src (f1\<lparr>fc_data := None\<rparr>) True w1 = Some (r2, sf, w2)"
        by (auto simp: ld_def split: bind_splits)
      from LoadFileContents_loads [OF l2 np(1)] L1(1) show ?thesis
        by (auto simp: loads_def loaded_tape intro: tape_only_trans)
    qed (use sf L1 in \<open>auto simp: ld_def\<close>)
    obtain sp where sp: "(if fc_data sf \<noteq> None then patch_for (fc_sha1 sf) strs patches else Some None) = Some sp"
      using assms(1) unfolding run sf by (auto split: bind_splits)
    note run2 = run [unfolded sf Option.bind_lunit prod.case sp]
    show ?thesis
    proof (cases sp)
      case (Some v)
      with sp obtain m where m: "fc_data sf = Some m" "patch_for (fc_sha1 sf) strs patches = Some (Some v)"
        by (auto split: if_splits)
      with S have lm: "fc_size sf = Some (int (length m))" "fc_sha1 sf = sha m" "loaded w src = Some m"
        by (auto simp: loads_def)
      have pf: "sha m \<in> ?D" "Some v \<in> set patches"
        using patch_for_result [OF m(2)] lm(2) assms(5) by auto
      define job where "job = \<lparr>j_source = sf, j_source_patch = sp, j_copy = no_contents,
                   j_copy_patch = None, j_source_name = src, j_target_name = tgt, j_sha1 = t,
                   j_size = n, j_bonus = bonus\<rparr>"
      have g: "GenerateTarget bz zl sha job w2 = Some (r, w')"
        using assms(1) Some unfolding run2 by (simp add: job_def)
      have "job_ok sha ?D job" using assms(4,6) m lm pf by (simp add: job_ok_def job_def)
      moreover have "holds sha ?D (files w2) (job_file job False)"
        using loads_holds [OF conjunct2 [OF S] m(1) pf(1)] Some tape_only_dest(4) [of w w2] S
        by (simp add: job_file_def job_def)
      moreover have "\<not> (short w' \<and> image_patch job)" using img [of job v] Some pf(2) by (simp add: job_def)
      ultimately have "job_safe sha ?D job w2 w' \<and> (r = 0 \<longrightarrow> finished sha (j_sha1 job) (j_target_name job) (files w'))"
        using GenerateTarget_safe [OF g] assms(5) t by (simp add: job_def)
      with quiet [OF conjunct1 [OF S]] show ?thesis by (auto simp: job_def intro: always_trans)
    next
      case None
      then obtain r3 cf w3 where l3: "LoadFileContents sha CACHE_TEMP_SOURCE no_contents True w2 = Some (r3, cf, w3)"
        using assms(1) unfolding run2 by (auto split: bind_splits)
      note L3 = LoadFileContents_loads [OF l3 np(3)]
      note w3 = tape_only_trans [OF conjunct1 [OF S] L3(1)]
      show ?thesis
      proof (cases "r3 < 0")
        case True
        with assms(1) None l3 have "r = 1" "w' = w3" unfolding run2 by simp_all
        with quiet [OF w3] show ?thesis by simp
      next
        case ok: False
        with assms(1) None l3 obtain cp where cp: "patch_for (fc_sha1 cf) strs patches = Some cp"
          unfolding run2 by (auto split: bind_splits)
        show ?thesis
        proof (cases cp)
          case None: None
          with assms(1) \<open>sp = None\<close> l3 ok cp have "r = 1" "w' = w3" unfolding run2 by simp_all
          with quiet [OF w3] show ?thesis by simp
        next
          case (Some v)
          from L3(3) ok obtain m where m: "fc_data cf = Some m" by auto
          with L3(2) have lm: "fc_sha1 cf = sha m" by (auto simp: loads_def)
          have pf: "sha m \<in> ?D" "Some v \<in> set patches"
            using patch_for_result [OF cp [unfolded Some]] lm assms(5) by auto
          define job where "job = \<lparr>j_source = sf\<lparr>fc_data := None\<rparr>, j_source_patch = None, j_copy = cf,
                   j_copy_patch = cp, j_source_name = src, j_target_name = tgt, j_sha1 = t,
                   j_size = n, j_bonus = bonus\<rparr>"
          have g: "GenerateTarget bz zl sha job w3 = Some (r, w')"
            using assms(1) \<open>sp = None\<close> Some l3 ok cp unfolding run2 by (simp add: job_def)
          have "job_ok sha ?D job" using assms(4) by (simp add: job_ok_def job_def)
          moreover have "holds sha ?D (files w3) (job_file job False)"
            using loads_holds [OF L3(2) m pf(1)] tape_only_dest(4) [OF L3(1)]
            by (simp add: job_file_def job_def)
          moreover have "\<not> (short w' \<and> image_patch job)" using img [of job v] Some pf(2) by (simp add: job_def)
          ultimately have "job_safe sha ?D job w3 w' \<and> (r = 0 \<longrightarrow> finished sha (j_sha1 job) (j_target_name job) (files w'))"
            using GenerateTarget_safe [OF g] assms(5) t by (simp add: job_def)
          with quiet [OF w3] show ?thesis by (auto simp: job_def intro: always_trans)
        qed
      qed
    qed
  qed
qed

section \<open>Masking is idempotent on proper files\<close>

text \<open>
  The copy in the cache is the masked source, and is masked again when it is loaded; this gives the
  same for files without relocation entries and for well-formed ones.
\<close>

lemma masked_masked:
  assumes "masked bs = Some m"
    and "\<not> retouched bs \<or> (\<exists>es. retouch_list bs = Some es \<and> fits (nat (blob_start bs)) es)"
  shows "masked m = Some m"
proof (cases "retouched bs")
  case False
  then have "retouch_mask_data bs (Some 0) = Some (RETOUCH_DATA_MATCHED, bs, 0)"
    using retouch_mask_data_unretouched by simp
  with assms(1) show ?thesis by (auto simp: masked_def)
next
  case True
  with assms(2) obtain es where es: "retouch_list bs = Some es" "fits (nat (blob_start bs)) es" by auto
  note w = retouch_mask_writes [OF es, of 0]
  with assms(1) have m: "m = write_all 0 (length bs - 20 + 12) es bs" by (simp add: masked_def)
  from write_all_keeps_list [OF es] es(2) have "retouch_list m = Some es" "fits (nat (blob_start m)) es"
    by (simp_all add: m)
  from retouch_mask_writes [OF this, of 0] show ?thesis
    by (simp add: masked_def m write_all_twice)
qed

section \<open>Properties\<close>



text \<open>A file that is patched with too little space: saved in the cache, deleted, replaced.\<close>

definition patched_file :: path where "patched_file = ''/system/a''"

definition patch_world :: world where
  "patch_world = \<lparr>files = [(patched_file, \<lparr>content = [7, 8], st_mode = 420, st_uid = 0, st_gid = 0\<rparr>)],
     devices = [], mtd = [], proc = None, tape = [Ok, Ok, Ok, Space 4096 1, Space 4096 1],
     history = [], short = False\<rparr>"

lemma raw_patch_parts:
  "length raw_patch = 22" "bytes_at raw_patch 0 8 = Some imgdiff_magic" "Read4 raw_patch 8 = Some 1"
  "Read4 raw_patch 12 = Some CHUNK_RAW" "Read4 raw_patch 16 = Some 2"
  "bytes_at raw_patch 20 2 = Some [0xCA, 0xFE]" "take 8 raw_patch = imgdiff_magic"
  "imgdiff_magic \<noteq> bsdiff_magic"
  by code_simp+

lemma raw_patch_sink:
  "ApplyImagePatch no_bz2 no_zlib old raw_patch s t [] None
    = (case s [0xCA, 0xFE] t of (n, t) \<Rightarrow> Some (if n \<noteq> 2 then - 1 else 0, t, [0xCA, 0xFE]))"
proof -
  have one: "nat (sint (1 :: 32 word)) = Suc 0" "sint (2 :: 32 word) = 2" "CHUNK_RAW \<noteq> CHUNK_NORMAL"
    by (simp_all add: CHUNK_RAW_def CHUNK_NORMAL_def)
  obtain n t' where s: "s [0xCA, 0xFE] t = (n, t')" by (cases "s [0xCA, 0xFE] t")
  show ?thesis
    by (simp add: ApplyImagePatch_def raw_patch_parts one raw_chunk_def Let_def s LONG_MAX_def)
qed

lemma FileSink_quiet:
  assumes "tape w = []" "lookup w p = Some f" "bs \<noteq> []"
  shows "FileSink p bs w = (int (length bs), append_bytes p bs w)"
proof -
  have "draw w = (Ok, w)" using assms(1) by (cases w) (simp add: draw_def)
  then have "write_file p bs w = (int (length bs), append_bytes p bs w)"
    by (simp add: write_file_def)
  with assms(3) show ?thesis
    by (simp add: FileSink_def FileSink_loop.simps [of p bs 0] FileSink_loop.simps [of p bs "length bs"])
qed

abbreviation (input) file_at :: "path \<Rightarrow> byte list \<Rightarrow> path \<times> inode" where
  "file_at p bs \<equiv> (p, \<lparr>content = bs, st_mode = 420, st_uid = 0, st_gid = 0\<rparr>)"

lemma patch_paths [simp]:
  "patched_file \<noteq> CACHE_TEMP_SOURCE" "CACHE_TEMP_SOURCE \<noteq> patched_file"
  "patch_name patched_file \<noteq> patched_file" "patched_file \<noteq> patch_name patched_file"
  "patch_name patched_file \<noteq> CACHE_TEMP_SOURCE" "CACHE_TEMP_SOURCE \<noteq> patch_name patched_file"
  "\<not> is_partition patched_file" "\<not> deletable patched_file"
  by (simp_all add: patched_file_def CACHE_TEMP_SOURCE_def patch_name_def is_partition_def deletable_def
      in_dir_def Let_def)

lemma toy_digests [simp]: "toy_sha [7, 8] \<noteq> toy_sha [0xCA, 0xFE]"
  "ParseSha1 (hex_string (toy_sha bs)) = Some (toy_sha bs)"
  by (simp_all add: toy_sha_def ParseSha1_hex_string)

lemma patch_load:
  "LoadFileContents toy_sha patched_file fc True patch_world
    = Some (0, fc\<lparr>fc_data := Some [7, 8], fc_size := Some 2, fc_mode := 420, fc_uid := 0, fc_gid := 0,
                 fc_sha1 := toy_sha [7, 8]\<rparr>, patch_world\<lparr>tape := [Space 4096 1, Space 4096 1]\<rparr>)"
proof -
  have "retouch_mask_data [7, 8] (Some 0) = Some (RETOUCH_DATA_MATCHED, [7, 8], 0)"
    by (rule retouch_mask_data_unretouched) (simp add: retouched_def)
  then show ?thesis
    by (simp add: LoadFileContents_def patch_world_def stat_def draw_def lookup_def read_file_def Let_def)
qed

lemma patch_match: "FindMatchingPatch (toy_sha [7, 8]) [hex_string (toy_sha [7, 8])] = 0"
  using FindMatchingPatch_result [of "toy_sha [7, 8]" "[hex_string (toy_sha [7, 8])]"] by simp

definition patch_result :: world where
  "patch_result = snd (the (applypatch no_bz2 no_zlib toy_sha patched_file ''-''
     (hex_string (toy_sha [0xCA, 0xFE])) 2 [hex_string (toy_sha [7, 8])]
     [Some (VAL_BLOB (Some raw_patch))] None patch_world))"

definition saved_world :: world where
  "saved_world = patch_world\<lparr>tape := [], files := [(CACHE_TEMP_SOURCE, \<lparr>content = [7, 8], st_mode = 420,
     st_uid = 0, st_gid = 0\<rparr>)], history := history (patch_world)\<rparr>"

lemma patch_room:
  assumes "j_target_name job = patched_file" "j_source_name job = patched_file" "j_size job = 2"
    and "j_source_patch job \<noteq> None" "fc_data (j_source job) = Some [7, 8]" "fc_size (j_source job) = Some 2"
    and "fc_mode (j_source job) = 420" "fc_uid (j_source job) = 0" "fc_gid (j_source job) = 0"
  shows "\<exists>h. make_room_for_target job ''/system'' (Suc 0) False (patch_world\<lparr>tape := [Space 4096 (Suc 0), Space 4096 (Suc 0)]\<rparr>)
    = Some (Some (0, True), saved_world\<lparr>history := h\<rparr>)"
  using assms
  by (simp add: make_room_for_target_def FreeSpaceForFile_def statfs_def draw_def enough_space_def
      backup_source_def MakeFreeSpaceOnCache_def SaveFileContents_def open_trunc_def
      FileSink_quiet lookup_def patch_world_def saved_world_def append_bytes_def chmod_def chown_def unlink_def
      set_files_def Let_def)

lemma patch_attempt:
  assumes "j_target_name job = patched_file" "j_source_name job = patched_file" "j_size job = 2"
    and "j_source_patch job = Some (VAL_BLOB (Some raw_patch))" "fc_data (j_source job) = Some [7, 8]"
    and "fc_size (j_source job) = Some 2" "fc_mode (j_source job) = 420" "fc_uid (j_source job) = 0"
    and "fc_gid (j_source job) = 0" "j_bonus job = None"
  shows "\<exists>h. attempt_target no_bz2 no_zlib job ''/system'' (Suc 0) False
      (patch_world\<lparr>tape := [Space 4096 (Suc 0), Space 4096 (Suc 0)]\<rparr>)
    = Some (Output [0xCA, 0xFE] [], True, saved_world\<lparr>files := files saved_world
        @ [(patch_name patched_file, \<lparr>content = [0xCA, 0xFE], st_mode = 384, st_uid = 0, st_gid = 0\<rparr>)],
        history := h\<rparr>)"
proof -
  obtain h where "make_room_for_target job ''/system'' (Suc 0) False
      (patch_world\<lparr>tape := [Space 4096 (Suc 0), Space 4096 (Suc 0)]\<rparr>)
    = Some (Some (0, True), saved_world\<lparr>history := h\<rparr>)"
    using patch_room [of job] assms by auto
  with assms show ?thesis
    by (simp add: attempt_target_def Let_def open_trunc_def draw_def saved_world_def lookup_def
        apply_patch_data_def raw_patch_parts raw_patch_sink FileSink_quiet append_bytes_def set_files_def)
      (rule exI, rule refl)
qed

lemma patch_run:
  "applypatch no_bz2 no_zlib toy_sha patched_file ''-'' (hex_string (toy_sha [0xCA, 0xFE])) 2
     [hex_string (toy_sha [7, 8])] [Some (VAL_BLOB (Some raw_patch))] None patch_world
    = Some (0, patch_result) \<and> short patch_result = False"
proof -
  have ne: "memcmp (toy_sha [7, 8]) (toy_sha [0xCA, 0xFE]) SHA_DIGEST_SIZE \<noteq> 0"
    "memcmp (toy_sha [0xCA, 0xFE]) (toy_sha [0xCA, 0xFE]) SHA_DIGEST_SIZE = 0"
    using memcmp_sha [OF toy_sha_size, of "toy_sha [0xCA, 0xFE]"] by simp_all
  have fs: "target_fs patched_file = Some ''/system''" by (simp add: target_fs_def patched_file_def)
  let ?job = "\<lparr>j_source = \<lparr>fc_sha1 = toy_sha [7, 8], fc_data = Some [7, 8], fc_size = Some 2, fc_mode = 420,
       fc_uid = 0, fc_gid = 0\<rparr>, j_source_patch = Some (VAL_BLOB (Some raw_patch)), j_copy = no_contents,
     j_copy_patch = None, j_source_name = patched_file, j_target_name = patched_file,
     j_sha1 = toy_sha [0xCA, 0xFE], j_size = 2, j_bonus = None\<rparr>"
  obtain h where attempt: "attempt_target no_bz2 no_zlib ?job ''/system'' (Suc 0) False
      (patch_world\<lparr>tape := [Space 4096 (Suc 0), Space 4096 (Suc 0)]\<rparr>)
    = Some (Output [0xCA, 0xFE] [], True, saved_world\<lparr>files := files saved_world
        @ [(patch_name patched_file, \<lparr>content = [0xCA, 0xFE], st_mode = 384, st_uid = 0, st_gid = 0\<rparr>)],
        history := h\<rparr>)"
    using patch_attempt [of ?job] by auto
  obtain w' where inst: "install_output toy_sha ?job [0xCA, 0xFE] [] True (saved_world\<lparr>files := files saved_world
        @ [(patch_name patched_file, \<lparr>content = [0xCA, 0xFE], st_mode = 384, st_uid = 0, st_gid = 0\<rparr>)],
        history := h\<rparr>) = Some (0, w')" "short w' = False"
    by (simp add: install_output_def Let_def ne saved_world_def patch_world_def chmod_def chown_def
        rename_def unlink_def draw_def lookup_def set_files_def)
  have gen: "GenerateTarget no_bz2 no_zlib toy_sha ?job
      (patch_world\<lparr>tape := [Space 4096 (Suc 0), Space 4096 (Suc 0)]\<rparr>) = Some (0, w')"
    by (simp add: GenerateTarget_def fs attempt inst(1))
  have "applypatch no_bz2 no_zlib toy_sha patched_file ''-'' (hex_string (toy_sha [0xCA, 0xFE])) 2
     [hex_string (toy_sha [7, 8])] [Some (VAL_BLOB (Some raw_patch))] None patch_world = Some (0, w')"
    using gen
    by (simp add: applypatch_def Let_def patch_load ne patch_for_def patch_match no_contents_def)
  then show ?thesis using inst(2) by (simp add: patch_result_def)
qed

lemma patch_hypotheses:
  "ordinary patched_file patched_file"
  "\<forall>m. loaded patch_world patched_file = Some m \<longrightarrow> masked m = Some m"
  "recoverable toy_sha (digests [hex_string (toy_sha [7, 8])]) (toy_sha [0xCA, 0xFE]) patched_file
     patched_file (files patch_world)"
proof -
  have m: "masked [7, 8] = Some [7, 8]"
    using retouch_mask_data_unretouched [of "[7, 8]" 0] by (simp add: masked_def retouched_def)
  show "ordinary patched_file patched_file" by (simp add: ordinary_def)
  show "\<forall>m. loaded patch_world patched_file = Some m \<longrightarrow> masked m = Some m"
    using m by (simp add: loaded_def lookup_def patch_world_def)
  show "recoverable toy_sha (digests [hex_string (toy_sha [7, 8])]) (toy_sha [0xCA, 0xFE]) patched_file
     patched_file (files patch_world)"
    using m by (simp add: recoverable_def holds_def digests_def patch_world_def)
qed



end
