(* ===== verification/ApplyPartition.thy ===== *)
theory ApplyPartition
  imports ApplyPatch
begin

text \<open>
  \<open>applypatch\<close> when the target is a partition: the output goes to memory, is checked, and is written
  with verification.
\<close>

definition on_partition :: "string \<times> string \<Rightarrow> byte list \<Rightarrow> world \<Rightarrow> bool" where
  "on_partition mp dev w \<longleftrightarrow> fst mp = ''MTD'' \<and> map_of (mtd w) (snd mp) = Some dev
     \<or> fst mp = ''EMMC'' \<and> map_of (devices w) (snd mp) = Some dev"

lemma pair_loop_prefix:
  "pair_loop sha dev pairs is data w = Some (Some d, n, w') \<Longrightarrow> data = take (length data) dev
    \<Longrightarrow> d = take (length d) dev"
proof (induction sha dev pairs "is" data w rule: pair_loop.induct)
  case (2 sha dev pairs i "is" data w)
  obtain bs w1 where r: "(if fst (pairs ! i) - length data > 0
      then read_device dev (length data) (fst (pairs ! i) - length data) w else ([], w)) = (bs, w1)"
    by (metis surj_pair)
  note step = pair_loop_step [OF r, of sha "is"]
  have "\<exists>k. bs = take k (drop (length data) dev)"
    using r by (auto simp: read_device_def draw_def split: if_splits event.splits list.splits)
  then have "bs = take (length bs) (drop (length data) dev)" by (auto simp: min_def)
  then have prefix: "data @ bs = take (length (data @ bs)) dev"
    using take_add [of "length data" "length bs" dev] 2(3) by (metis length_append)
  from 2(2) step obtain s p where s: "length bs = fst (pairs ! i) - length data"
    "snd (pairs ! i) = Some s" "ParseSha1 s = Some p"
    by (auto split: if_splits option.splits)
  show ?case
  proof (cases "memcmp (sha (data @ bs)) p SHA_DIGEST_SIZE = 0")
    case True
    with 2(2) step s have "d = data @ bs" by simp
    with prefix show ?thesis by (simp only:)
  next
    case False
    with 2(2) step s have "pair_loop sha dev pairs is (data @ bs) w1 = Some (Some d, n, w')" by simp
    from 2(1) [OF refl r [symmetric] refl _ s(2,3) False this prefix] s(1) show ?thesis by simp
  qed
qed simp

lemma on_partition_tape: "tape_only w w' \<Longrightarrow> on_partition mp dev w' = on_partition mp dev w"
  by (simp add: on_partition_def tape_only_dest)

lemma load_partition_prefix:
  assumes "LoadFileContents sha p fc flag w = Some (0, fc', w')" "is_partition p"
  shows "\<exists>mp toks dev d. strtok_all CHR '':'' p = fst mp # snd mp # toks \<and> on_partition mp dev w'
    \<and> fc_sha1 fc' = sha d \<and> d = take (length d) dev"
proof -
  from assms obtain magic part toks ps "is" dev e w1 d n where
    t: "strtok_all CHR '':'' p = magic # part # toks" "magic = ''MTD'' \<or> magic = ''EMMC''"
    and e: "draw w = (e, w1)"
    and dev: "(if magic = ''MTD'' then map_of (mtd w1) part else map_of (devices w1) part) = Some dev"
    and loop: "pair_loop sha dev ps is [] w1 = Some (Some d, n, w')"
    and fc: "fc_sha1 fc' = sha d"
    by (auto simp: LoadFileContents_def LoadPartitionContents_def Let_def
        split: list.splits bind_splits option.splits if_splits prod.splits)
  have "on_partition (magic, part) dev w1" using t(2) dev by (auto simp: on_partition_def)
  then have "on_partition (magic, part) dev w'"
    using on_partition_tape pair_loop_result [OF loop] by blast
  moreover have "d = take (length d) dev" using pair_loop_prefix [OF loop] by simp
  ultimately show ?thesis using t(1) fc by (intro exI [of _ "(magic, part)"]) auto
qed

lemma apply_patch_data_memory:
  assumes "apply_patch_data bz zl src patch (MemorySink n) [] bonus = Some (Some (0, buf, ctx))"
  shows "buf = ctx"
proof -
  from assms consider
      h where "ApplyBSDiffPatch bz src h 0 (MemorySink n) [] [] = Some (0, buf, ctx)"
    | h where "ApplyImagePatch bz zl src h (MemorySink n) [] [] bonus = Some (0, buf, ctx)"
    by (auto simp: apply_patch_data_def split: option.splits if_splits bind_splits)
  then show ?thesis
    by cases (auto dest: memory_sink.ApplyBSDiffPatch_sink(2) memory_sink.ApplyImagePatch_sink)
qed

lemma attempt_target_partition:
  assumes "attempt_target bz zl job fs retry made w = Some (a, made', w')" "is_partition (j_target_name job)"
  shows "(\<forall>r. a = Return r \<longrightarrow> r = 1) \<and> (\<forall>ctx buf. a = Output ctx buf \<longrightarrow> buf = ctx)"
  using assms
  by (auto simp: attempt_target_def Let_def split: bind_splits option.splits if_splits Value.splits)
    (rule apply_patch_data_memory, assumption)+

lemma target_loop_partition:
  "target_loop bz zl job fs retry made w = Some (a, made', w') \<Longrightarrow> is_partition (j_target_name job) \<Longrightarrow>
    (\<forall>r. a = Return r \<longrightarrow> r = 1) \<and> (\<forall>ctx buf. a = Output ctx buf \<longrightarrow> buf = ctx)"
proof (induction retry arbitrary: made w)
  case 0
  then show ?case by (auto dest: attempt_target_partition)
next
  case (Suc retry)
  then show ?case
    by (auto split: bind_splits if_splits dest: attempt_target_partition)
qed

lemma GenerateTarget_partition:
  assumes "GenerateTarget bz zl sha job w = Some (0, w')" "is_partition (j_target_name job)"
    and "\<forall>bs. length (sha bs) = 20" "length (j_sha1 job) = 20"
  shows "\<exists>mp toks dev k. strtok_all CHR '':'' (j_target_name job) = fst mp # snd mp # toks
    \<and> on_partition mp dev w' \<and> sha (take k dev) = j_sha1 job"
proof -
  from assms(1) obtain fs a made w1 where
    l: "target_loop bz zl job fs 1 False w = Some (a, made, w1)"
    and i: "(case a of
        Return r \<Rightarrow> Some (r, w1)
      | Output ctx buffer \<Rightarrow> install_output sha job ctx buffer made w1
      | Retry \<Rightarrow> None) = Some (0, w')"
    by (auto simp: GenerateTarget_def simp del: target_loop.simps One_nat_def split: bind_splits)
  from target_loop_partition [OF l assms(2)] i obtain ctx where
    io: "install_output sha job ctx ctx made w1 = Some (0, w')"
    by (auto split: attempt.splits)
  then obtain w2 where w2: "sha ctx = j_sha1 job" "WriteToPartition ctx (j_target_name job) w1 = Some (0, w2)"
    "w' = (if made then snd (unlink CACHE_TEMP_SOURCE w2) else w2)"
    using assms(2) memcmp_sha [OF assms(3,4), of ctx]
    by (auto simp: install_output_def Let_def split: if_splits bind_splits)
  have same: "mtd w' = mtd w2" "devices w' = devices w2"
    using w2(3) by (auto simp: unlink_def draw_def)
  from partition_begins_with_data [OF w2(2)] obtain magic part toks dev where
    v: "strtok_all CHR '':'' (j_target_name job) = magic # part # toks"
      "on_partition (magic, part) dev w2" "take (length ctx) dev = ctx"
    by (auto simp: on_partition_def)
  have "on_partition (magic, part) dev w'" using v(2) same by (simp add: on_partition_def)
  with v w2(1) show ?thesis
    by (intro exI [of _ "(magic, part)"] exI [of _ toks] exI [of _ dev] exI [of _ "length ctx"]) simp
qed

section \<open>Property\<close>


text \<open>A partition that already holds the target.\<close>

definition boot_name :: string where
  "boot_name = partition_name ''MTD'' ''boot'' [(3, toy_sha [1, 2, 3])]"

lemma boot_run:
  "applypatch no_bz2 no_zlib toy_sha ''/x'' boot_name (hex_string (toy_sha [1, 2, 3])) 3 [] [] None sample_world
    = Some (0, sample_world)"
  "is_partition boot_name"
proof -
  show "is_partition boot_name" by (simp add: boot_name_def partition_name_def is_partition_def)
  have m: "pair_matches toy_sha [1, 2, 3] (3, toy_sha [1, 2, 3])" by (simp add: pair_matches_def)
  obtain r fc where r: "LoadFileContents toy_sha boot_name no_contents True sample_world = Some (r, fc, sample_world)"
    "r = 0" "fc_sha1 fc = toy_sha [1, 2, 3]"
    using load_partition_finds [OF toy_sha_size, of "''MTD''" sample_world "''boot''" "[1, 2, 3]"
        "[(3, toy_sha [1, 2, 3])]" no_contents True] m
    by (auto simp: boot_name_def sample_world_def LONG_MAX_def)
  have "boot_name \<noteq> ''-''" by (simp add: boot_name_def partition_name_def)
  moreover have "memcmp (toy_sha [1, 2, 3]) (toy_sha [1, 2, 3]) SHA_DIGEST_SIZE = 0"
    using memcmp_sha [OF toy_sha_size, of "toy_sha [1, 2, 3]" "[1, 2, 3]"] by simp
  ultimately show "applypatch no_bz2 no_zlib toy_sha ''/x'' boot_name (hex_string (toy_sha [1, 2, 3])) 3 [] [] None
      sample_world = Some (0, sample_world)"
    using r by (simp add: applypatch_def Let_def)
qed


end
