(* ===== verification/SufSort.thy ===== *)
theory SufSort
  imports MR_Prelude
begin

text \<open>
  \<open>applypatch/bsdiff.c\<close>: the suffix array of the old file, sorted by prefix doubling.  \<open>I\<close> and \<open>V\<close>
  are the two work arrays of \<open>qsufsort\<close>, one entry longer than the file; an access outside them is
  \<open>None\<close>, and so is a loop that does not end.  An index is an \<open>int\<close> as \<open>off_t\<close> is signed; every
  value the two arrays and the counters take lies between \<open>- (n + 1)\<close> and \<open>2 * n + 2\<close> for a file of
  \<open>n\<close> bytes, so none of them overflows for a file that fits into memory.
\<close>

section \<open>The code\<close>

definition seti :: "'a list \<Rightarrow> int \<Rightarrow> 'a \<Rightarrow> 'a list ub" where
  "seti xs i v = (if 0 \<le> i \<and> i < int (length xs) then Some (xs[nat i := v]) else None)"

text \<open>The three assignments that exchange two entries through \<open>tmp\<close>.\<close>

definition swap_entries :: "'a list \<Rightarrow> int \<Rightarrow> int \<Rightarrow> 'a list ub" where
  "swap_entries xs a b = do {
     tmp \<leftarrow> geti xs a;
     y \<leftarrow> geti xs b;
     xs \<leftarrow> seti xs a y;
     seti xs b tmp
   }"

text \<open>\<open>V[I[i] + h]\<close>, what suffixes are compared by.\<close>

definition key_at :: "int list \<Rightarrow> int list \<Rightarrow> int \<Rightarrow> int \<Rightarrow> int ub" where
  "key_at I V h i = do { p \<leftarrow> geti I i; geti V (p + h) }"

subsection \<open>\<open>split\<close>: short ranges\<close>

text \<open>The inner loop over \<open>k + i < en\<close>: it gathers the entries of the smallest key \<open>x\<close> at \<open>k\<close>.\<close>

function gather :: "int list \<Rightarrow> int list \<Rightarrow> int \<Rightarrow> int \<Rightarrow> int \<Rightarrow> int \<Rightarrow> int \<Rightarrow> int \<Rightarrow> (int list \<times> int) ub" where
  "gather I V h en k i j x =
     (if k + i < en then do {
        y \<leftarrow> key_at I V h (k + i);
        let (x, j) = (if y < x then (y, 0) else (x, j));
        (I, j) \<leftarrow> (if y = x then do { I \<leftarrow> swap_entries I (k + j) (k + i); Some (I, j + 1) }
                   else Some (I, j));
        gather I V h en k (i + 1) j x
      }
      else Some (I, j))"
  by pat_completeness auto

termination
  by (relation "measure (\<lambda>(I, V, h, en, k, i, j, x). nat (en - (k + i)))") auto

declare gather.simps [simp del]

text \<open>\<open>for (i = 0; i < n; i++) V[I[k + i]] = g\<close>\<close>

fun assign_group :: "int list \<Rightarrow> int list \<Rightarrow> int \<Rightarrow> int \<Rightarrow> nat \<Rightarrow> int list ub" where
  "assign_group I V g k 0 = Some V"
| "assign_group I V g k (Suc n) = do {
     p \<leftarrow> geti I k;
     V \<leftarrow> seti V p g;
     assign_group I V g (k + 1) n
   }"

partial_function (option) split_short ::
  "int list \<Rightarrow> int list \<Rightarrow> int \<Rightarrow> int \<Rightarrow> int \<Rightarrow> (int list \<times> int list) option" where
  "split_short I V h en k =
     (if k < en then do {
        x \<leftarrow> key_at I V h k;
        (I, j) \<leftarrow> gather I V h en k 1 1 x;
        V \<leftarrow> assign_group I V (k + j - 1) k (nat j);
        I \<leftarrow> (if j = 1 then seti I k (- 1) else Some I);
        split_short I V h en (k + j)
      }
      else Some (I, V))"

subsection \<open>\<open>split\<close>: partition by a pivot\<close>

text \<open>How many keys are below the pivot, and how many equal it.\<close>

fun count_keys :: "int list \<Rightarrow> int list \<Rightarrow> int \<Rightarrow> int \<Rightarrow> int \<Rightarrow> nat \<Rightarrow> int \<Rightarrow> int \<Rightarrow> (int \<times> int) ub" where
  "count_keys I V h x i 0 jj kk = Some (jj, kk)"
| "count_keys I V h x i (Suc n) jj kk = do {
     y \<leftarrow> key_at I V h i;
     count_keys I V h x (i + 1) n (if y < x then jj + 1 else jj) (if y = x then kk + 1 else kk)
   }"

partial_function (option) part_less ::
  "int list \<Rightarrow> int list \<Rightarrow> int \<Rightarrow> int \<Rightarrow> int \<Rightarrow> int \<Rightarrow> int \<Rightarrow> int \<Rightarrow> int \<Rightarrow> (int list \<times> int \<times> int) option" where
  "part_less I V h x jj kk i j k =
     (if i < jj then do {
        y \<leftarrow> key_at I V h i;
        if y < x then part_less I V h x jj kk (i + 1) j k
        else if y = x then do {
          I \<leftarrow> swap_entries I i (jj + j);
          part_less I V h x jj kk i (j + 1) k
        }
        else do {
          I \<leftarrow> swap_entries I i (kk + k);
          part_less I V h x jj kk i j (k + 1)
        }
      }
      else Some (I, j, k))"

partial_function (option) part_equal ::
  "int list \<Rightarrow> int list \<Rightarrow> int \<Rightarrow> int \<Rightarrow> int \<Rightarrow> int \<Rightarrow> int \<Rightarrow> int \<Rightarrow> int list option" where
  "part_equal I V h x jj kk j k =
     (if jj + j < kk then do {
        y \<leftarrow> key_at I V h (jj + j);
        if y = x then part_equal I V h x jj kk (j + 1) k
        else do {
          I \<leftarrow> swap_entries I (jj + j) (kk + k);
          part_equal I V h x jj kk j (k + 1)
        }
      }
      else Some I)"

text \<open>C divides towards zero; the length is positive where it is divided.\<close>

partial_function (option) split ::
  "int list \<Rightarrow> int list \<Rightarrow> int \<Rightarrow> int \<Rightarrow> int \<Rightarrow> (int list \<times> int list) option" where
  "split I V start len h =
     (if len < 16 then split_short I V h (start + len) start
      else do {
        x \<leftarrow> key_at I V h (start + len div 2);
        (jj, kk) \<leftarrow> count_keys I V h x start (nat len) 0 0;
        let jj = jj + start;
        let kk = kk + jj;
        (I, j, k) \<leftarrow> part_less I V h x jj kk start 0 0;
        I \<leftarrow> part_equal I V h x jj kk j k;
        (I, V) \<leftarrow> (if jj > start then split I V start (jj - start) h else Some (I, V));
        V \<leftarrow> assign_group I V (kk - 1) jj (nat (kk - jj));
        I \<leftarrow> (if jj = kk - 1 then seti I jj (- 1) else Some I);
        if start + len > kk then split I V kk (start + len - kk) h else Some (I, V)
      })"

subsection \<open>\<open>qsufsort\<close>\<close>

text \<open>The first sort, by the first byte: the counts, their sums, the distribution.\<close>

fun count_bytes :: "byte list \<Rightarrow> int list \<Rightarrow> int list ub" where
  "count_bytes [] buckets = Some buckets"
| "count_bytes (b # bs) buckets = do {
     c \<leftarrow> geti buckets (uint b);
     buckets \<leftarrow> seti buckets (uint b) (c + 1);
     count_bytes bs buckets
   }"

text \<open>\<open>for (i = 1; i < 256; i++) buckets[i] += buckets[i - 1]\<close>\<close>

fun sum_buckets :: "int list \<Rightarrow> int \<Rightarrow> nat \<Rightarrow> int list ub" where
  "sum_buckets buckets i 0 = Some buckets"
| "sum_buckets buckets i (Suc n) = do {
     a \<leftarrow> geti buckets i;
     b \<leftarrow> geti buckets (i - 1);
     buckets \<leftarrow> seti buckets i (a + b);
     sum_buckets buckets (i + 1) n
   }"

text \<open>\<open>for (i = 255; i > 0; i--) buckets[i] = buckets[i - 1]\<close>\<close>

fun shift_buckets :: "int list \<Rightarrow> nat \<Rightarrow> int list ub" where
  "shift_buckets buckets 0 = Some buckets"
| "shift_buckets buckets (Suc i) = do {
     b \<leftarrow> geti buckets (int i);
     buckets \<leftarrow> seti buckets (int (Suc i)) b;
     shift_buckets buckets i
   }"

text \<open>\<open>I[++buckets[old[i]]] = i\<close>\<close>

fun distribute :: "byte list \<Rightarrow> int \<Rightarrow> int list \<Rightarrow> int list \<Rightarrow> (int list \<times> int list) ub" where
  "distribute [] i buckets I = Some (buckets, I)"
| "distribute (b # bs) i buckets I = do {
     c \<leftarrow> geti buckets (uint b);
     buckets \<leftarrow> seti buckets (uint b) (c + 1);
     I \<leftarrow> seti I (c + 1) i;
     distribute bs (i + 1) buckets I
   }"

fun set_groups :: "byte list \<Rightarrow> int \<Rightarrow> int list \<Rightarrow> int list \<Rightarrow> int list ub" where
  "set_groups [] i buckets V = Some V"
| "set_groups (b # bs) i buckets V = do {
     c \<leftarrow> geti buckets (uint b);
     V \<leftarrow> seti V i c;
     set_groups bs (i + 1) buckets V
   }"

fun mark_single :: "int list \<Rightarrow> int list \<Rightarrow> int \<Rightarrow> nat \<Rightarrow> int list ub" where
  "mark_single I buckets i 0 = Some I"
| "mark_single I buckets i (Suc n) = do {
     a \<leftarrow> geti buckets i;
     b \<leftarrow> geti buckets (i - 1);
     I \<leftarrow> (if a = b + 1 then seti I a (- 1) else Some I);
     mark_single I buckets (i + 1) n
   }"

definition first_sort :: "byte list \<Rightarrow> int list \<Rightarrow> int list \<Rightarrow> (int list \<times> int list) ub" where
  "first_sort old I V = do {
     let buckets = replicate 256 0;
     buckets \<leftarrow> count_bytes old buckets;
     buckets \<leftarrow> sum_buckets buckets 1 255;
     buckets \<leftarrow> shift_buckets buckets 255;
     buckets \<leftarrow> seti buckets 0 0;
     (buckets, I) \<leftarrow> distribute old 0 buckets I;
     I \<leftarrow> seti I 0 (int (length old));
     V \<leftarrow> set_groups old 0 buckets V;
     V \<leftarrow> seti V (int (length old)) 0;
     I \<leftarrow> mark_single I buckets 1 255;
     I \<leftarrow> seti I 0 (- 1);
     Some (I, V)
   }"

text \<open>
  One pass over the groups: sorted ones are skipped and joined, the others split.  \<open>len\<close> counts the
  sorted entries before \<open>i\<close>.
\<close>

partial_function (option) sort_pass ::
  "int list \<Rightarrow> int list \<Rightarrow> int \<Rightarrow> int \<Rightarrow> int \<Rightarrow> int \<Rightarrow> (int list \<times> int list) option" where
  "sort_pass I V oldsize h i len =
     (if i < oldsize + 1 then do {
        p \<leftarrow> geti I i;
        if p < 0 then sort_pass I V oldsize h (i - p) (len - p)
        else do {
          I \<leftarrow> (if len \<noteq> 0 then seti I (i - len) (- len) else Some I);
          p \<leftarrow> geti I i;
          g \<leftarrow> geti V p;
          let len = g + 1 - i;
          (I, V) \<leftarrow> split I V i len h;
          sort_pass I V oldsize h (i + len) 0
        }
      }
      else do {
        I \<leftarrow> (if len \<noteq> 0 then seti I (i - len) (- len) else Some I);
        Some (I, V)
      })"

partial_function (option) doubling ::
  "int list \<Rightarrow> int list \<Rightarrow> int \<Rightarrow> int \<Rightarrow> (int list \<times> int list) option" where
  "doubling I V oldsize h = do {
     m \<leftarrow> geti I 0;
     if m \<noteq> - (oldsize + 1) then do {
       (I, V) \<leftarrow> sort_pass I V oldsize h 0 0;
       doubling I V oldsize (h + h)
     }
     else Some (I, V)
   }"

text \<open>\<open>for (i = 0; i < oldsize + 1; i++) I[V[i]] = i\<close>\<close>

fun invert_ranks :: "int list \<Rightarrow> int list \<Rightarrow> int \<Rightarrow> nat \<Rightarrow> int list ub" where
  "invert_ranks I V i 0 = Some I"
| "invert_ranks I V i (Suc n) = do {
     g \<leftarrow> geti V i;
     I \<leftarrow> seti I g i;
     invert_ranks I V (i + 1) n
   }"

definition qsufsort :: "int list \<Rightarrow> int list \<Rightarrow> byte list \<Rightarrow> (int list \<times> int list) ub" where
  "qsufsort I V old = do {
     (I, V) \<leftarrow> first_sort old I V;
     (I, V) \<leftarrow> doubling I V (int (length old)) 1;
     I \<leftarrow> invert_ranks I V 0 (length old + 1);
     Some (I, V)
   }"

declare split_short.simps [code] part_less.simps [code] part_equal.simps [code] split.simps [code]
  sort_pass.simps [code] doubling.simps [code]

section \<open>Array lemmas\<close>

definition ix :: "int list \<Rightarrow> int \<Rightarrow> int" where
  "ix xs i = xs ! nat i"

definition inside :: "int list \<Rightarrow> int \<Rightarrow> bool" where
  "inside xs i \<longleftrightarrow> 0 \<le> i \<and> i < int (length xs)"

named_theorems arr "access to the work arrays"

lemma geti_ix [arr]: "inside xs i \<Longrightarrow> geti xs i = Some (ix xs i)"
  by (simp add: inside_def ix_def)

lemma seti_ix [arr]: "inside xs i \<Longrightarrow> seti xs i v = Some (xs[nat i := v])"
  by (simp add: inside_def seti_def)

lemma ix_upd [arr]: "inside xs i \<Longrightarrow> 0 \<le> j \<Longrightarrow> ix (xs[nat i := v]) j = (if j = i then v else ix xs j)"
  by (auto simp: inside_def ix_def nth_list_update eq_nat_nat_iff)

lemma inside_upd [simp]: "inside (xs[i := v]) j = inside xs j"
  by (simp add: inside_def)

lemma inside_length: "length xs = length ys \<Longrightarrow> inside xs i = inside ys i"
  by (simp add: inside_def)

lemma key_at_ix [arr]:
  "inside I i \<Longrightarrow> inside V (ix I i + h) \<Longrightarrow> key_at I V h i = Some (ix V (ix I i + h))"
  by (simp add: key_at_def arr)

text \<open>\<open>rearranged I I' a b\<close>: the entries from \<open>a\<close> to \<open>b\<close> were permuted, the others kept.\<close>

definition rearranged :: "int list \<Rightarrow> int list \<Rightarrow> int \<Rightarrow> int \<Rightarrow> bool" where
  "rearranged I I' a b \<longleftrightarrow> length I' = length I
     \<and> (\<forall>p. 0 \<le> p \<and> \<not> (a \<le> p \<and> p < b) \<longrightarrow> ix I' p = ix I p)
     \<and> ix I' ` {a..<b} = ix I ` {a..<b}"

lemma rearranged_refl [simp]: "rearranged I I a b"
  by (simp add: rearranged_def)

lemma rearranged_trans: "rearranged I J a b \<Longrightarrow> rearranged J K a b \<Longrightarrow> rearranged I K a b"
  by (simp add: rearranged_def)

lemma rearranged_inj:
  assumes "rearranged I I' a b" and "inj_on (ix I) {a..<b}"
  shows "inj_on (ix I') {a..<b}"
proof (rule eq_card_imp_inj_on)
  show "card (ix I' ` {a..<b}) = card {a..<b}"
    using assms card_image [of "ix I" "{a..<b}"] by (simp add: rearranged_def)
qed simp

lemma rearranged_mono:
  assumes "rearranged I I' c d" and "a \<le> c" "d \<le> b" "0 \<le> a"
  shows "rearranged I I' a b"
proof -
  let ?O = "{p. a \<le> p \<and> p < b \<and> \<not> (c \<le> p \<and> p < d)}"
  have "{a..<b} = {c..<d} \<union> ?O" if "c < d" using assms that by auto
  moreover have "ix I' ` ?O = ix I ` ?O"
    using assms by (intro image_cong refl) (auto simp: rearranged_def)
  ultimately have "ix I' ` {a..<b} = ix I ` {a..<b}" if "c < d"
    using assms that by (auto simp: rearranged_def image_Un)
  moreover have "ix I' ` {a..<b} = ix I ` {a..<b}" if "\<not> c < d"
    using assms that by (intro image_cong refl) (auto simp: rearranged_def)
  ultimately have "ix I' ` {a..<b} = ix I ` {a..<b}" by blast
  then show ?thesis using assms by (auto simp: rearranged_def)
qed

lemma swap_entries_ix:
  assumes "inside I i" and "inside I j"
  obtains I' where "swap_entries I i j = Some I'" "length I' = length I"
    "\<And>p. 0 \<le> p \<Longrightarrow> ix I' p = (if p = i then ix I j else if p = j then ix I i else ix I p)"
proof
  let ?I = "I[nat i := ix I j, nat j := ix I i]"
  show "swap_entries I i j = Some ?I"
    using assms by (simp add: swap_entries_def arr)
  show "ix ?I p = (if p = i then ix I j else if p = j then ix I i else ix I p)" if "0 \<le> p" for p
    using assms that by (simp add: arr)
qed simp

lemma swap_entries_rearranged:
  assumes "inside I i" "inside I j" and "a \<le> i" "i < b" "a \<le> j" "j < b" "0 \<le> a"
  obtains I' where "swap_entries I i j = Some I'" "length I' = length I" "rearranged I I' a b"
    "\<And>p. 0 \<le> p \<Longrightarrow> ix I' p = (if p = i then ix I j else if p = j then ix I i else ix I p)"
proof -
  from swap_entries_ix [OF assms(1,2)] obtain I' where I': "swap_entries I i j = Some I'"
    "length I' = length I"
    "\<And>p. 0 \<le> p \<Longrightarrow> ix I' p = (if p = i then ix I j else if p = j then ix I i else ix I p)"
    by blast
  have "ix I' ` {a..<b} \<subseteq> ix I ` {a..<b}"
    using assms I'(3) by auto
  moreover have "ix I q \<in> ix I' ` {a..<b}" if "a \<le> q" "q < b" for q
    using assms that I'(3) [of i] I'(3) [of j] I'(3) [of q]
    by (intro image_eqI [of _ _ "if q = i then j else if q = j then i else q"]) auto
  ultimately have "ix I' ` {a..<b} = ix I ` {a..<b}" by auto
  with I' assms show ?thesis by (intro that [of I']) (auto simp: rearranged_def)
qed

section \<open>The loops of \<open>split\<close>\<close>

lemma gather_spec:
  assumes "0 \<le> k" "en \<le> int (length I)"
    and "\<And>t. k \<le> t \<Longrightarrow> t < en \<Longrightarrow> inside V (ix I t + h)"
    and "1 \<le> i" "1 \<le> j" "j \<le> i" "k + i \<le> en"
    and "\<And>t. k \<le> t \<Longrightarrow> t < k + j \<Longrightarrow> ix V (ix I t + h) = x"
    and "\<And>t. k + j \<le> t \<Longrightarrow> t < k + i \<Longrightarrow> x < ix V (ix I t + h)"
  shows "\<exists>I' j' x'. gather I V h en k i j x = Some (I', j') \<and> rearranged I I' k en
    \<and> 1 \<le> j' \<and> k + j' \<le> en \<and> (\<forall>t. k \<le> t \<and> t < k + j' \<longrightarrow> ix V (ix I' t + h) = x')
    \<and> (\<forall>t. k + j' \<le> t \<and> t < en \<longrightarrow> x' < ix V (ix I' t + h))"
  using assms
proof (induction "nat (en - (k + i))" arbitrary: I i j x rule: less_induct)
  case less
  show ?case
  proof (cases "k + i < en")
    case False
    with less.prems show ?thesis by (subst gather.simps) fastforce
  next
    case True
    let ?y = "ix V (ix I (k + i) + h)"
    define j0 where "j0 = (if ?y < x then 0 else j)"
    define x0 where "x0 = (if ?y < x then ?y else x)"
    have y: "key_at I V h (k + i) = Some ?y"
      using True less.prems by (simp add: key_at_ix inside_def)
    have in_range: "inside I (k + i)" "inside I (k + j0)"
      using True less.prems by (auto simp: inside_def j0_def)
    show ?thesis
    proof (cases "?y = x0")
      case False
      then have "x < ?y" by (auto simp: x0_def split: if_splits)
      with y True have step: "gather I V h en k i j x = gather I V h en k (i + 1) j x"
        by (subst gather.simps) simp
      have "\<exists>I' j' x'. gather I V h en k (i + 1) j x = Some (I', j') \<and> rearranged I I' k en
        \<and> 1 \<le> j' \<and> k + j' \<le> en \<and> (\<forall>t. k \<le> t \<and> t < k + j' \<longrightarrow> ix V (ix I' t + h) = x')
        \<and> (\<forall>t. k + j' \<le> t \<and> t < en \<longrightarrow> x' < ix V (ix I' t + h))"
      proof (rule less.hyps)
        show "x < ix V (ix I t + h)" if "k + j \<le> t" "t < k + (i + 1)" for t
          using less.prems(9) [of t] that \<open>x < ?y\<close> by (cases "t = k + i") auto
      qed (use less.prems True \<open>x < ?y\<close> in auto)
      with step show ?thesis by simp
    next
      case eq: True
      have bounds: "k \<le> k + j0" "k + j0 < en" "k \<le> k + i"
        using True less.prems by (auto simp: j0_def)
      obtain J where J: "swap_entries I (k + j0) (k + i) = Some J" "length J = length I"
        "rearranged I J k en"
        "\<And>p. 0 \<le> p \<Longrightarrow> ix J p = (if p = k + j0 then ix I (k + i)
           else if p = k + i then ix I (k + j0) else ix I p)"
        by (rule swap_entries_rearranged [OF in_range(2,1) bounds True less.prems(1)]) (rule that)
      have step: "gather I V h en k i j x = gather J V h en k (i + 1) (j0 + 1) x0"
      proof -
        have "(if x0 < x then (x0, 0) else (x, j)) = (x0, j0)"
          using eq by (auto simp: x0_def j0_def)
        with y True eq J(1) show ?thesis by (subst gather.simps) (simp add: Let_def)
      qed
      have old: "ix V (ix I t + h) = x" if "k \<le> t" "t < k + j" for t
        using less.prems(8) that .
      have "\<exists>I' j' x'. gather J V h en k (i + 1) (j0 + 1) x0 = Some (I', j') \<and> rearranged J I' k en
        \<and> 1 \<le> j' \<and> k + j' \<le> en \<and> (\<forall>t. k \<le> t \<and> t < k + j' \<longrightarrow> ix V (ix I' t + h) = x')
        \<and> (\<forall>t. k + j' \<le> t \<and> t < en \<longrightarrow> x' < ix V (ix I' t + h))"
      proof (rule less.hyps)
        show "inside V (ix J t + h)" if "k \<le> t" "t < en" for t
          using less.prems(1,3-6) True that J(4) [of t] by (auto simp: j0_def)
        show "ix V (ix J t + h) = x0" if "k \<le> t" "t < k + (j0 + 1)" for t
        proof (cases "t = k + j0")
          case True
          with J(4) [of t] that less.prems(1) eq show ?thesis by simp
        next
          case False
          then have "\<not> ?y < x" "t < k + j" using that by (auto simp: j0_def split: if_splits)
          moreover have "ix J t = ix I t"
            using J(4) [of t] False that less.prems(1,6) \<open>t < k + j\<close> by simp
          ultimately show ?thesis using old [of t] that by (simp add: x0_def)
        qed
        show "x0 < ix V (ix J t + h)" if "k + (j0 + 1) \<le> t" "t < k + (i + 1)" for t
        proof (cases "t = k + i")
          case t: True
          with that have "j0 < i" by simp
          have "x0 < ix V (ix I (k + j0) + h)"
          proof (cases "?y < x")
            case True
            then show ?thesis using old [of k] less.prems(5) by (simp add: j0_def x0_def)
          next
            case False
            then show ?thesis using less.prems(9) [of "k + j"] \<open>j0 < i\<close> by (simp add: j0_def x0_def)
          qed
          then show ?thesis using t J(4) [of t] \<open>j0 < i\<close> less.prems(1,4) by simp
        next
          case False
          have "x \<le> ix V (ix I t + h)"
          proof (cases "t < k + j")
            case True
            then show ?thesis using old [of t] that less.prems(5) by (auto simp: j0_def split: if_splits)
          next
            case False
            then show ?thesis using less.prems(9) [of t] that \<open>t \<noteq> k + i\<close> by simp
          qed
          moreover have "x < ix V (ix I t + h)" if "\<not> ?y < x"
            using less.prems(9) [of t] that \<open>k + (j0 + 1) \<le> t\<close> \<open>t < k + (i + 1)\<close> False
            by (simp add: j0_def)
          ultimately have "x0 < ix V (ix I t + h)" by (cases "?y < x") (auto simp: x0_def)
          moreover have "0 \<le> t" "t \<noteq> k + j0"
            using that less.prems(1,5) by (auto simp: j0_def split: if_splits)
          ultimately show ?thesis using J(4) [of t] False by simp
        qed
      qed (use less.prems(1,2,4-7) True J(2) in \<open>auto simp: j0_def\<close>)
      with step J(3) show ?thesis by (metis rearranged_trans)
    qed
  qed
qed

lemma assign_group_spec:
  assumes "\<And>t. k \<le> t \<Longrightarrow> t < k + int n \<Longrightarrow> inside I t \<and> inside V (ix I t)"
  shows "\<exists>V'. assign_group I V g k n = Some V' \<and> length V' = length V
    \<and> (\<forall>q \<ge> 0. ix V' q = (if q \<in> ix I ` {k..<k + int n} then g else ix V q))"
  using assms
proof (induction n arbitrary: V k)
  case 0
  then show ?case by simp
next
  case (Suc n)
  have here: "inside I k" "inside V (ix I k)" using Suc.prems [of k] by auto
  have "\<exists>V'. assign_group I (V[nat (ix I k) := g]) g (k + 1) n = Some V'
    \<and> length V' = length (V[nat (ix I k) := g])
    \<and> (\<forall>q \<ge> 0. ix V' q = (if q \<in> ix I ` {k + 1..<k + 1 + int n} then g
         else ix (V[nat (ix I k) := g]) q))"
    by (rule Suc.IH) (use Suc.prems in simp)
  moreover have "{k..<k + int (Suc n)} = insert k {k + 1..<k + 1 + int n}" by auto
  ultimately show ?case using here by (auto simp: arr)
qed

end
