(* ===== verification/SufSplit.thy ===== *)
theory SufSplit
  imports SufSort
begin

text \<open>
  \<open>split\<close> of \<open>applypatch/bsdiff.c\<close>: the loops that partition a range by a pivot, and what a call
  does to a range of suffixes that agree on their first \<open>h\<close> bytes.
\<close>

section \<open>The partition\<close>

definition part_ok :: "int list \<Rightarrow> int \<Rightarrow> int \<Rightarrow> int \<Rightarrow> int \<Rightarrow> int \<Rightarrow> int \<Rightarrow> int list \<Rightarrow> bool" where
  "part_ok V h x a e jj kk I \<longleftrightarrow> 0 \<le> a \<and> a \<le> e \<and> e \<le> int (length I) \<and> inj_on (ix I) {a..<e}
     \<and> (\<forall>p \<in> ix I ` {a..<e}. inside V (p + h))
     \<and> jj = a + int (card {p \<in> ix I ` {a..<e}. ix V (p + h) < x})
     \<and> kk = jj + int (card {p \<in> ix I ` {a..<e}. ix V (p + h) = x})"

definition zones :: "int list \<Rightarrow> int \<Rightarrow> int \<Rightarrow> int list \<Rightarrow> int \<Rightarrow> int \<Rightarrow> int \<Rightarrow> int \<Rightarrow> int \<Rightarrow> int \<Rightarrow> bool" where
  "zones V h x I a i jj j kk k \<longleftrightarrow>
     (\<forall>t. a \<le> t \<and> t < i \<longrightarrow> ix V (ix I t + h) < x)
     \<and> (\<forall>t. jj \<le> t \<and> t < jj + j \<longrightarrow> ix V (ix I t + h) = x)
     \<and> (\<forall>t. kk \<le> t \<and> t < kk + k \<longrightarrow> x < ix V (ix I t + h))"

lemma part_ok_rearranged:
  assumes "part_ok V h x a e jj kk I" "rearranged I I' a e"
  shows "part_ok V h x a e jj kk I'"
proof -
  have "ix I' ` {a..<e} = ix I ` {a..<e}" "length I' = length I"
    using assms(2) by (simp_all add: rearranged_def)
  moreover have "inj_on (ix I') {a..<e}"
    using assms rearranged_inj by (auto simp: part_ok_def)
  ultimately show ?thesis using assms(1) unfolding part_ok_def by presburger
qed

text \<open>There are not more positions of a kind than entries of that kind.\<close>

lemma positions_le:
  assumes "inj_on (ix I) {a..<e}" "S \<subseteq> {a..<e}" "\<forall>t \<in> S. P (ix I t)"
  shows "card S \<le> card {p \<in> ix I ` {a..<e}. P p}"
proof -
  have "card S = card (ix I ` S)"
    using assms(1,2) card_image inj_on_subset by metis
  also have "\<dots> \<le> card {p \<in> ix I ` {a..<e}. P p}"
    using assms(2,3) by (intro card_mono) auto
  finally show ?thesis .
qed

lemma room_for:
  assumes "inj_on (ix I) {a..<e}" "a \<le> c" "0 \<le> j" "c + j \<le> e" "a \<le> t" "t < e" "\<not> (c \<le> t \<and> t < c + j)"
    and "\<forall>s. c \<le> s \<and> s < c + j \<longrightarrow> P (ix I s)" "P (ix I t)"
  shows "j < int (card {p \<in> ix I ` {a..<e}. P p})"
proof -
  have "card (insert t {c..<c + j}) \<le> card {p \<in> ix I ` {a..<e}. P p}"
    using assms by (intro positions_le) auto
  with assms(3,7) show ?thesis by simp
qed

lemma filter_insert_set: "{q \<in> insert p R. P q} = (if P p then insert p {q \<in> R. P q} else {q \<in> R. P q})"
  by auto

lemma card_trichotomy:
  fixes f :: "int \<Rightarrow> int"
  assumes "finite R"
  shows "card R = card {p \<in> R. f p < x} + card {p \<in> R. f p = x} + card {p \<in> R. x < f p}"
  using assms
proof induction
  case (insert q R)
  consider "f q < x" | "f q = x" | "x < f q" by linarith
  then show ?case using insert by cases (simp_all add: filter_insert_set del: insert_iff)
qed simp

lemma part_ok_end:
  assumes "part_ok V h x a e jj kk I"
  shows "a \<le> jj" "jj \<le> kk" "e = kk + int (card {p \<in> ix I ` {a..<e}. x < ix V (p + h)})" "kk \<le> e"
proof -
  let ?R = "ix I ` {a..<e}"
  have "card ?R = card {p \<in> ?R. ix V (p + h) < x} + card {p \<in> ?R. ix V (p + h) = x}
    + card {p \<in> ?R. x < ix V (p + h)}"
    by (rule card_trichotomy) simp
  moreover have "int (card ?R) = e - a"
    using assms card_image [of "ix I" "{a..<e}"] by (simp add: part_ok_def)
  ultimately show "e = kk + int (card {p \<in> ?R. x < ix V (p + h)})"
    using assms by (simp add: part_ok_def)
  then show "a \<le> jj" "jj \<le> kk" "kk \<le> e" using assms by (simp_all add: part_ok_def)
qed

lemma count_keys_spec:
  assumes "\<And>t. i \<le> t \<Longrightarrow> t < i + int n \<Longrightarrow> inside I t \<and> inside V (ix I t + h)"
  shows "count_keys I V h x i n jj kk =
    Some (jj + int (card {t \<in> {i..<i + int n}. ix V (ix I t + h) < x}),
          kk + int (card {t \<in> {i..<i + int n}. ix V (ix I t + h) = x}))"
  using assms
proof (induction n arbitrary: i jj kk)
  case 0
  then show ?case by simp
next
  case (Suc n)
  have split_off: "card {t \<in> {i..<i + int (Suc n)}. P t}
    = card {t \<in> {i + 1..<i + 1 + int n}. P t} + (if P i then 1 else 0)" for P
  proof -
    have "{i..<i + int (Suc n)} = insert i {i + 1..<i + 1 + int n}" by auto
    moreover have "card (insert i {t \<in> {i + 1..<i + 1 + int n}. P t})
      = Suc (card {t \<in> {i + 1..<i + 1 + int n}. P t})"
      by (rule card_insert_disjoint [OF finite_subset [of _ "{i + 1..<i + 1 + int n}"]]) auto
    ultimately show ?thesis
      by (cases "P i") (simp_all only: filter_insert_set if_True if_False Suc_eq_plus1 add_0_right)
  qed
  have "key_at I V h i = Some (ix V (ix I i + h))"
    using Suc.prems [of i] by (simp add: key_at_ix)
  then have "count_keys I V h x i (Suc n) jj kk = count_keys I V h x (i + 1) n
      (if ix V (ix I i + h) < x then jj + 1 else jj) (if ix V (ix I i + h) = x then kk + 1 else kk)"
    by simp
  also have "\<dots> = Some ((if ix V (ix I i + h) < x then jj + 1 else jj)
       + int (card {t \<in> {i + 1..<i + 1 + int n}. ix V (ix I t + h) < x}),
     (if ix V (ix I i + h) = x then kk + 1 else kk)
       + int (card {t \<in> {i + 1..<i + 1 + int n}. ix V (ix I t + h) = x}))"
    by (rule Suc.IH) (use Suc.prems in simp)
  finally show ?case
    unfolding split_off [of "\<lambda>t. ix V (ix I t + h) < x"] split_off [of "\<lambda>t. ix V (ix I t + h) = x"]
    by simp
qed

lemma part_less_spec:
  assumes "part_ok V h x a e jj kk I" "zones V h x I a i jj j kk k"
    and "a \<le> i" "i \<le> jj" "0 \<le> j" "jj + j \<le> kk" "0 \<le> k" "kk + k \<le> e"
  shows "\<exists>I' j' k'. part_less I V h x jj kk i j k = Some (I', j', k') \<and> rearranged I I' a e
    \<and> zones V h x I' a jj jj j' kk k' \<and> 0 \<le> j' \<and> jj + j' \<le> kk \<and> 0 \<le> k' \<and> kk + k' \<le> e"
  using assms
proof (induction "nat (jj - i + (kk - (jj + j)) + (e - (kk + k)))" arbitrary: I i j k rule: less_induct)
  case less
  let ?G = "\<lambda>I0 I' j' k'. rearranged I0 I' a e \<and> zones V h x I' a jj jj j' kk k'
    \<and> 0 \<le> j' \<and> jj + j' \<le> kk \<and> 0 \<le> k' \<and> kk + k' \<le> e"
  show ?case
  proof (cases "i < jj")
    case False
    with less.prems show ?thesis by (subst part_less.simps) auto
  next
    case True
    note ends = part_ok_end [OF less.prems(1)]
    let ?y = "ix V (ix I i + h)"
    have ok: "0 \<le> a" "e \<le> int (length I)" "inj_on (ix I) {a..<e}" using less.prems(1) by (auto simp: part_ok_def)
    have i: "a \<le> i" "i < e" "inside I i" using True less.prems ends ok by (auto simp: inside_def)
    have y: "key_at I V h i = Some ?y"
      using less.prems(1) i by (intro key_at_ix) (auto simp: part_ok_def)
    have z: "\<And>t. a \<le> t \<Longrightarrow> t < i \<Longrightarrow> ix V (ix I t + h) < x"
      "\<And>t. jj \<le> t \<Longrightarrow> t < jj + j \<Longrightarrow> ix V (ix I t + h) = x"
      "\<And>t. kk \<le> t \<Longrightarrow> t < kk + k \<Longrightarrow> x < ix V (ix I t + h)"
      using less.prems(2) by (auto simp: zones_def)
    consider (lt) "?y < x" | (eq) "?y = x" | (gt) "x < ?y" by linarith
    then show ?thesis
    proof cases
      case lt
      have "zones V h x I a (i + 1) jj j kk k"
        using less.prems(2) lt by (auto simp: zones_def order.order_iff_strict)
      with less.hyps [of "i + 1" j k I] less.prems True ends
      have "\<exists>I' j' k'. part_less I V h x jj kk (i + 1) j k = Some (I', j', k') \<and> ?G I I' j' k'"
        by auto
      with True y lt show ?thesis by (subst part_less.simps) simp
    next
      case eq
      have "j < int (card {p \<in> ix I ` {a..<e}. ix V (p + h) = x})"
        using room_for [OF ok(3), of jj j i "\<lambda>p. ix V (p + h) = x"] z(2) i less.prems ends True eq by auto
      then have room: "jj + j < kk" using less.prems(1) by (simp add: part_ok_def)
      have t: "a \<le> jj + j" "jj + j < e" "inside I (jj + j)"
        using room ends less.prems ok by (auto simp: inside_def)
      obtain J where J: "swap_entries I i (jj + j) = Some J" "length J = length I"
        "rearranged I J a e"
        "\<And>p. 0 \<le> p \<Longrightarrow> ix J p = (if p = i then ix I (jj + j) else if p = jj + j then ix I i else ix I p)"
        by (rule swap_entries_rearranged [OF i(3) t(3) i(1,2) t(1,2) ok(1)]) (rule that)
      have "zones V h x J a i jj (j + 1) kk k"
        unfolding zones_def
      proof (intro conjI allI impI; elim conjE)
        fix t assume t: "a \<le> t" "t < i"
        then show "ix V (ix J t + h) < x" using J(4) [of t] z(1) [of t] True less.prems(5) ok(1) by simp
      next
        fix t assume t: "jj \<le> t" "t < jj + (j + 1)"
        then show "ix V (ix J t + h) = x"
          using J(4) [of t] z(2) [of t] True eq ends(1) ok(1) by (cases "t = jj + j") auto
      next
        fix t assume t: "kk \<le> t" "t < kk + k"
        then show "x < ix V (ix J t + h)" using J(4) [of t] z(3) [of t] True room ends ok(1) by simp
      qed
      with less.hyps [of i "j + 1" k J] less.prems part_ok_rearranged [OF less.prems(1) J(3)] room True
      have "\<exists>I' j' k'. part_less J V h x jj kk i (j + 1) k = Some (I', j', k') \<and> ?G J I' j' k'"
        by auto
      with True y eq J(1) rearranged_trans [OF J(3)] show ?thesis by (subst part_less.simps) auto
    next
      case gt
      have "k < int (card {p \<in> ix I ` {a..<e}. x < ix V (p + h)})"
        using room_for [OF ok(3), of kk k i "\<lambda>p. x < ix V (p + h)"] z(3) i less.prems ends True gt by auto
      then have room: "kk + k < e" using ends(3) by simp
      have t: "a \<le> kk + k" "kk + k < e" "inside I (kk + k)"
        using room ends less.prems ok by (auto simp: inside_def)
      obtain J where J: "swap_entries I i (kk + k) = Some J" "length J = length I"
        "rearranged I J a e"
        "\<And>p. 0 \<le> p \<Longrightarrow> ix J p = (if p = i then ix I (kk + k) else if p = kk + k then ix I i else ix I p)"
        by (rule swap_entries_rearranged [OF i(3) t(3) i(1,2) t(1,2) ok(1)]) (rule that)
      have "zones V h x J a i jj j kk (k + 1)"
        unfolding zones_def
      proof (intro conjI allI impI; elim conjE)
        fix t assume t: "a \<le> t" "t < i"
        then show "ix V (ix J t + h) < x" using J(4) [of t] z(1) [of t] True less.prems(7) ends ok(1) by simp
      next
        fix t assume t: "jj \<le> t" "t < jj + j"
        then show "ix V (ix J t + h) = x"
          using J(4) [of t] z(2) [of t] True less.prems(6,7) ends(1) ok(1) by simp
      next
        fix t assume t: "kk \<le> t" "t < kk + (k + 1)"
        then show "x < ix V (ix J t + h)"
          using J(4) [of t] z(3) [of t] True gt ends ok(1) by (cases "t = kk + k") auto
      qed
      with less.hyps [of i j "k + 1" J] less.prems part_ok_rearranged [OF less.prems(1) J(3)] room True
      have "\<exists>I' j' k'. part_less J V h x jj kk i j (k + 1) = Some (I', j', k') \<and> ?G J I' j' k'"
        by auto
      with True y gt J(1) rearranged_trans [OF J(3)] show ?thesis by (subst part_less.simps) auto
    qed
  qed
qed

lemma part_equal_spec:
  assumes "part_ok V h x a e jj kk I" "zones V h x I a jj jj j kk k"
    and "0 \<le> j" "jj + j \<le> kk" "0 \<le> k" "kk + k \<le> e"
  shows "\<exists>I'. part_equal I V h x jj kk j k = Some I' \<and> rearranged I I' a e
    \<and> zones V h x I' a jj jj (kk - jj) kk (e - kk)"
  using assms
proof (induction "nat (kk - (jj + j) + (e - (kk + k)))" arbitrary: I j k rule: less_induct)
  case less
  note ends = part_ok_end [OF less.prems(1)]
  have ok: "0 \<le> a" "e \<le> int (length I)" "inj_on (ix I) {a..<e}"
    and jj: "jj - a = int (card {p \<in> ix I ` {a..<e}. ix V (p + h) < x})"
    and kk: "kk - jj = int (card {p \<in> ix I ` {a..<e}. ix V (p + h) = x})"
    using less.prems(1) by (auto simp: part_ok_def)
  have z: "\<And>t. a \<le> t \<Longrightarrow> t < jj \<Longrightarrow> ix V (ix I t + h) < x"
    "\<And>t. jj \<le> t \<Longrightarrow> t < jj + j \<Longrightarrow> ix V (ix I t + h) = x"
    "\<And>t. kk \<le> t \<Longrightarrow> t < kk + k \<Longrightarrow> x < ix V (ix I t + h)"
    using less.prems(2) by (auto simp: zones_def)
  have not_less: "x \<le> ix V (ix I t + h)" if "jj \<le> t" "t < e" for t
  proof (rule ccontr)
    assume "\<not> ?thesis"
    then have "jj - a < int (card {p \<in> ix I ` {a..<e}. ix V (p + h) < x})"
      using room_for [OF ok(3), of a "jj - a" t "\<lambda>p. ix V (p + h) < x"] z(1) that ends by auto
    with jj show False by simp
  qed
  show ?case
  proof (cases "jj + j < kk")
    case False
    with less.prems have all: "jj + j = kk" by simp
    have "x < ix V (ix I t + h)" if "kk \<le> t" "t < e" for t
    proof (rule ccontr)
      assume "\<not> ?thesis"
      with not_less [of t] that ends have "ix V (ix I t + h) = x" by simp
      then have "kk - jj < int (card {p \<in> ix I ` {a..<e}. ix V (p + h) = x})"
        using room_for [OF ok(3), of jj "kk - jj" t "\<lambda>p. ix V (p + h) = x"] z(2) that ends all by auto
      with kk show False by simp
    qed
    with z all have "zones V h x I a jj jj (kk - jj) kk (e - kk)" by (auto simp: zones_def)
    with False show ?thesis by (subst part_equal.simps) simp
  next
    case True
    let ?t = "jj + j"
    let ?y = "ix V (ix I ?t + h)"
    have i: "a \<le> ?t" "?t < e" "inside I ?t" using True less.prems ends ok by (auto simp: inside_def)
    have y: "key_at I V h ?t = Some ?y"
      using less.prems(1) i by (intro key_at_ix) (auto simp: part_ok_def)
    show ?thesis
    proof (cases "?y = x")
      case eq: True
      have "ix V (ix I t + h) = x" if "jj \<le> t" "t < jj + (j + 1)" for t
        using z(2) [of t] that eq by (cases "t = jj + j") auto
      with z(1,3) have "zones V h x I a jj jj (j + 1) kk k" by (simp add: zones_def)
      with less.hyps [of "j + 1" k I] less.prems True
      have "\<exists>I'. part_equal I V h x jj kk (j + 1) k = Some I' \<and> rearranged I I' a e
        \<and> zones V h x I' a jj jj (kk - jj) kk (e - kk)" by auto
      with True y eq show ?thesis by (subst part_equal.simps) simp
    next
      case False
      with not_less [of ?t] i less.prems have gt: "x < ?y" by simp
      have "k < int (card {p \<in> ix I ` {a..<e}. x < ix V (p + h)})"
        using room_for [OF ok(3), of kk k ?t "\<lambda>p. x < ix V (p + h)"] z(3) i less.prems ends True gt by auto
      then have room: "kk + k < e" using ends(3) by simp
      have t: "a \<le> kk + k" "kk + k < e" "inside I (kk + k)"
        using room ends less.prems ok by (auto simp: inside_def)
      obtain J where J: "swap_entries I ?t (kk + k) = Some J" "length J = length I"
        "rearranged I J a e"
        "\<And>p. 0 \<le> p \<Longrightarrow> ix J p = (if p = ?t then ix I (kk + k) else if p = kk + k then ix I ?t else ix I p)"
        by (rule swap_entries_rearranged [OF i(3) t(3) i(1,2) t(1,2) ok(1)]) (rule that)
      have "zones V h x J a jj jj j kk (k + 1)"
        unfolding zones_def
      proof (intro conjI allI impI; elim conjE)
        fix t assume t: "a \<le> t" "t < jj"
        then show "ix V (ix J t + h) < x"
          using J(4) [of t] z(1) [of t] less.prems(3,5) True ends ok(1) by simp
      next
        fix t assume t: "jj \<le> t" "t < jj + j"
        then show "ix V (ix J t + h) = x"
          using J(4) [of t] z(2) [of t] True less.prems(5) ends(1) ok(1) by simp
      next
        fix t assume t: "kk \<le> t" "t < kk + (k + 1)"
        then show "x < ix V (ix J t + h)"
          using J(4) [of t] z(3) [of t] True gt ends ok(1) by (cases "t = kk + k") auto
      qed
      with less.hyps [of j "k + 1" J] less.prems part_ok_rearranged [OF less.prems(1) J(3)] room True
      have "\<exists>I'. part_equal J V h x jj kk j (k + 1) = Some I' \<and> rearranged J I' a e
        \<and> zones V h x I' a jj jj (kk - jj) kk (e - kk)" by auto
      with True y False J(1) rearranged_trans [OF J(3)] show ?thesis
        by (subst part_equal.simps) auto
    qed
  qed
qed

section \<open>Suffixes and their ranks\<close>

definition suf :: "byte list \<Rightarrow> int \<Rightarrow> byte list" where
  "suf old p = drop (nat p) old"

definition is_pos :: "byte list \<Rightarrow> int \<Rightarrow> bool" where
  "is_pos old p \<longleftrightarrow> 0 \<le> p \<and> p \<le> int (length old)"

text \<open>Two suffixes that agree on the first \<open>h\<close> bytes.\<close>

definition alike :: "byte list \<Rightarrow> int \<Rightarrow> int \<Rightarrow> int \<Rightarrow> bool" where
  "alike old h p q \<longleftrightarrow> take (nat h) (suf old p) = take (nat h) (suf old q)"

definition members :: "byte list \<Rightarrow> int list \<Rightarrow> int \<Rightarrow> int set" where
  "members old V g = {p. is_pos old p \<and> ix V p = g}"

text \<open>
  What holds of \<open>V\<close> at any time: a smaller rank belongs to a smaller suffix, and suffixes of the
  same rank agree on \<open>h\<close> bytes.
\<close>

definition ranks_ok :: "byte list \<Rightarrow> int \<Rightarrow> int list \<Rightarrow> bool" where
  "ranks_ok old h V \<longleftrightarrow> length V = length old + 1
     \<and> (\<forall>p. is_pos old p \<longrightarrow> is_pos old (ix V p))
     \<and> (\<forall>p q. is_pos old p \<and> is_pos old q \<and> ix V p < ix V q \<longrightarrow> suf old p < suf old q)
     \<and> (\<forall>p q. is_pos old p \<and> is_pos old q \<and> ix V p = ix V q \<longrightarrow> alike old h p q)"

text \<open>
  How \<open>I\<close> lists the suffixes from position \<open>a\<close> to \<open>b\<close>: a negative entry stands for that many
  suffixes that have their final rank; otherwise there is a group of suffixes with the same rank,
  which is its last position.
\<close>

definition group_at :: "byte list \<Rightarrow> int \<Rightarrow> int list \<Rightarrow> int list \<Rightarrow> int \<Rightarrow> int \<Rightarrow> bool" where
  "group_at old h I V a b \<longleftrightarrow> inj_on (ix I) {a..<b} \<and> ix I ` {a..<b} = members old V (b - 1)
     \<and> (\<forall>j. a \<le> j \<and> j < b - 1 \<longrightarrow> members old V j = {})
     \<and> (\<forall>p \<in> members old V (b - 1). p + h \<le> int (length old)
         \<and> (\<forall>q \<in> members old V (b - 1). alike old h p q))"

definition sorted_from :: "byte list \<Rightarrow> int list \<Rightarrow> int \<Rightarrow> int \<Rightarrow> bool" where
  "sorted_from old V a b \<longleftrightarrow> (\<forall>j. a \<le> j \<and> j < b \<longrightarrow> (\<exists>p. members old V j = {p}))"

inductive segments :: "byte list \<Rightarrow> int \<Rightarrow> int list \<Rightarrow> int list \<Rightarrow> int \<Rightarrow> int \<Rightarrow> bool"
  for old h I V
where
  done_segments: "segments old h I V a a"
| sorted_segment: "ix I a = - l \<Longrightarrow> 1 \<le> l \<Longrightarrow> sorted_from old V a (a + l) \<Longrightarrow>
    segments old h I V (a + l) b \<Longrightarrow> segments old h I V a b"
| group_segment: "a < c \<Longrightarrow> group_at old h I V a c \<Longrightarrow> segments old h I V c b \<Longrightarrow>
    segments old h I V a b"

inductive_cases segments_cases [consumes 1, case_names none sorted grouped]: "segments old h I V a b"

lemma segments_le: "segments old h I V a b \<Longrightarrow> a \<le> b"
  by (induction rule: segments.induct) auto

lemma segments_append: "segments old h I V a b \<Longrightarrow> segments old h I V b c \<Longrightarrow> segments old h I V a c"
  by (induction rule: segments.induct) (auto intro: segments.intros)

lemma segments_frame:
  assumes "segments old h I V a b"
    and "\<And>t. a \<le> t \<Longrightarrow> t < b \<Longrightarrow> ix I' t = ix I t"
    and "\<And>j. a \<le> j \<Longrightarrow> j < b \<Longrightarrow> members old V' j = members old V j"
  shows "segments old h I' V' a b"
  using assms
proof (induction rule: segments.induct)
  case (sorted_segment a l b)
  have "a + l \<le> b" using segments_le [OF sorted_segment.hyps(4)] .
  with sorted_segment show ?case
    by (intro segments.sorted_segment [of I' a l]) (auto simp: sorted_from_def)
next
  case (group_segment a c b)
  have "c \<le> b" using segments_le [OF group_segment.hyps(3)] .
  then have "inj_on (ix I') {a..<c} = inj_on (ix I) {a..<c}" "ix I' ` {a..<c} = ix I ` {a..<c}"
    using group_segment.prems(1) by (auto simp: inj_on_def image_iff)
  with group_segment \<open>c \<le> b\<close> show ?case
    by (intro segments.group_segment [of a c]) (auto simp: group_at_def)
qed (rule segments.done_segments)

subsection \<open>Comparing suffixes behind a common prefix\<close>

lemma append_less_same: "c @ u < c @ v \<longleftrightarrow> u < (v :: byte list)"
  by (induction c) auto

lemma suf_plus: "0 \<le> p \<Longrightarrow> 0 \<le> h \<Longrightarrow> suf old (p + h) = drop (nat h) (suf old p)"
  by (simp add: suf_def nat_add_distrib add.commute)

lemma suf_split: "0 \<le> p \<Longrightarrow> 0 \<le> h \<Longrightarrow> suf old p = take (nat h) (suf old p) @ suf old (p + h)"
  by (simp add: suf_plus)

lemma alike_less:
  assumes "alike old h p q" "0 \<le> p" "0 \<le> q" "0 \<le> h" "suf old (p + h) < suf old (q + h)"
  shows "suf old p < suf old q"
  using assms suf_split [of p h old] suf_split [of q h old]
  by (metis alike_def append_less_same)

lemma alike_double:
  assumes "alike old h p q" "0 \<le> p" "0 \<le> q" "0 \<le> h" "alike old h (p + h) (q + h)"
  shows "alike old (h + h) p q"
proof -
  have "take (nat (h + h)) (suf old r) = take (nat h) (suf old r) @ take (nat h) (suf old (r + h))"
    if "0 \<le> r" for r
    unfolding nat_add_distrib [OF assms(4) assms(4)] take_add suf_plus [OF that assms(4)]
    by (rule refl)
  with assms show ?thesis by (simp add: alike_def)
qed

lemma alike_inside:
  assumes "alike old h p q" "is_pos old p" "is_pos old q" "p \<noteq> q" "0 \<le> h"
  shows "p + h \<le> int (length old)"
proof -
  have "min (length old - nat p) (nat h) = min (length old - nat q) (nat h)"
    using assms(1) unfolding alike_def suf_def by (metis length_drop length_take min.commute)
  then show ?thesis using assms(2-5) by (auto simp: is_pos_def min_def split: if_splits)
qed

lemma alike_sym: "alike old h p q \<Longrightarrow> alike old h q p"
  by (simp add: alike_def)

lemma alike_half: "alike old (h + h) p q \<Longrightarrow> 0 \<le> h \<Longrightarrow> alike old h p q"
  unfolding alike_def by (metis min.absorb1 nat_mono le_add_same_cancel1 take_take)

section \<open>What \<open>split\<close> does to a range\<close>

definition split_pre :: "byte list \<Rightarrow> int \<Rightarrow> int list \<Rightarrow> int list \<Rightarrow> int \<Rightarrow> int \<Rightarrow> bool" where
  "split_pre old h I V a e \<longleftrightarrow> length I = length old + 1 \<and> ranks_ok old h V \<and> 0 < h
     \<and> 0 \<le> a \<and> a \<le> e \<and> e \<le> int (length old) + 1 \<and> inj_on (ix I) {a..<e}
     \<and> (\<forall>p \<in> ix I ` {a..<e}. is_pos old p \<and> p + h \<le> int (length old) \<and> e - 1 \<le> ix V p
         \<and> (\<forall>q \<in> ix I ` {a..<e}. ix V q = ix V p)
         \<and> (\<forall>q. is_pos old q \<and> q \<notin> ix I ` {a..<e} \<longrightarrow>
              (ix V q < a \<and> suf old q < suf old p) \<or> (e \<le> ix V q \<and> suf old p < suf old q)))
     \<and> (\<forall>q. is_pos old q \<and> q \<notin> ix I ` {a..<e} \<longrightarrow> ix V q < a \<or> e \<le> ix V q)"

definition split_done ::
  "byte list \<Rightarrow> int \<Rightarrow> int \<Rightarrow> int \<Rightarrow> int list \<Rightarrow> int list \<Rightarrow> int list \<Rightarrow> int list \<Rightarrow> bool" where
  "split_done old h a e I V I' V' \<longleftrightarrow> length I' = length I \<and> ranks_ok old h V'
     \<and> (\<forall>t. 0 \<le> t \<and> \<not> (a \<le> t \<and> t < e) \<longrightarrow> ix I' t = ix I t)
     \<and> (\<forall>q. is_pos old q \<and> q \<notin> ix I ` {a..<e} \<longrightarrow> ix V' q = ix V q)
     \<and> (\<forall>q \<in> ix I ` {a..<e}. a \<le> ix V' q \<and> ix V' q < e)
     \<and> segments old (h + h) I' V' a e"

lemma split_preD:
  assumes "split_pre old h I V a e"
  shows "length I = length old + 1" "ranks_ok old h V" "0 < h" "0 \<le> a" "a \<le> e"
    "e \<le> int (length I)" "inj_on (ix I) {a..<e}"
    "p \<in> ix I ` {a..<e} \<Longrightarrow> is_pos old p" "p \<in> ix I ` {a..<e} \<Longrightarrow> is_pos old (p + h)"
    "p \<in> ix I ` {a..<e} \<Longrightarrow> inside V p" "p \<in> ix I ` {a..<e} \<Longrightarrow> inside V (p + h)"
    "p \<in> ix I ` {a..<e} \<Longrightarrow> e - 1 \<le> ix V p"
    "p \<in> ix I ` {a..<e} \<Longrightarrow> q \<in> ix I ` {a..<e} \<Longrightarrow> ix V p = ix V q"
    "p \<in> ix I ` {a..<e} \<Longrightarrow> is_pos old q \<Longrightarrow> q \<notin> ix I ` {a..<e} \<Longrightarrow>
       (ix V q < a \<and> suf old q < suf old p) \<or> (e \<le> ix V q \<and> suf old p < suf old q)"
    "is_pos old q \<Longrightarrow> q \<notin> ix I ` {a..<e} \<Longrightarrow> ix V q < a \<or> e \<le> ix V q"
proof -
  note pre = assms [unfolded split_pre_def]
  from pre have "length I = length old + 1 \<and> ranks_ok old h V \<and> 0 < h \<and> 0 \<le> a \<and> a \<le> e
    \<and> e \<le> int (length old) + 1 \<and> inj_on (ix I) {a..<e}"
    by (elim conjE) (intro conjI; assumption)
  then show "length I = length old + 1" "ranks_ok old h V" "0 < h" "0 \<le> a" "a \<le> e"
    "e \<le> int (length I)" "inj_on (ix I) {a..<e}" by simp_all
  from pre show "is_pos old q \<Longrightarrow> q \<notin> ix I ` {a..<e} \<Longrightarrow> ix V q < a \<or> e \<le> ix V q"
    by blast
  have each: "is_pos old p \<and> p + h \<le> int (length old) \<and> e - 1 \<le> ix V p
      \<and> (\<forall>q \<in> ix I ` {a..<e}. ix V q = ix V p)
      \<and> (\<forall>q. is_pos old q \<and> q \<notin> ix I ` {a..<e} \<longrightarrow>
           (ix V q < a \<and> suf old q < suf old p) \<or> (e \<le> ix V q \<and> suf old p < suf old q))"
    if "p \<in> ix I ` {a..<e}" using pre that by blast
  have "length V = length old + 1" using pre by (simp add: ranks_ok_def)
  moreover have "0 < h" using pre by blast
  moreover have "p \<in> ix I ` {a..<e} \<Longrightarrow> is_pos old p \<and> p + h \<le> int (length old)"
    using each by blast
  ultimately show "p \<in> ix I ` {a..<e} \<Longrightarrow> is_pos old (p + h)"
    "p \<in> ix I ` {a..<e} \<Longrightarrow> inside V p" "p \<in> ix I ` {a..<e} \<Longrightarrow> inside V (p + h)"
    by (simp_all add: is_pos_def inside_def)
  show "p \<in> ix I ` {a..<e} \<Longrightarrow> is_pos old p" "p \<in> ix I ` {a..<e} \<Longrightarrow> e - 1 \<le> ix V p"
    using each by blast+
  show "p \<in> ix I ` {a..<e} \<Longrightarrow> q \<in> ix I ` {a..<e} \<Longrightarrow> ix V p = ix V q"
    using each by metis
  show "p \<in> ix I ` {a..<e} \<Longrightarrow> is_pos old q \<Longrightarrow> q \<notin> ix I ` {a..<e} \<Longrightarrow>
       (ix V q < a \<and> suf old q < suf old p) \<or> (e \<le> ix V q \<and> suf old p < suf old q)"
    using each by blast
qed

lemma ranks_okD:
  assumes "ranks_ok old h V" "is_pos old p" "is_pos old q"
  shows "ix V p < ix V q \<Longrightarrow> suf old p < suf old q" "ix V p = ix V q \<Longrightarrow> alike old h p q"
    "is_pos old (ix V p)" "inside V p"
  using assms by (auto simp: ranks_ok_def inside_def is_pos_def)

lemma split_pre_keys:
  assumes "split_pre old h I V a e" "p \<in> ix I ` {a..<e}" "q \<in> ix I ` {a..<e}"
  shows "ix V (p + h) < ix V (q + h) \<Longrightarrow> suf old p < suf old q"
    "ix V (p + h) = ix V (q + h) \<Longrightarrow> alike old (h + h) p q"
proof -
  note D = split_preD [OF assms(1)]
  have h: "0 \<le> h" and pq: "is_pos old p" "is_pos old q" using D(3,8) assms by auto
  then have nn: "0 \<le> p" "0 \<le> q" by (auto simp: is_pos_def)
  have "alike old h p q" using ranks_okD(2) [OF D(2) pq] D(13) [OF assms(2,3)] by simp
  note rules = alike_less [OF this nn h] alike_double [OF this nn h]
  show "ix V (p + h) < ix V (q + h) \<Longrightarrow> suf old p < suf old q"
    using rules(1) ranks_okD(1) [OF D(2) D(9) D(9)] assms(2,3) by blast
  show "ix V (p + h) = ix V (q + h) \<Longrightarrow> alike old (h + h) p q"
    using rules(2) ranks_okD(2) [OF D(2) D(9) D(9)] assms(2,3) by blast
qed

lemma split_pre_rearranged:
  assumes "split_pre old h I V a e" "rearranged I I' a e"
  shows "split_pre old h I' V a e"
proof -
  have "ix I' ` {a..<e} = ix I ` {a..<e}" "length I' = length I"
    using assms(2) by (auto simp: rearranged_def)
  moreover have "inj_on (ix I') {a..<e}"
    using assms rearranged_inj split_preD(7) by blast
  ultimately show ?thesis using assms(1) unfolding split_pre_def by presburger
qed

lemma split_done_rearranged:
  assumes "rearranged I I1 a e" "split_done old h a e I1 V I' V'"
  shows "split_done old h a e I V I' V'"
proof -
  have "ix I1 ` {a..<e} = ix I ` {a..<e}" "length I1 = length I"
    "\<And>t. 0 \<le> t \<Longrightarrow> \<not> (a \<le> t \<and> t < e) \<Longrightarrow> ix I1 t = ix I t"
    using assms(1) by (auto simp: rearranged_def)
  with assms(2) show ?thesis unfolding split_done_def by metis
qed

lemma range_parts:
  assumes "a \<le> m" "m \<le> (e :: int)"
  shows "f ` {a..<e} = f ` {a..<m} \<union> f ` {m..<e}"
    "inj_on f {a..<e} \<Longrightarrow> f ` {a..<m} \<inter> f ` {m..<e} = {}"
    "inj_on f {a..<e} \<Longrightarrow> inj_on f {a..<m}" "inj_on f {a..<e} \<Longrightarrow> inj_on f {m..<e}"
proof -
  have *: "{a..<e} = {a..<m} \<union> {m..<e}" using assms by auto
  then show "f ` {a..<e} = f ` {a..<m} \<union> f ` {m..<e}" by (simp add: image_Un)
  show "inj_on f {a..<e} \<Longrightarrow> f ` {a..<m} \<inter> f ` {m..<e} = {}"
  proof (rule equals0I)
    fix y assume inj: "inj_on f {a..<e}" and "y \<in> f ` {a..<m} \<inter> f ` {m..<e}"
    then obtain s t where st: "f s = f t" "s \<in> {a..<m}" "t \<in> {m..<e}" by (metis IntE imageE)
    then have "s = t" using inj assms by (auto dest!: inj_onD)
    with st show False by simp
  qed
  show "inj_on f {a..<e} \<Longrightarrow> inj_on f {a..<m}" "inj_on f {a..<e} \<Longrightarrow> inj_on f {m..<e}"
    unfolding * by (auto simp: inj_on_Un)
qed

lemma split_pre_left:
  assumes pre: "split_pre old h I V a e" and m: "a \<le> m" "m < e"
    and less: "\<And>p q. p \<in> ix I ` {a..<m} \<Longrightarrow> q \<in> ix I ` {m..<e} \<Longrightarrow> suf old p < suf old q"
  shows "split_pre old h I V a m"
proof -
  note D = split_preD [OF pre]
  note parts = range_parts [OF m(1) order.strict_implies_order [OF m(2)], of "ix I"]
  have inj: "inj_on (ix I) {a..<m}" using parts(3) D(7) by blast
  have left: "p \<in> ix I ` {a..<e}" if "p \<in> ix I ` {a..<m}" for p using that parts(1) by blast
  have other: "(ix V q < a \<and> suf old q < suf old p) \<or> (m \<le> ix V q \<and> suf old p < suf old q)"
    if p: "p \<in> ix I ` {a..<m}" and q: "is_pos old q" "q \<notin> ix I ` {a..<m}" for p q
  proof (cases "q \<in> ix I ` {a..<e}")
    case True
    with q parts(1) have "q \<in> ix I ` {m..<e}" by blast
    with less [OF p] D(12) [OF True] m(2) show ?thesis by simp
  next
    case False
    with D(14) [OF left [OF p] q(1)] m(2) show ?thesis by auto
  qed
  have rank: "ix V q < a \<or> m \<le> ix V q" if "is_pos old q" "q \<notin> ix I ` {a..<m}" for q
    using D(12) [of q] D(15) [OF that(1)] m(2) by force
  show ?thesis unfolding split_pre_def
  proof (intro conjI ballI allI impI; (elim conjE)?)
    fix p assume p: "p \<in> ix I ` {a..<m}"
    show "is_pos old p" using D(8) left p by blast
    show "p + h \<le> int (length old)" using D(9) [OF left [OF p]] by (simp add: is_pos_def)
    show "m - 1 \<le> ix V p" using D(12) [OF left [OF p]] m(2) by simp
    show "ix V q = ix V p" if "q \<in> ix I ` {a..<m}" for q
      using D(13) [OF left [OF that] left [OF p]] .
    show "(ix V q < a \<and> suf old q < suf old p) \<or> (m \<le> ix V q \<and> suf old p < suf old q)"
      if "is_pos old q" "q \<notin> ix I ` {a..<m}" for q using other [OF p that] .
  next
    show "m \<le> int (length old) + 1" using D(1,6) m(2) by simp
    show "ix V q < a \<or> m \<le> ix V q" if "is_pos old q" "q \<notin> ix I ` {a..<m}" for q using rank [OF that] .
  qed (use D(1-4) m(1) inj in simp_all)
qed

lemma split_doneD:
  assumes "split_done old h a e I V I' V'"
  shows "length I' = length I" "ranks_ok old h V'"
    "0 \<le> t \<Longrightarrow> \<not> (a \<le> t \<and> t < e) \<Longrightarrow> ix I' t = ix I t"
    "is_pos old q \<Longrightarrow> q \<notin> ix I ` {a..<e} \<Longrightarrow> ix V' q = ix V q"
    "q \<in> ix I ` {a..<e} \<Longrightarrow> a \<le> ix V' q" "q \<in> ix I ` {a..<e} \<Longrightarrow> ix V' q < e"
    "segments old (h + h) I' V' a e"
  using assms unfolding split_done_def by auto

lemma kept_range:
  assumes "split_done old h a m I V I' V'" "0 \<le> a" "a \<le> m"
  shows "ix I' ` {m..<e} = ix I ` {m..<e}" "inj_on (ix I') {m..<e} = inj_on (ix I) {m..<e}"
proof -
  have "ix I' t = ix I t" if "t \<in> {m..<e}" for t
    using split_doneD(3) [OF assms(1), of t] that assms(2,3) by simp
  then show "ix I' ` {m..<e} = ix I ` {m..<e}" "inj_on (ix I') {m..<e} = inj_on (ix I) {m..<e}"
    by (fact image_cong [OF refl], fact inj_on_cong)
qed

lemma split_pre_right:
  assumes pre: "split_pre old h I V a e" and m: "a \<le> m" "m \<le> e"
    and left: "split_done old h a m I V I' V'"
    and less: "\<And>p q. p \<in> ix I ` {a..<m} \<Longrightarrow> q \<in> ix I ` {m..<e} \<Longrightarrow> suf old p < suf old q"
  shows "split_pre old h I' V' m e"
proof -
  note D = split_preD [OF pre]
  note L = split_doneD [OF left]
  note parts = range_parts [OF m, of "ix I"]
  note kept = kept_range [OF left D(4) m(1), of e]
  have sub: "p \<in> ix I ` {a..<e}" "p \<notin> ix I ` {a..<m}" if "p \<in> ix I ` {m..<e}" for p
    using that parts(1) parts(2) [OF D(7)] by blast+
  have same: "ix V' p = ix V p" if "p \<in> ix I ` {m..<e}" for p
    using L(4) [OF D(8)] sub [OF that] by blast
  have rank: "ix V' q < m \<or> e \<le> ix V' q" if "is_pos old q" "q \<notin> ix I ` {m..<e}" for q
  proof (cases "q \<in> ix I ` {a..<m}")
    case True
    then show ?thesis using L(6) by simp
  next
    case False
    with that parts(1) have "q \<notin> ix I ` {a..<e}" by blast
    with L(4) [OF that(1) False] D(15) [OF that(1)] m show ?thesis by auto
  qed
  have other: "(ix V' q < m \<and> suf old q < suf old p) \<or> (e \<le> ix V' q \<and> suf old p < suf old q)"
    if p: "p \<in> ix I ` {m..<e}" and q: "is_pos old q" "q \<notin> ix I ` {m..<e}" for p q
  proof (cases "q \<in> ix I ` {a..<m}")
    case True
    then show ?thesis using L(6) less p by simp
  next
    case False
    with q parts(1) have "q \<notin> ix I ` {a..<e}" by blast
    with L(4) [OF q(1) False] D(14) [OF sub(1) [OF p] q(1)] m show ?thesis by auto
  qed
  show ?thesis unfolding split_pre_def kept
  proof (intro conjI ballI allI impI; (elim conjE)?)
    fix p assume p: "p \<in> ix I ` {m..<e}"
    show "is_pos old p" using D(8) sub p by blast
    show "p + h \<le> int (length old)" using D(9) [OF sub(1) [OF p]] by (simp add: is_pos_def)
    show "e - 1 \<le> ix V' p" using D(12) [OF sub(1) [OF p]] same [OF p] by simp
    show "ix V' q = ix V' p" if "q \<in> ix I ` {m..<e}" for q
      using D(13) [OF sub(1) [OF that] sub(1) [OF p]] same [OF that] same [OF p] by simp
    show "(ix V' q < m \<and> suf old q < suf old p) \<or> (e \<le> ix V' q \<and> suf old p < suf old q)"
      if "is_pos old q" "q \<notin> ix I ` {m..<e}" for q using other [OF p that] .
  next
    show "e \<le> int (length old) + 1" using D(1,6) by simp
    show "length I' = length old + 1" using D(1) L(1) by simp
    show "inj_on (ix I) {m..<e}" using parts(4) D(7) by blast
    show "ix V' q < m \<or> e \<le> ix V' q" if "is_pos old q" "q \<notin> ix I ` {m..<e}" for q
      using rank [OF that] .
  qed (use D(3,4) L(2) m in simp_all)
qed

lemma split_done_append:
  assumes pre: "split_pre old h I V a e" and m: "a \<le> m" "m \<le> e"
    and left: "split_done old h a m I V I1 V1" and pre1: "split_pre old h I1 V1 m e"
    and right: "split_done old h m e I1 V1 I2 V2"
  shows "split_done old h a e I V I2 V2"
proof -
  note D = split_preD [OF pre]
  note D1 = split_preD [OF pre1]
  note L = split_doneD [OF left]
  note R = split_doneD [OF right]
  note parts = range_parts [OF m, of "ix I"]
  note kept = kept_range(1) [OF left D(4) m(1), of e]
  have mem: "members old V2 j = members old V1 j" if "a \<le> j" "j < m" for j
  proof -
    have "ix V2 q = j \<longleftrightarrow> ix V1 q = j" if "is_pos old q" for q
    proof (cases "q \<in> ix I1 ` {m..<e}")
      case True
      then have "m < e" by auto
      with R(5) [OF True] D1(12) [OF True] \<open>j < m\<close> show ?thesis by auto
    next
      case False
      then show ?thesis using R(4) [OF that] by simp
    qed
    then show ?thesis by (auto simp: members_def)
  qed
  have "segments old (h + h) I2 V2 a m"
    using R(3) D(4) by (intro segments_frame [OF L(7)] mem) auto
  then have seg: "segments old (h + h) I2 V2 a e" using R(7) segments_append by blast
  have ranks: "a \<le> ix V2 q \<and> ix V2 q < e" if "q \<in> ix I ` {a..<e}" for q
  proof (cases "q \<in> ix I ` {m..<e}")
    case True
    with R(5,6) [of q] kept m(1) show ?thesis by auto
  next
    case False
    with that parts(1) have "q \<in> ix I ` {a..<m}" by blast
    moreover have "ix V2 q = ix V1 q" using R(4) [OF D(8) [OF that]] False kept by blast
    ultimately show ?thesis using L(5,6) [of q] m(2) by simp
  qed
  show ?thesis unfolding split_done_def
  proof (intro conjI allI ballI impI; (elim conjE)?)
    show "length I2 = length I" using L(1) R(1) by simp
    show "ix I2 t = ix I t" if "0 \<le> t" "\<not> (a \<le> t \<and> t < e)" for t
      using that L(3) R(3) m by (metis linorder_not_le order.trans)
    show "ix V2 q = ix V q" if "is_pos old q" "q \<notin> ix I ` {a..<e}" for q
      using R(4) L(4) that parts(1) kept by (metis UnCI)
  qed (use R(2) ranks seg in auto)
qed

text \<open>The first entries of a range become a group of their own.\<close>

lemma split_chop:
  assumes pre: "split_pre old h I V a e" and m: "a < m" "m \<le> e"
    and like: "\<And>p q. p \<in> ix I ` {a..<m} \<Longrightarrow> q \<in> ix I ` {a..<m} \<Longrightarrow> alike old (h + h) p q"
    and less: "\<And>p q. p \<in> ix I ` {a..<m} \<Longrightarrow> q \<in> ix I ` {m..<e} \<Longrightarrow> suf old p < suf old q"
    and V': "length V' = length V" "\<And>q. 0 \<le> q \<Longrightarrow> ix V' q = (if q \<in> ix I ` {a..<m} then m - 1 else ix V q)"
    and I': "I' = (if m = a + 1 then I[nat a := - 1] else I)"
  shows "split_done old h a m I V I' V'"
proof -
  note D = split_preD [OF pre]
  note parts = range_parts [OF order.strict_implies_order [OF m(1)] m(2), of "ix I"]
  let ?L = "ix I ` {a..<m}"
  have left: "p \<in> ix I ` {a..<e}" if "p \<in> ?L" for p using that parts(1) by blast
  have pos: "0 \<le> q" if "is_pos old q" for q using that by (simp add: is_pos_def)
  have V'_pos: "ix V' q = (if q \<in> ?L then m - 1 else ix V q)" if "is_pos old q" for q
    using V'(2) [OF pos [OF that]] .
  have away: "ix V q < a \<or> m \<le> ix V q" if "is_pos old q" "q \<notin> ?L" for q
  proof (cases "q \<in> ix I ` {a..<e}")
    case True
    with that parts(1) have "q \<in> ix I ` {m..<e}" by blast
    then have "m < e" by auto
    with D(12) [OF True] show ?thesis by simp
  next
    case False
    with D(15) [OF that(1)] m show ?thesis by auto
  qed
  have order: "suf old p < suf old q" if "p \<in> ?L" "is_pos old q" "q \<notin> ?L" "m \<le> ix V q" for p q
  proof (cases "q \<in> ix I ` {a..<e}")
    case True
    with that parts(1) have "q \<in> ix I ` {m..<e}" by blast
    then show ?thesis using less that(1) by blast
  next
    case False
    with D(14) [OF left [OF that(1)] that(2)] that(4) m show ?thesis by auto
  qed
  have order': "suf old q < suf old p" if "p \<in> ?L" "is_pos old q" "ix V q < a" for p q
  proof -
    have "q \<notin> ix I ` {a..<e}" using D(12) [of q] that(3) m by force
    with D(14) [OF left [OF that(1)] that(2)] that(3) m show ?thesis by auto
  qed
  have ranks: "ranks_ok old h V'"
    unfolding ranks_ok_def
  proof (intro conjI allI impI; (elim conjE)?)
    show "length V' = length old + 1" using V'(1) D(2) by (simp add: ranks_ok_def)
    show "is_pos old (ix V' p)" if "is_pos old p" for p
      using V'_pos [OF that] ranks_okD(3) [OF D(2) that that] D(1,4,6) m by (auto simp: is_pos_def)
    fix p q assume pq: "is_pos old p" "is_pos old q"
    show "suf old p < suf old q" if "ix V' p < ix V' q"
    proof (cases "p \<in> ?L"; cases "q \<in> ?L")
      assume "p \<in> ?L" "q \<notin> ?L"
      with that away [OF pq(2)] show ?thesis by (intro order) (auto simp: V'_pos [OF pq(1)] V'_pos [OF pq(2)] pq)
    next
      assume "p \<notin> ?L" "q \<in> ?L"
      with that away [OF pq(1)] show ?thesis
        by (intro order' [of q]) (auto simp: V'_pos [OF pq(1)] V'_pos [OF pq(2)] pq)
    next
      assume "p \<notin> ?L" "q \<notin> ?L"
      with that ranks_okD(1) [OF D(2) pq] show ?thesis by (simp add: V'_pos [OF pq(1)] V'_pos [OF pq(2)])
    qed (use that in \<open>simp add: V'_pos [OF pq(1)] V'_pos [OF pq(2)]\<close>)
    show "alike old h p q" if "ix V' p = ix V' q"
    proof (cases "p \<in> ?L \<longleftrightarrow> q \<in> ?L")
      case True
      show ?thesis
      proof (cases "p \<in> ?L")
        case inL: True
        with True like alike_half D(3) show ?thesis by simp
      next
        case False
        with True that ranks_okD(2) [OF D(2) pq] show ?thesis
          by (simp add: V'_pos [OF pq(1)] V'_pos [OF pq(2)])
      qed
    next
      case False
      with that away [OF pq(1)] away [OF pq(2)] m show ?thesis
        by (auto simp: V'_pos [OF pq(1)] V'_pos [OF pq(2)] split: if_splits)
    qed
  qed
  have is_pos_L: "is_pos old p" if "p \<in> ?L" for p using D(8) left that by blast
  have rank_iff: "ix V' q = j \<longleftrightarrow> j = m - 1 \<and> q \<in> ?L" if "is_pos old q" "a \<le> j" "j < m" for q j
    using V'_pos [OF that(1)] away [OF that(1)] that(2,3) by (cases "q \<in> ?L") auto
  have mem: "members old V' (m - 1) = ?L"
  proof (intro set_eqI iffI)
    fix q assume "q \<in> members old V' (m - 1)"
    with rank_iff [of q "m - 1"] m(1) show "q \<in> ?L" by (auto simp: members_def)
  next
    fix q assume "q \<in> ?L"
    with rank_iff [of q "m - 1"] m(1) is_pos_L show "q \<in> members old V' (m - 1)"
      by (simp add: members_def)
  qed
  have empty: "members old V' j = {}" if "a \<le> j" "j < m - 1" for j
    using rank_iff [of _ j] that by (auto simp: members_def)
  have seg: "segments old (h + h) I' V' a m"
  proof (cases "m = a + 1")
    case True
    have "inside I a" using D(4,6) m by (simp add: inside_def)
    then have "ix I' a = - 1" using I' True D(4) by (simp add: arr)
    moreover have "{a..<a + 1} = {a}" by auto
    then have "\<exists>p. members old V' a = {p}" using mem True by simp
    ultimately show ?thesis using True
      by (intro sorted_segment [of I' a 1]) (auto simp: sorted_from_def intro: done_segments)
  next
    case False
    have fits: "p + (h + h) \<le> int (length old)" if "p \<in> ?L" for p
    proof -
      have "ix I a \<noteq> ix I (a + 1)" using inj_onD [OF D(7), of a "a + 1"] False m by auto
      moreover have "ix I a \<in> ?L" "ix I (a + 1) \<in> ?L" using False m by auto
      ultimately obtain q where q: "q \<in> ?L" "p \<noteq> q" by metis
      have "0 \<le> h + h" using D(3) by simp
      with alike_inside [OF like [OF that q(1)] is_pos_L [OF that] is_pos_L [OF q(1)] q(2)]
      show ?thesis by blast
    qed
    have "group_at old (h + h) I V' a m"
      unfolding group_at_def mem
    proof (intro conjI allI ballI impI; (elim conjE)?)
      show "inj_on (ix I) {a..<m}" using parts(3) D(7) .
    qed (fact refl empty fits like)+
    with m I' False show ?thesis by (intro group_segment [of a m]) (auto intro: done_segments)
  qed
  show ?thesis unfolding split_done_def
  proof (intro conjI allI ballI impI; (elim conjE)?)
    show "length I' = length I" using I' by simp
    show "ix I' t = ix I t" if "0 \<le> t" "\<not> (a \<le> t \<and> t < m)" for t
      using that I' D(4,6) m by (auto simp: arr inside_def)
    show "ix V' q = ix V q" if "is_pos old q" "q \<notin> ?L" for q using V'_pos that by simp
    show "a \<le> ix V' q" "ix V' q < m" if "q \<in> ?L" for q
      using V'_pos is_pos_L that m by auto
  qed (use ranks seg in auto)
qed

lemma split_done_refl: "split_pre old h I V a a \<Longrightarrow> split_done old h a a I V I V"
  using split_preD(2) by (simp add: split_done_def done_segments)

lemma assign_range:
  assumes "split_pre old h I V a e" "a \<le> m" "m \<le> e"
  obtains V' where "assign_group I V g a (nat (m - a)) = Some V'" "length V' = length V"
    "\<And>q. 0 \<le> q \<Longrightarrow> ix V' q = (if q \<in> ix I ` {a..<m} then g else ix V q)"
proof -
  note D = split_preD [OF assms(1)]
  have "inside I t \<and> inside V (ix I t)" if "a \<le> t" "t < a + int (nat (m - a))" for t
  proof -
    have "t < e" using that assms(2,3) by simp
    with D(10) [of "ix I t"] D(4,6) that show ?thesis by (simp add: inside_def)
  qed
  from assign_group_spec [of a "nat (m - a)" I V g, OF this] assms(2) that show ?thesis by auto
qed

lemma split_short_spec:
  assumes "split_pre old h I V a e"
  shows "\<exists>I' V'. split_short I V h e a = Some (I', V') \<and> split_done old h a e I V I' V'"
  using assms
proof (induction "nat (e - a)" arbitrary: I V a rule: less_induct)
  case less
  note D = split_preD [OF less.prems]
  show ?case
  proof (cases "a < e")
    case False
    with D(5) have "a = e" by simp
    with less.prems show ?thesis by (subst split_short.simps) (auto intro: split_done_refl)
  next
    case True
    have here: "inside I a" "inside V (ix I a + h)" using True D(4,6) D(11) by (auto simp: inside_def)
    have "\<exists>I1 j x. gather I V h e a 1 1 (ix V (ix I a + h)) = Some (I1, j) \<and> rearranged I I1 a e
      \<and> 1 \<le> j \<and> a + j \<le> e \<and> (\<forall>t. a \<le> t \<and> t < a + j \<longrightarrow> ix V (ix I1 t + h) = x)
      \<and> (\<forall>t. a + j \<le> t \<and> t < e \<longrightarrow> x < ix V (ix I1 t + h))"
    proof (rule gather_spec)
      show "ix V (ix I t + h) = ix V (ix I a + h)" if "a \<le> t" "t < a + 1" for t
        using that by (cases "t = a") auto
    qed (use True D(4,6) D(11) in auto)
    then obtain I1 j x where g: "gather I V h e a 1 1 (ix V (ix I a + h)) = Some (I1, j)"
      "rearranged I I1 a e" "1 \<le> j" "a + j \<le> e"
      "\<And>t. a \<le> t \<Longrightarrow> t < a + j \<Longrightarrow> ix V (ix I1 t + h) = x"
      "\<And>t. a + j \<le> t \<Longrightarrow> t < e \<Longrightarrow> x < ix V (ix I1 t + h)" by blast
    note pre1 = split_pre_rearranged [OF less.prems g(2)]
    let ?m = "a + j"
    have m: "a < ?m" "?m \<le> e" "a \<le> ?m" using g(3,4) by auto
    note parts = range_parts(1) [OF m(3,2), of "ix I1"]
    have like: "alike old (h + h) p q" if "p \<in> ix I1 ` {a..<?m}" "q \<in> ix I1 ` {a..<?m}" for p q
      using split_pre_keys(2) [OF pre1, of p q] that parts g(5) by auto
    have less': "suf old p < suf old q" if "p \<in> ix I1 ` {a..<?m}" "q \<in> ix I1 ` {?m..<e}" for p q
      using split_pre_keys(1) [OF pre1, of p q] that parts g(5,6) by auto
    obtain V1 where V1: "assign_group I1 V (?m - 1) a (nat (?m - a)) = Some V1" "length V1 = length V"
      "\<And>q. 0 \<le> q \<Longrightarrow> ix V1 q = (if q \<in> ix I1 ` {a..<?m} then ?m - 1 else ix V q)"
      by (rule assign_range [OF pre1 m(3,2)]) (rule that)
    define I2 where "I2 = (if ?m = a + 1 then I1[nat a := - 1] else I1)"
    have done1: "split_done old h a ?m I1 V I2 V1"
      by (rule split_chop [OF pre1 m(1,2) like less' V1(2,3) I2_def])
    have pre2: "split_pre old h I2 V1 ?m e"
      by (rule split_pre_right [OF pre1 m(3,2) done1 less'])
    from less.hyps [OF _ pre2] m obtain I3 V3 where
      rest: "split_short I2 V1 h e ?m = Some (I3, V3)" "split_done old h ?m e I2 V1 I3 V3" by auto
    have "inside I1 a" using split_preD(4,6) [OF pre1] True by (simp add: inside_def)
    then have "(if j = 1 then seti I1 a (- 1) else Some I1) = Some I2" by (simp add: I2_def arr)
    with True g(1) V1(1) rest(1) have "split_short I V h e a = Some (I3, V3)"
      by (subst split_short.simps) (simp add: key_at_ix here)
    moreover have "split_done old h a e I V I3 V3"
      by (rule split_done_rearranged [OF g(2) split_done_append [OF pre1 m(3,2) done1 pre2 rest(2)]])
    ultimately show ?thesis by blast
  qed
qed

lemma split_spec:
  assumes "split_pre old h I V a (a + l)"
  shows "\<exists>I' V'. split I V a l h = Some (I', V') \<and> split_done old h a (a + l) I V I' V'"
  using assms
proof (induction "nat l" arbitrary: I V a l rule: less_induct)
  case less
  show ?case
  proof (cases "l < 16")
    case True
    then show ?thesis using split_short_spec [OF less.prems] by (subst split.simps) simp
  next
    case False
    let ?e = "a + l"
    note D = split_preD [OF less.prems]
    define x where "x = ix V (ix I (a + l div 2) + h)"
    let ?R = "ix I ` {a..<?e}"
    define jj where "jj = a + int (card {p \<in> ?R. ix V (p + h) < x})"
    define kk where "kk = jj + int (card {p \<in> ?R. ix V (p + h) = x})"
    have ok: "part_ok V h x a ?e jj kk I"
      using D(4-7) D(11) by (auto simp: part_ok_def jj_def kk_def)
    note ends = part_ok_end [OF ok]
    have half: "a \<le> a + l div 2" "a + l div 2 < ?e" using False by auto
    then have pivot: "key_at I V h (a + l div 2) = Some x"
      using D(4,6,11) by (auto simp: x_def inside_def intro!: key_at_ix)
    have "ix I (a + l div 2) \<in> {p \<in> ?R. ix V (p + h) = x}" using half by (simp add: x_def)
    then have "0 < card {p \<in> ?R. ix V (p + h) = x}" by (auto simp: card_gt_0_iff)
    then have "jj < kk" by (simp add: kk_def)
    have "card {t \<in> {a..<?e}. P (ix I t)} = card {p \<in> ?R. P p}" for P
    proof -
      have "{p \<in> ?R. P p} = ix I ` {t \<in> {a..<?e}. P (ix I t)}" by auto
      moreover have "inj_on (ix I) {t \<in> {a..<?e}. P (ix I t)}"
        using D(7) by (rule inj_on_subset) auto
      ultimately show ?thesis by (simp add: card_image)
    qed
    from this [of "\<lambda>p. ix V (p + h) < x"] this [of "\<lambda>p. ix V (p + h) = x"]
    have count: "count_keys I V h x a (nat l) 0 0 = Some (jj - a, kk - jj)"
      using count_keys_spec [of a "nat l" I V h x 0 0] D(4,6,11) False
      by (simp add: inside_def jj_def kk_def)
    have "zones V h x I a a jj 0 kk 0" by (simp add: zones_def)
    from part_less_spec [OF ok this] ends obtain I1 j k where
      p1: "part_less I V h x jj kk a 0 0 = Some (I1, j, k)" "rearranged I I1 a ?e"
      "zones V h x I1 a jj jj j kk k" "0 \<le> j" "jj + j \<le> kk" "0 \<le> k" "kk + k \<le> ?e" by auto
    from part_equal_spec [OF part_ok_rearranged [OF ok p1(2)] p1(3-)] obtain I2 where
      p2: "part_equal I1 V h x jj kk j k = Some I2" "rearranged I1 I2 a ?e"
      "zones V h x I2 a jj jj (kk - jj) kk (?e - kk)" by auto
    note re = rearranged_trans [OF p1(2) p2(2)]
    note pre2 = split_pre_rearranged [OF less.prems re]
    have z: "p \<in> ix I2 ` {a..<jj} \<Longrightarrow> ix V (p + h) < x" "p \<in> ix I2 ` {jj..<kk} \<Longrightarrow> ix V (p + h) = x"
      "p \<in> ix I2 ` {kk..<?e} \<Longrightarrow> x < ix V (p + h)" for p
      using p2(3) by (auto simp: zones_def)
    have bounds: "a \<le> jj" "jj < ?e" "jj \<le> ?e" "jj < kk" "jj \<le> kk" "kk \<le> ?e"
      using ends \<open>jj < kk\<close> by auto
    have sub: "p \<in> ix I2 ` {a..<?e}"
      if "p \<in> ix I2 ` {a..<jj} \<or> p \<in> ix I2 ` {jj..<kk} \<or> p \<in> ix I2 ` {kk..<?e}" for p
      using that bounds by auto
    have parts: "ix I2 ` {jj..<?e} = ix I2 ` {jj..<kk} \<union> ix I2 ` {kk..<?e}"
      using range_parts(1) [OF bounds(5,6)] .
    have less1: "suf old p < suf old q" if "p \<in> ix I2 ` {a..<jj}" "q \<in> ix I2 ` {jj..<?e}" for p q
    proof (rule split_pre_keys(1) [OF pre2])
      show "p \<in> ix I2 ` {a..<?e}" "q \<in> ix I2 ` {a..<?e}" using that sub parts by blast+
      show "ix V (p + h) < ix V (q + h)" using that z [of p] z [of q] parts by force
    qed
    have less2: "suf old p < suf old q" if "p \<in> ix I2 ` {jj..<kk}" "q \<in> ix I2 ` {kk..<?e}" for p q
    proof (rule split_pre_keys(1) [OF pre2])
      show "p \<in> ix I2 ` {a..<?e}" "q \<in> ix I2 ` {a..<?e}" using that sub by blast+
      show "ix V (p + h) < ix V (q + h)" using that z(2) [of p] z(3) [of q] by simp
    qed
    have like: "alike old (h + h) p q" if "p \<in> ix I2 ` {jj..<kk}" "q \<in> ix I2 ` {jj..<kk}" for p q
    proof (rule split_pre_keys(2) [OF pre2])
      show "p \<in> ix I2 ` {a..<?e}" "q \<in> ix I2 ` {a..<?e}" using that sub by blast+
      show "ix V (p + h) = ix V (q + h)" using that z(2) [of p] z(2) [of q] by simp
    qed
    have "\<exists>I3 V3. (if jj > a then split I2 V a (jj - a) h else Some (I2, V)) = Some (I3, V3)
      \<and> split_done old h a jj I2 V I3 V3"
    proof (cases "jj > a")
      case True
      have "split_pre old h I2 V a (a + (jj - a))"
        using split_pre_left [OF pre2 bounds(1,2) less1] by simp
      from less.hyps [OF _ this] bounds True False show ?thesis by auto
    next
      case False
      with bounds have "jj = a" by simp
      with split_pre_left [OF pre2 bounds(1,2) less1] show ?thesis by (auto intro: split_done_refl)
    qed
    then obtain I3 V3 where s3: "(if jj > a then split I2 V a (jj - a) h else Some (I2, V)) = Some (I3, V3)"
      "split_done old h a jj I2 V I3 V3" by blast
    have pre3: "split_pre old h I3 V3 jj ?e" by (rule split_pre_right [OF pre2 bounds(1,3) s3(2) less1])
    note kept = kept_range(1) [OF s3(2) D(4) bounds(1)]
    have kept': "ix I3 ` {kk..<?e} = ix I2 ` {kk..<?e}"
      using split_doneD(3) [OF s3(2)] D(4) bounds by (intro image_cong refl) auto
    obtain V4 where V4: "assign_group I3 V3 (kk - 1) jj (nat (kk - jj)) = Some V4" "length V4 = length V3"
      "\<And>q. 0 \<le> q \<Longrightarrow> ix V4 q = (if q \<in> ix I3 ` {jj..<kk} then kk - 1 else ix V3 q)"
      by (rule assign_range [OF pre3 bounds(5,6)]) (rule that)
    define I4 where "I4 = (if kk = jj + 1 then I3[nat jj := - 1] else I3)"
    have done4: "split_done old h jj kk I3 V3 I4 V4"
      by (rule split_chop [OF pre3 bounds(4,6) _ _ V4(2,3) I4_def])
        (use like less2 kept kept' in \<open>simp_all\<close>)
    have pre4: "split_pre old h I4 V4 kk ?e"
      by (rule split_pre_right [OF pre3 bounds(5,6) done4]) (use less2 kept kept' in simp)
    have "inside I3 jj" using split_preD(4,6) [OF pre3] bounds by (simp add: inside_def)
    then have I4: "(if jj = kk - 1 then seti I3 jj (- 1) else Some I3) = Some I4"
      by (auto simp: I4_def arr)
    have "\<exists>I5 V5. (if ?e > kk then split I4 V4 kk (?e - kk) h else Some (I4, V4)) = Some (I5, V5)
      \<and> split_done old h kk ?e I4 V4 I5 V5"
    proof (cases "?e > kk")
      case True
      have "split_pre old h I4 V4 kk (kk + (?e - kk))" using pre4 by simp
      from less.hyps [OF _ this] bounds True False show ?thesis by auto
    next
      case False
      with bounds have "kk = ?e" by simp
      with pre4 show ?thesis by (auto intro: split_done_refl)
    qed
    then obtain I5 V5 where s5: "(if ?e > kk then split I4 V4 kk (?e - kk) h else Some (I4, V4)) = Some (I5, V5)"
      "split_done old h kk ?e I4 V4 I5 V5" by blast
    have "split I V a l h = Some (I5, V5)"
      by (subst split.simps) (simp only: False pivot count p1(1) p2(1) s3(1) V4(1) I4 s5(1) Let_def
          Option.bind.simps prod.case if_False diff_add_cancel)
    moreover have "split_done old h a ?e I V I5 V5"
      by (rule split_done_rearranged [OF re split_done_append [OF pre2 bounds(1,3) s3(2) pre3
          split_done_append [OF pre3 bounds(5,6) done4 pre4 s5(2)]]])
    ultimately show ?thesis by blast
  qed
qed

end
