(* ===== verification/FirstSort.thy ===== *)
theory FirstSort
  imports SufSplit
begin

text \<open>
  The first part of \<open>qsufsort\<close> in \<open>applypatch/bsdiff.c\<close>: a counting sort of the positions by their
  byte.  The group of byte \<open>c\<close> ends at the number of bytes up to \<open>c\<close>.
\<close>

definition cnt :: "byte list \<Rightarrow> int \<Rightarrow> int" where
  "cnt bs c = int (length (filter (\<lambda>b. uint b = c) bs))"

definition upto_byte :: "byte list \<Rightarrow> int \<Rightarrow> int" where
  "upto_byte bs c = int (length (filter (\<lambda>b. uint b \<le> c) bs))"

lemma cnt_simps [simp]:
  "cnt [] c = 0" "cnt (b # bs) c = cnt bs c + (if uint b = c then 1 else 0)"
  by (simp_all add: cnt_def)

lemma cnt_nonneg: "0 \<le> cnt bs c"
  by (simp add: cnt_def)

lemma upto_byte_step: "upto_byte bs c = upto_byte bs (c - 1) + cnt bs c"
  by (induction bs) (auto simp: upto_byte_def cnt_def)

lemma byte_range: "0 \<le> uint (b :: byte)" "uint b \<le> 255"
  using uint_lt2p [of b] by auto

lemma upto_byte_ends: "upto_byte bs (- 1) = 0" "upto_byte bs 255 = int (length bs)" "0 \<le> upto_byte bs c"
  "upto_byte bs c \<le> int (length bs)"
proof -
  have "\<not> uint (b :: byte) \<le> - 1" for b using byte_range(1) [of b] by linarith
  then show "upto_byte bs (- 1) = 0" by (simp add: upto_byte_def)
  show "upto_byte bs 255 = int (length bs)" by (simp add: upto_byte_def byte_range)
qed (simp_all add: upto_byte_def)

lemma upto_byte_mono: "c \<le> d \<Longrightarrow> upto_byte bs c \<le> upto_byte bs d"
  by (induction bs) (auto simp: upto_byte_def)

lemma upto_byte_less:
  assumes "b \<in> set bs" "c < uint b"
  shows "upto_byte bs c < upto_byte bs (uint b)"
proof -
  have "0 < cnt bs (uint b)"
    using assms(1) by (auto simp: cnt_def filter_empty_conv)
  then show ?thesis
    using upto_byte_step [of bs "uint b"] upto_byte_mono [of c "uint b - 1" bs] assms(2) by simp
qed

section \<open>The loops\<close>

lemma inside_byte: "length B = 256 \<Longrightarrow> inside B (uint (b :: byte))"
  using byte_range [of b] by (simp add: inside_def)

lemma count_bytes_spec:
  assumes "length B = 256"
  shows "\<exists>B'. count_bytes bs B = Some B' \<and> length B' = 256 \<and> (\<forall>c \<ge> 0. ix B' c = ix B c + cnt bs c)"
  using assms
proof (induction bs arbitrary: B)
  case (Cons b bs)
  note b = inside_byte [OF Cons.prems, of b]
  have "\<exists>B'. count_bytes bs (B[nat (uint b) := ix B (uint b) + 1]) = Some B' \<and> length B' = 256
    \<and> (\<forall>c \<ge> 0. ix B' c = ix (B[nat (uint b) := ix B (uint b) + 1]) c + cnt bs c)"
    by (rule Cons.IH) (simp add: Cons.prems)
  then obtain B' where B': "count_bytes bs (B[nat (uint b) := ix B (uint b) + 1]) = Some B'"
    "length B' = 256" "\<And>c. 0 \<le> c \<Longrightarrow> ix B' c = ix (B[nat (uint b) := ix B (uint b) + 1]) c + cnt bs c"
    by blast
  have "count_bytes (b # bs) B = Some B'"
    using B'(1) b by (simp only: count_bytes.simps geti_ix seti_ix Option.bind.simps)
  moreover have "ix B' c = ix B c + cnt (b # bs) c" if "0 \<le> c" for c
    using B'(3) [OF that] ix_upd [OF b that] by auto
  ultimately show ?case using B'(2) by blast
qed simp

lemma sum_buckets_spec:
  assumes "length B = 256" "1 \<le> i" "i + int n \<le> 256"
    and "\<And>c. 0 \<le> c \<Longrightarrow> c < i \<Longrightarrow> ix B c = upto_byte bs c"
    and "\<And>c. i \<le> c \<Longrightarrow> c < 256 \<Longrightarrow> ix B c = cnt bs c"
  shows "\<exists>B'. sum_buckets B i n = Some B' \<and> length B' = 256
    \<and> (\<forall>c. 0 \<le> c \<and> c < i + int n \<longrightarrow> ix B' c = upto_byte bs c)"
  using assms
proof (induction n arbitrary: B i)
  case 0
  then show ?case by simp
next
  case (Suc n)
  have i: "inside B i" "inside B (i - 1)" using Suc.prems(1-3) by (simp_all add: inside_def)
  let ?B = "B[nat i := ix B i + ix B (i - 1)]"
  have "ix B i + ix B (i - 1) = upto_byte bs i"
    using Suc.prems(2,3) Suc.prems(4) [of "i - 1"] Suc.prems(5) [of i] upto_byte_step [of bs i] by simp
  with i have B: "0 \<le> c \<Longrightarrow> ix ?B c = (if c = i then upto_byte bs i else ix B c)" for c
    by (simp add: arr)
  have "\<exists>B'. sum_buckets ?B (i + 1) n = Some B' \<and> length B' = 256
    \<and> (\<forall>c. 0 \<le> c \<and> c < i + 1 + int n \<longrightarrow> ix B' c = upto_byte bs c)"
  proof (rule Suc.IH)
    show "ix ?B c = upto_byte bs c" if "0 \<le> c" "c < i + 1" for c
      using that B [of c] Suc.prems(4) [of c] by (cases "c = i") auto
    show "ix ?B c = cnt bs c" if "i + 1 \<le> c" "c < 256" for c
      using that B [of c] Suc.prems(2) Suc.prems(5) [of c] by simp
  qed (use Suc.prems(1-3) in simp_all)
  then show ?case using i by (auto simp: geti_ix seti_ix algebra_simps)
qed

lemma shift_buckets_spec:
  assumes "n < length B"
  shows "\<exists>B'. shift_buckets B n = Some B' \<and> length B' = length B
    \<and> (\<forall>c \<ge> 0. ix B' c = (if 1 \<le> c \<and> c \<le> int n then ix B (c - 1) else ix B c))"
  using assms
proof (induction n arbitrary: B)
  case 0
  then show ?case by simp
next
  case (Suc n)
  have i: "inside B (int n)" "inside B (int (Suc n))" using Suc.prems by (auto simp: inside_def)
  let ?B = "B[nat (int (Suc n)) := ix B (int n)]"
  have "n < length ?B" using Suc.prems by simp
  from Suc.IH [OF this] obtain B' where B': "shift_buckets ?B n = Some B'" "length B' = length B"
    "\<And>c. 0 \<le> c \<Longrightarrow> ix B' c = (if 1 \<le> c \<and> c \<le> int n then ix ?B (c - 1) else ix ?B c)" by auto
  have "ix B' c = (if 1 \<le> c \<and> c \<le> int (Suc n) then ix B (c - 1) else ix B c)" if "0 \<le> c" for c
    using B'(3) [OF that] that ix_upd [OF i(2), of c] ix_upd [OF i(2), of "c - 1"] by auto
  moreover have "shift_buckets B (Suc n) = Some B'"
    using B'(1) i by (simp only: shift_buckets.simps geti_ix seti_ix Option.bind.simps)
  ultimately show ?case using B'(2) by blast
qed

text \<open>
  Byte \<open>c\<close> owns the positions \<open>B c + 1\<close> to \<open>B c + cnt bs c\<close>; each of its places in the file goes to
  one of them.
\<close>

lemma distribute_spec:
  assumes "length B = 256" "\<And>c. 0 \<le> c \<Longrightarrow> c < 256 \<Longrightarrow> 0 \<le> ix B c \<and> ix B c + cnt bs c < int (length I)"
    and "\<And>c d. 0 \<le> c \<Longrightarrow> c < d \<Longrightarrow> d < 256 \<Longrightarrow> ix B c + cnt bs c \<le> ix B d"
  shows "\<exists>B' I'. distribute bs i B I = Some (B', I') \<and> length B' = 256 \<and> length I' = length I
    \<and> (\<forall>c \<ge> 0. ix B' c = ix B c + cnt bs c)
    \<and> (\<forall>k < length bs. \<exists>t. ix B (uint (bs ! k)) < t \<and> t \<le> ix B (uint (bs ! k)) + cnt bs (uint (bs ! k))
         \<and> ix I' t = i + int k)
    \<and> (\<forall>t \<ge> 0. (\<forall>c. 0 \<le> c \<and> c < 256 \<longrightarrow> t \<le> ix B c \<or> ix B c + cnt bs c < t) \<longrightarrow> ix I' t = ix I t)"
  using assms
proof (induction bs arbitrary: B I i)
  case Nil
  then show ?case by simp
next
  case (Cons b bs)
  let ?u = "uint b"
  have u: "0 \<le> ?u" "?u < 256" using byte_range [of b] by auto
  note b = inside_byte [OF Cons.prems(1), of b]
  let ?B = "B[nat ?u := ix B ?u + 1]" and ?p = "ix B ?u + 1"
  let ?I = "I[nat ?p := i]"
  have B: "0 \<le> c \<Longrightarrow> ix ?B c = (if c = ?u then ?p else ix B c)" for c
    using ix_upd [OF b] by simp
  have p: "inside I ?p" using Cons.prems(2) [OF u] cnt_nonneg [of bs ?u]
    by (simp add: inside_def)
  have less: "0 \<le> ix ?B c \<and> ix ?B c + cnt bs c < int (length ?I)" if "0 \<le> c" "c < 256" for c
    using B [OF that(1)] Cons.prems(2) [OF that] by (cases "c = ?u") auto
  have apart: "ix ?B c + cnt bs c \<le> ix ?B d" if "0 \<le> c" "c < d" "d < 256" for c d
    using B [OF that(1)] B [of d] Cons.prems(3) [OF that] that
    by (cases "c = ?u"; cases "d = ?u") auto
  have "length ?B = 256" using Cons.prems(1) by simp
  from Cons.IH [OF this less apart, of "i + 1"] obtain B' I' where
    IH: "distribute bs (i + 1) ?B ?I = Some (B', I')" "length B' = 256" "length I' = length I"
    "\<And>c. 0 \<le> c \<Longrightarrow> ix B' c = ix ?B c + cnt bs c"
    "\<And>k. k < length bs \<Longrightarrow> \<exists>t. ix ?B (uint (bs ! k)) < t
       \<and> t \<le> ix ?B (uint (bs ! k)) + cnt bs (uint (bs ! k)) \<and> ix I' t = i + 1 + int k"
    "\<And>t. 0 \<le> t \<Longrightarrow> (\<forall>c. 0 \<le> c \<and> c < 256 \<longrightarrow> t \<le> ix ?B c \<or> ix ?B c + cnt bs c < t) \<Longrightarrow>
       ix I' t = ix ?I t" by auto
  have clear: "?p \<le> ix ?B c \<or> ix ?B c + cnt bs c < ?p" if "0 \<le> c" "c < 256" for c
    using B [OF that(1)] Cons.prems(3) [of c ?u] Cons.prems(3) [of ?u c] that u cnt_nonneg [of bs ?u]
    by (cases c ?u rule: linorder_cases) auto
  have "0 \<le> ?p" using p by (simp add: inside_def)
  with IH(6) [of ?p] clear have here: "ix I' ?p = i" using ix_upd [OF p, of ?p] by simp
  have slot: "\<exists>t. ix B (uint ((b # bs) ! k)) < t
      \<and> t \<le> ix B (uint ((b # bs) ! k)) + cnt (b # bs) (uint ((b # bs) ! k)) \<and> ix I' t = i + int k"
    if k: "k < length (b # bs)" for k
  proof (cases k)
    case 0
    with here show ?thesis by (intro exI [of _ ?p]) (simp add: cnt_nonneg)
  next
    case (Suc m)
    with k IH(5) [of m] obtain t where t: "ix ?B (uint (bs ! m)) < t"
      "t \<le> ix ?B (uint (bs ! m)) + cnt bs (uint (bs ! m))" "ix I' t = i + 1 + int m" by auto
    have "ix ?B (uint (bs ! m)) = (if uint (bs ! m) = ?u then ?p else ix B (uint (bs ! m)))"
      by (rule B) simp
    with t Suc show ?thesis by (intro exI [of _ t]) (auto split: if_splits)
  qed
  have frame: "ix I' t = ix I t" if "0 \<le> t"
    "\<forall>c. 0 \<le> c \<and> c < 256 \<longrightarrow> t \<le> ix B c \<or> ix B c + cnt (b # bs) c < t" for t
  proof -
    have "t \<le> ix ?B c \<or> ix ?B c + cnt bs c < t" if "0 \<le> c" "c < 256" for c
      using B [OF that(1)] \<open>\<forall>c. _\<close> [rule_format, OF conjI [OF that]] by (auto split: if_splits)
    moreover have "t \<noteq> ?p" using that(2) [rule_format, OF conjI [OF u]] cnt_nonneg [of bs ?u] by auto
    ultimately show ?thesis using IH(6) [OF that(1)] p that(1) by (simp add: ix_upd)
  qed
  have "\<forall>c \<ge> 0. ix B' c = ix B c + cnt (b # bs) c"
    using IH(4) B by auto
  moreover have "distribute (b # bs) i B I = Some (B', I')"
    using b p IH(1) by (simp only: distribute.simps geti_ix seti_ix Option.bind.simps)
  ultimately show ?case using IH(2,3) slot frame by blast
qed

lemma set_groups_spec:
  assumes "length B = 256" "0 \<le> i" "i + int (length bs) \<le> int (length V)"
  shows "\<exists>V'. set_groups bs i B V = Some V' \<and> length V' = length V
    \<and> (\<forall>t \<ge> 0. ix V' t = (if i \<le> t \<and> t < i + int (length bs) then ix B (uint (bs ! nat (t - i))) else ix V t))"
  using assms
proof (induction bs arbitrary: i V)
  case Nil
  then show ?case by simp
next
  case (Cons b bs)
  have i: "inside V i" using Cons.prems by (simp add: inside_def)
  let ?V = "V[nat i := ix B (uint b)]"
  have "0 \<le> i + 1" "i + 1 + int (length bs) \<le> int (length ?V)" using Cons.prems by simp_all
  from Cons.IH [OF Cons.prems(1) this] obtain V' where
    V': "set_groups bs (i + 1) B ?V = Some V'" "length V' = length V"
    "\<And>t. 0 \<le> t \<Longrightarrow> ix V' t = (if i + 1 \<le> t \<and> t < i + 1 + int (length bs)
       then ix B (uint (bs ! nat (t - (i + 1)))) else ix ?V t)" by auto
  have "ix V' t = (if i \<le> t \<and> t < i + int (length (b # bs)) then ix B (uint ((b # bs) ! nat (t - i)))
      else ix V t)" if "0 \<le> t" for t
  proof (cases "t = i")
    case True
    with V'(3) [OF that] ix_upd [OF i that] show ?thesis by simp
  next
    case False
    have "nat (t - i) = Suc (nat (t - (i + 1)))" if "i < t" using that by simp
    with V'(3) [OF that] False ix_upd [OF i that] show ?thesis by auto
  qed
  moreover have "set_groups (b # bs) i B V = Some V'"
    using V'(1) i inside_byte [OF Cons.prems(1), of b]
    by (simp only: set_groups.simps geti_ix seti_ix Option.bind.simps)
  ultimately show ?case using V'(2) by blast
qed

lemma mark_single_spec:
  assumes "length B = 256" "1 \<le> i" "i + int n \<le> 256"
    and "\<And>c. 0 \<le> c \<Longrightarrow> c < 256 \<Longrightarrow> inside I (ix B c)"
  shows "\<exists>I'. mark_single I B i n = Some I' \<and> length I' = length I
    \<and> (\<forall>t \<ge> 0. ix I' t = (if \<exists>c. i \<le> c \<and> c < i + int n \<and> ix B c = ix B (c - 1) + 1 \<and> ix B c = t
         then - 1 else ix I t))"
  using assms
proof (induction n arbitrary: I i)
  case 0
  have "\<not> (i \<le> c \<and> c < i + int 0)" for c by simp
  then show ?case by auto
next
  case (Suc n)
  have i: "inside B i" "inside B (i - 1)" "inside I (ix B i)"
    using Suc.prems by (simp_all add: inside_def)
  define J where "J = (if ix B i = ix B (i - 1) + 1 then I[nat (ix B i) := - 1] else I)"
  have J: "(if ix B i = ix B (i - 1) + 1 then seti I (ix B i) (- 1) else Some I) = Some J"
    "length J = length I"
    "\<And>t. 0 \<le> t \<Longrightarrow> ix J t = (if ix B i = ix B (i - 1) + 1 \<and> ix B i = t then - 1 else ix I t)"
    using i(3) by (auto simp: J_def arr)
  have "1 \<le> i + 1" "i + 1 + int n \<le> 256" using Suc.prems(2,3) by simp_all
  moreover have "inside J (ix B c)" if "0 \<le> c" "c < 256" for c
    using Suc.prems(4) [OF that] J(2) by (simp add: inside_def)
  ultimately obtain I' where I': "mark_single J B (i + 1) n = Some I'" "length I' = length I"
    "\<And>t. 0 \<le> t \<Longrightarrow> ix I' t = (if \<exists>c. i + 1 \<le> c \<and> c < i + 1 + int n \<and> ix B c = ix B (c - 1) + 1 \<and> ix B c = t
         then - 1 else ix J t)"
    using Suc.IH [OF Suc.prems(1), of "i + 1" J] J(2) by auto
  have "ix I' t = (if \<exists>c. i \<le> c \<and> c < i + int (Suc n) \<and> ix B c = ix B (c - 1) + 1 \<and> ix B c = t
         then - 1 else ix I t)" if "0 \<le> t" for t
  proof -
    have "(\<exists>c. i \<le> c \<and> c < i + int (Suc n) \<and> ix B c = ix B (c - 1) + 1 \<and> ix B c = t)
      \<longleftrightarrow> (ix B i = ix B (i - 1) + 1 \<and> ix B i = t)
        \<or> (\<exists>c. i + 1 \<le> c \<and> c < i + 1 + int n \<and> ix B c = ix B (c - 1) + 1 \<and> ix B c = t)"
      (is "?L \<longleftrightarrow> ?A \<or> ?R")
    proof
      assume ?L
      then obtain c where c: "i \<le> c" "c < i + int (Suc n)" "ix B c = ix B (c - 1) + 1" "ix B c = t" by blast
      show "?A \<or> ?R"
      proof (cases "c = i")
        case False
        with c show ?thesis by (intro disjI2 exI [of _ c]) auto
      qed (use c in simp)
    next
      assume "?A \<or> ?R"
      then show ?L
      proof
        assume ?R
        then obtain c where "i + 1 \<le> c" "c < i + 1 + int n" "ix B c = ix B (c - 1) + 1" "ix B c = t" by blast
        then show ?L by (intro exI [of _ c]) auto
      qed auto
    qed
    then show ?thesis unfolding I'(3) [OF that] J(3) [OF that] by (simp only: split: if_split) blast
  qed
  moreover have "mark_single I B i (Suc n) = Some I'"
    using i J(1) I'(1) by (simp add: geti_ix)
  ultimately show ?case using I'(2) by blast
qed

section \<open>The groups after the first sort\<close>

lemma place_range:
  assumes "p < length old"
  shows "uint (old ! p) < 256" "0 < cnt old (uint (old ! p))"
proof -
  show "uint (old ! p) < 256" using byte_range(2) [of "old ! p"] by simp
  show "0 < cnt old (uint (old ! p))" using assms by (auto simp: cnt_def filter_empty_conv)
qed

lemma cnt_card: "cnt old c = int (card {p. p < length old \<and> uint (old ! p) = c})"
  by (simp add: cnt_def length_filter_conv_card)

definition ranked_by_byte :: "byte list \<Rightarrow> int list \<Rightarrow> bool" where
  "ranked_by_byte old V \<longleftrightarrow> length V = length old + 1 \<and> ix V (int (length old)) = 0
     \<and> (\<forall>p < length old. ix V (int p) = upto_byte old (uint (old ! p)))"

lemma is_pos_cases:
  assumes "is_pos old p"
  obtains (place) k where "p = int k" "k < length old" | (behind) "p = int (length old)"
proof (cases "p = int (length old)")
  case False
  with assms have "p = int (nat p)" "nat p < length old" by (auto simp: is_pos_def)
  then show ?thesis by (rule place)
qed (rule behind)

lemma suf_less_first:
  assumes "p < length old" "q < length old" "old ! p < old ! q"
  shows "suf old (int p) < suf old (int q)"
  using assms by (simp add: suf_def flip: Cons_nth_drop_Suc)

lemma rank_first:
  assumes "p < length old" "q < length old"
  shows "upto_byte old (uint (old ! p)) < upto_byte old (uint (old ! q)) \<longleftrightarrow> old ! p < old ! q"
    "upto_byte old (uint (old ! p)) = upto_byte old (uint (old ! q)) \<longleftrightarrow> old ! p = old ! q"
proof -
  have less: "upto_byte old (uint a) < upto_byte old (uint b)" if "a < b" "b \<in> set old" for a b
    using upto_byte_less [OF that(2)] that(1) by (simp add: word_less_def)
  have mem: "old ! p \<in> set old" "old ! q \<in> set old" using assms by simp_all
  show "upto_byte old (uint (old ! p)) < upto_byte old (uint (old ! q)) \<longleftrightarrow> old ! p < old ! q"
    using less [OF _ mem(2), of "old ! p"] less [OF _ mem(1), of "old ! q"]
    by (cases "old ! p" "old ! q" rule: linorder_cases) auto
  show "upto_byte old (uint (old ! p)) = upto_byte old (uint (old ! q)) \<longleftrightarrow> old ! p = old ! q"
    using less [OF _ mem(2), of "old ! p"] less [OF _ mem(1), of "old ! q"]
    by (cases "old ! p" "old ! q" rule: linorder_cases) auto
qed

lemma ranked_by_byte_ranks:
  assumes "ranked_by_byte old V"
  shows "ranks_ok old 1 V"
  unfolding ranks_ok_def
proof (intro conjI allI impI; (elim conjE)?)
  have V: "ix V (int (length old)) = 0" "\<And>k. k < length old \<Longrightarrow> ix V (int k) = upto_byte old (uint (old ! k))"
    using assms by (auto simp: ranked_by_byte_def)
  have pos: "0 < upto_byte old (uint (old ! k))" if "k < length old" for k
    using upto_byte_less [of "old ! k" old "- 1"] that upto_byte_ends(1) [of old]
      byte_range(1) [of "old ! k"] by force
  show "length V = length old + 1" using assms by (simp add: ranked_by_byte_def)
  show "is_pos old (ix V p)" if "is_pos old p" for p
    using that by (cases rule: is_pos_cases) (simp_all add: V is_pos_def upto_byte_ends)
  fix p q assume p: "is_pos old p" and q: "is_pos old q"
  show "suf old p < suf old q" if "ix V p < ix V q"
    using p
  proof (cases rule: is_pos_cases)
    case (place k)
    from q show ?thesis
    proof (cases rule: is_pos_cases)
      case (place l)
      with that \<open>p = int k\<close> \<open>k < length old\<close> show ?thesis
        by (simp add: V rank_first suf_less_first)
    next
      case behind
      with that place show ?thesis using pos [of k] by (simp add: V)
    qed
  next
    case behind
    from q show ?thesis
    proof (cases rule: is_pos_cases)
      case (place l)
      then have "suf old q \<noteq> []" by (simp add: suf_def)
      with behind show ?thesis by (cases "suf old q") (simp_all add: suf_def)
    qed (use that behind in simp)
  qed
  show "alike old 1 p q" if "ix V p = ix V q"
    using p
  proof (cases rule: is_pos_cases)
    case (place k)
    from q show ?thesis
    proof (cases rule: is_pos_cases)
      case (place l)
      with that \<open>p = int k\<close> \<open>k < length old\<close> show ?thesis
        by (simp add: V rank_first alike_def suf_def take_Suc_conv_app_nth flip: Cons_nth_drop_Suc)
    next
      case behind
      with that place show ?thesis using pos [of k] by (simp add: V)
    qed
  next
    case behind
    from q show ?thesis
    proof (cases rule: is_pos_cases)
      case (place l)
      with that behind show ?thesis using pos [of l] by (simp add: V)
    qed (use behind in \<open>simp add: alike_def\<close>)
  qed
qed

lemma members_by_byte:
  assumes "ranked_by_byte old V" "0 \<le> c" "c < 256"
    and "upto_byte old (c - 1) < j" "j \<le> upto_byte old c"
  shows "members old V j = (if j = upto_byte old c then {int p |p. p < length old \<and> uint (old ! p) = c} else {})"
proof -
  have V: "ix V (int (length old)) = 0" "\<And>k. k < length old \<Longrightarrow> ix V (int k) = upto_byte old (uint (old ! k))"
    using assms(1) by (auto simp: ranked_by_byte_def)
  have "0 < j" using assms(4) upto_byte_ends(3) [of old "c - 1"] by simp
  have "upto_byte old (uint (old ! p)) = j \<longleftrightarrow> j = upto_byte old c \<and> uint (old ! p) = c"
    if "p < length old" for p
  proof (cases "uint (old ! p)" c rule: linorder_cases)
    case less
    then show ?thesis using upto_byte_mono [of "uint (old ! p)" "c - 1" old] assms(4) by simp
  next
    case greater
    then show ?thesis using upto_byte_less [of "old ! p" old c] that assms(5) by simp
  qed auto
  then have iff: "ix V (int p) = j \<longleftrightarrow> j = upto_byte old c \<and> uint (old ! p) = c" if "p < length old" for p
    using V(2) that by simp
  show ?thesis
  proof (rule set_eqI)
    fix p
    show "p \<in> members old V j
      \<longleftrightarrow> p \<in> (if j = upto_byte old c then {int p |p. p < length old \<and> uint (old ! p) = c} else {})"
    proof (cases "is_pos old p")
      case True
      then show ?thesis
        by (cases rule: is_pos_cases) (use iff V(1) \<open>0 < j\<close> in \<open>auto simp: members_def is_pos_def\<close>)
    qed (auto simp: members_def is_pos_def)
  qed
qed

text \<open>Where the distribution left the positions, and the marks set on it.\<close>

definition placed :: "byte list \<Rightarrow> int list \<Rightarrow> bool" where
  "placed old I \<longleftrightarrow> (\<forall>p < length old. \<exists>t. upto_byte old (uint (old ! p) - 1) < t
     \<and> t \<le> upto_byte old (uint (old ! p)) \<and> ix I t = int p)"

definition marked :: "byte list \<Rightarrow> int list \<Rightarrow> int list \<Rightarrow> bool" where
  "marked old I0 I \<longleftrightarrow> ix I 0 = - 1 \<and> (\<forall>t > 0. ix I t =
     (if \<exists>c. 1 \<le> c \<and> c < 256 \<and> upto_byte old c = upto_byte old (c - 1) + 1 \<and> upto_byte old c = t
      then - 1 else ix I0 t))"

lemma placed_range:
  assumes "placed old I"
  shows "ix I ` {upto_byte old (c - 1) + 1..<upto_byte old c + 1} = {int p |p. p < length old \<and> uint (old ! p) = c}"
    (is "ix I ` ?T = ?P") and "inj_on (ix I) {upto_byte old (c - 1) + 1..<upto_byte old c + 1}"
proof -
  have P: "?P = int ` {p. p < length old \<and> uint (old ! p) = c}" by auto
  have card: "int (card ?P) = cnt old c" "int (card ?T) = cnt old c"
    unfolding P using upto_byte_step [of old c] by (simp_all add: card_image cnt_card)
  have sub: "?P \<subseteq> ix I ` ?T"
  proof
    fix x assume "x \<in> ?P"
    then obtain p where p: "x = int p" "p < length old" "uint (old ! p) = c" by blast
    with assms obtain t where "upto_byte old (c - 1) < t" "t \<le> upto_byte old c" "ix I t = int p"
      by (auto simp: placed_def)
    with p show "x \<in> ix I ` ?T" by (intro image_eqI [of _ _ t]) auto
  qed
  have cards: "card ?T = card ?P" using card by linarith
  then have "card (ix I ` ?T) \<le> card ?P" using card_image_le [of ?T "ix I"] by simp
  with sub show eq: "ix I ` ?T = ?P" using card_seteq [of "ix I ` ?T" ?P] by simp
  show "inj_on (ix I) ?T"
  proof (rule eq_card_imp_inj_on)
    show "card (ix I ` ?T) = card ?T" unfolding eq cards ..
  qed simp
qed

lemma byte_segment:
  assumes "ranked_by_byte old V" "placed old I0" "marked old I0 I" "0 \<le> c" "c < 256"
  shows "segments old 1 I V (upto_byte old (c - 1) + 1) (upto_byte old c + 1)"
proof -
  let ?a = "upto_byte old (c - 1) + 1" and ?e = "upto_byte old c + 1"
  let ?P = "{int p |p. p < length old \<and> uint (old ! p) = c}"
  have e: "?e = ?a + cnt old c" using upto_byte_step [of old c] by simp
  have pos: "0 < ?a" using upto_byte_ends(3) [of old "c - 1"] by simp
  note mem = members_by_byte [OF assms(1,4,5)]
  consider (none) "cnt old c = 0" | (single) "cnt old c = 1" "1 \<le> c" | (group) "1 < cnt old c \<or> c = 0" "0 < cnt old c"
    using assms(4) cnt_nonneg [of old c] by linarith
  then show ?thesis
  proof cases
    case none
    with e show ?thesis by (simp add: done_segments)
  next
    case single
    have "ix I ?a = - 1"
      using assms(3,5) single e pos upto_byte_step [of old c] by (auto simp: marked_def)
    moreover have "\<exists>p. members old V ?a = {p}"
    proof -
      have "card ?P = 1"
        using placed_range(1) [OF assms(2), of c] placed_range(2) [OF assms(2), of c] e single(1)
          card_image [of "ix I0" "{?a..<?e}"] by simp
      then show ?thesis using mem [of ?a] e single(1) by (auto simp: card_1_singleton_iff)
    qed
    then have "sorted_from old V ?a (?a + 1)" by (auto simp: sorted_from_def order.order_iff_strict)
    moreover have "segments old 1 I V (?a + 1) ?e" using e single(1) by (simp add: done_segments)
    ultimately show ?thesis by (intro sorted_segment [of I ?a 1]) auto
  next
    case group
    have same: "ix I t = ix I0 t" if "?a \<le> t" "t < ?e" for t
    proof -
      have False if c': "1 \<le> c'" "c' < 256" "upto_byte old c' = upto_byte old (c' - 1) + 1" "upto_byte old c' = t" for c'
      proof (cases c' c rule: linorder_cases)
        case less
        then show False using upto_byte_mono [of c' "c - 1" old] c'(4) \<open>?a \<le> t\<close> by simp
      next
        case equal
        then show False using group c'(1,3) upto_byte_step [of old c] by simp
      next
        case greater
        then show False using upto_byte_mono [of c "c' - 1" old] c'(3,4) \<open>t < ?e\<close> by simp
      qed
      with assms(3) pos that(1) show ?thesis by (auto simp: marked_def)
    qed
    have "ix I ` {?a..<?e} = ix I0 ` {?a..<?e}" "inj_on (ix I) {?a..<?e} = inj_on (ix I0) {?a..<?e}"
      using same by (intro image_cong refl inj_on_cong; simp)+
    with placed_range [OF assms(2), of c]
    have "ix I ` {?a..<?e} = ?P" "inj_on (ix I) {?a..<?e}" by simp_all
    moreover have "members old V (?e - 1) = ?P" using mem [of "?e - 1"] e group(2) by simp
    moreover have "members old V j = {}" if "?a \<le> j" "j < ?e - 1" for j using mem [of j] that by simp
    moreover have "alike old 1 p q" if "p \<in> ?P" "q \<in> ?P" for p q
      using that by (auto simp: alike_def suf_def take_Suc_conv_app_nth word_uint_eq_iff simp flip: Cons_nth_drop_Suc)
    ultimately have grp: "group_at old 1 I V ?a ?e" by (auto simp: group_at_def)
    have "?a < ?e" using e group(2) by simp
    then show ?thesis by (rule group_segment [OF _ grp done_segments])
  qed
qed

lemma first_sort_state:
  assumes "ranked_by_byte old V" "placed old I0" "marked old I0 I" "length I = length old + 1"
  shows "segments old 1 I V 0 (int (length old) + 1)"
proof -
  have "segments old 1 I V 1 (upto_byte old (int n - 1) + 1)" if "n \<le> 256" for n
    using that
  proof (induction n)
    case 0
    then show ?case by (simp add: upto_byte_ends done_segments)
  next
    case (Suc n)
    with byte_segment [OF assms(1-3), of "int n"] show ?case by (auto intro: segments_append)
  qed
  from this [of 256] have "segments old 1 I V 1 (int (length old) + 1)" by (simp add: upto_byte_ends)
  moreover have zero: "\<exists>p. members old V 0 = {p}"
  proof -
    have "ix V (int k) \<noteq> 0" if "k < length old" for k
      using assms(1) that upto_byte_less [of "old ! k" old "- 1"] byte_range(1) [of "old ! k"]
        upto_byte_ends(1) [of old] by (auto simp: ranked_by_byte_def)
    then have "p = int (length old)" if "p \<in> members old V 0" for p
      using that is_pos_cases [of old p] by (auto simp: members_def)
    moreover have "int (length old) \<in> members old V 0"
      using assms(1) by (simp add: members_def ranked_by_byte_def is_pos_def)
    ultimately have "members old V 0 = {int (length old)}" by blast
    then show ?thesis by blast
  qed
  moreover have "ix I 0 = - 1" using assms(3) by (simp add: marked_def)
  moreover have "sorted_from old V 0 (0 + 1)" using zero by (auto simp: sorted_from_def order.order_iff_strict)
  ultimately show ?thesis by (intro sorted_segment [of I 0 1]) auto
qed

lemma first_sort_spec:
  assumes "length I = length old + 1" "length V = length old + 1"
  shows "\<exists>I' V'. first_sort old I V = Some (I', V') \<and> length I' = length old + 1
    \<and> ranked_by_byte old V' \<and> (\<exists>I0. placed old I0 \<and> marked old I0 I')"
proof -
  let ?n = "int (length old)"
  let ?Z = "replicate 256 0 :: int list"
  have zero: "ix ?Z c = 0" if "0 \<le> c" "c < 256" for c using that by (simp add: ix_def)
  from count_bytes_spec [of ?Z old] obtain B1 where B1: "count_bytes old ?Z = Some B1" "length B1 = 256"
    "\<And>c. 0 \<le> c \<Longrightarrow> ix B1 c = ix ?Z c + cnt old c" by auto
  have "ix B1 c = upto_byte old c" if "0 \<le> c" "c < 1" for c
    using that B1(3) [of c] zero [of c] upto_byte_step [of old 0] upto_byte_ends(1) [of old]
    by (cases "c = 0") auto
  moreover have "ix B1 c = cnt old c" if "1 \<le> c" "c < 256" for c using that B1(3) [of c] zero [of c] by simp
  ultimately obtain B2 where B2: "sum_buckets B1 1 255 = Some B2" "length B2 = 256"
    "\<And>c. 0 \<le> c \<Longrightarrow> c < 256 \<Longrightarrow> ix B2 c = upto_byte old c"
    using sum_buckets_spec [OF B1(2), of 1 255 old] by auto
  from shift_buckets_spec [of 255 B2] B2(2) obtain B3 where B3: "shift_buckets B2 255 = Some B3"
    "length B3 = 256" "\<And>c. 0 \<le> c \<Longrightarrow> ix B3 c = (if 1 \<le> c \<and> c \<le> 255 then ix B2 (c - 1) else ix B2 c)"
    by auto
  have in0: "inside B3 0" using B3(2) by (simp add: inside_def)
  define B4 where "B4 = B3[nat 0 := 0]"
  have B4: "seti B3 0 0 = Some B4" "length B4 = 256" using in0 B3(2) by (simp_all add: seti_ix B4_def)
  have B4v: "ix B4 c = upto_byte old (c - 1)" if "0 \<le> c" "c < 256" for c
    using ix_upd [OF in0 that(1), of 0] B3(3) [OF that(1)] B2(3) [of "c - 1"] that
      upto_byte_ends(1) [of old] by (auto simp: B4_def)
  have own: "0 \<le> ix B4 c \<and> ix B4 c + cnt old c < int (length I)" if "0 \<le> c" "c < 256" for c
    using B4v [OF that] upto_byte_step [of old c] upto_byte_ends(3,4) [of old "c - 1"]
      upto_byte_ends(4) [of old c] assms(1) by simp
  have apart: "ix B4 c + cnt old c \<le> ix B4 d" if "0 \<le> c" "c < d" "d < 256" for c d
    using B4v [of c] B4v [of d] that upto_byte_step [of old c] upto_byte_mono [of c "d - 1" old] by simp
  from distribute_spec [OF B4(2) own apart, of 0] obtain B5 I1 where
    D: "distribute old 0 B4 I = Some (B5, I1)" "length B5 = 256" "length I1 = length I"
    "\<And>c. 0 \<le> c \<Longrightarrow> ix B5 c = ix B4 c + cnt old c"
    "\<And>k. k < length old \<Longrightarrow> \<exists>t. ix B4 (uint (old ! k)) < t
       \<and> t \<le> ix B4 (uint (old ! k)) + cnt old (uint (old ! k)) \<and> ix I1 t = int k"
    by auto
  have B5: "ix B5 c = upto_byte old c" if "0 \<le> c" "c < 256" for c
    using D(4) [OF that(1)] B4v [OF that] upto_byte_step [of old c] by simp
  have in0': "inside I1 0" using D(3) assms(1) by (simp add: inside_def)
  define I2 where "I2 = I1[nat 0 := ?n]"
  have I2: "seti I1 0 ?n = Some I2" "length I2 = length I" using in0' D(3) by (simp_all add: seti_ix I2_def)
  have I2v: "ix I2 t = ix I1 t" if "0 < t" for t
    using ix_upd [OF in0', of t ?n] that by (simp add: I2_def)
  have placed: "placed old I2"
    unfolding placed_def
  proof (intro allI impI)
    fix p assume p: "p < length old"
    let ?c = "uint (old ! p)"
    from D(5) [OF p] obtain t where t: "ix B4 ?c < t" "t \<le> ix B4 ?c + cnt old ?c" "ix I1 t = int p" by blast
    have "ix B4 ?c = upto_byte old (?c - 1)" using B4v place_range(1) [OF p] byte_range(1) by blast
    then show "\<exists>t. upto_byte old (?c - 1) < t \<and> t \<le> upto_byte old ?c \<and> ix I2 t = int p"
      using t I2v [of t] upto_byte_step [of old ?c] upto_byte_ends(3) [of old "?c - 1"]
      by (intro exI [of _ t]) auto
  qed
  from set_groups_spec [OF D(2), of 0 old V] assms(2) obtain V1 where V1: "set_groups old 0 B5 V = Some V1"
    "length V1 = length V" "\<And>t. 0 \<le> t \<Longrightarrow> ix V1 t = (if t < ?n then ix B5 (uint (old ! nat t)) else ix V t)"
    by auto
  have inV: "inside V1 ?n" using V1(2) assms(2) by (simp add: inside_def)
  define V2 where "V2 = V1[nat ?n := 0]"
  have V2: "seti V1 ?n 0 = Some V2" using inV by (simp add: seti_ix V2_def)
  have ranked: "ranked_by_byte old V2"
    unfolding ranked_by_byte_def
  proof (intro conjI allI impI)
    show "length V2 = length old + 1" using V1(2) assms(2) by (simp add: V2_def)
    show "ix V2 ?n = 0" using ix_upd [OF inV, of ?n 0] by (simp add: V2_def)
    show "ix V2 (int p) = upto_byte old (uint (old ! p))" if "p < length old" for p
      using ix_upd [OF inV, of "int p" 0] V1(3) [of "int p"] that place_range(1) [OF that]
        B5 [OF byte_range(1)] by (simp add: V2_def)
  qed
  have "inside I2 (ix B5 c)" if "0 \<le> c" "c < 256" for c
    using B5 [OF that] upto_byte_ends(3,4) [of old c] I2(2) assms(1) by (simp add: inside_def)
  from mark_single_spec [OF D(2) _ _ this, of 1 255] obtain I3 where
    I3: "mark_single I2 B5 1 255 = Some I3" "length I3 = length I2"
    "\<And>t. 0 \<le> t \<Longrightarrow> ix I3 t = (if \<exists>c. 1 \<le> c \<and> c < 256 \<and> ix B5 c = ix B5 (c - 1) + 1 \<and> ix B5 c = t
         then - 1 else ix I2 t)" by auto
  have in3: "inside I3 0" using I3(2) I2(2) assms(1) by (simp add: inside_def)
  define I4 where "I4 = I3[nat 0 := - 1]"
  have I4: "seti I3 0 (- 1) = Some I4" "length I4 = length old + 1"
    using in3 I3(2) I2(2) assms(1) by (simp_all add: seti_ix I4_def)
  have "marked old I2 I4"
    unfolding marked_def
  proof (intro conjI allI impI)
    show "ix I4 0 = - 1" using ix_upd [OF in3, of 0 "- 1"] by (simp add: I4_def)
    fix t :: int assume t: "0 < t"
    have "(\<exists>c. 1 \<le> c \<and> c < 256 \<and> ix B5 c = ix B5 (c - 1) + 1 \<and> ix B5 c = t)
      \<longleftrightarrow> (\<exists>c. 1 \<le> c \<and> c < 256 \<and> upto_byte old c = upto_byte old (c - 1) + 1 \<and> upto_byte old c = t)"
      using B5 by (intro ex_cong) auto
    then show "ix I4 t = (if \<exists>c. 1 \<le> c \<and> c < 256 \<and> upto_byte old c = upto_byte old (c - 1) + 1
        \<and> upto_byte old c = t then - 1 else ix I2 t)"
      using I3(3) [of t] ix_upd [OF in3, of t "- 1"] t by (simp add: I4_def)
  qed
  moreover have "first_sort old I V = Some (I4, V2)"
    unfolding first_sort_def Let_def
    by (simp only: B1(1) B2(1) B3(1) B4(1) D(1) I2(1) V1(1) V2 I3(1) I4(1) Option.bind.simps prod.case)
  ultimately show ?thesis using I4(2) ranked placed by blast
qed

end
