(* ===== verification/SufArray.thy ===== *)
theory SufArray
  imports FirstSort
begin

text \<open>
  \<open>qsufsort\<close> of \<open>applypatch/bsdiff.c\<close> ends without leaving its arrays and yields the suffix array of
  the file: the passes refine the ranks until every suffix has its own, which happens when the
  compared length exceeds the file at the latest.
\<close>

section \<open>One pass\<close>

definition suffixes_state :: "byte list \<Rightarrow> int \<Rightarrow> int list \<Rightarrow> int list \<Rightarrow> bool" where
  "suffixes_state old h I V \<longleftrightarrow> length I = length old + 1 \<and> ranks_ok old h V \<and> 0 < h
     \<and> segments old h I V 0 (int (length old) + 1)"

lemma segments_alike:
  assumes "segments old h I V a b" "is_pos old p" "is_pos old q" "ix V p = ix V q"
    and "a \<le> ix V p" "ix V p < b"
  shows "alike old h p q"
  using assms
proof (induction rule: segments.induct)
  case (sorted_segment a l b)
  show ?case
  proof (cases "ix V p < a + l")
    case True
    then obtain r where "members old V (ix V p) = {r}"
      using sorted_segment.hyps(3) sorted_segment.prems by (auto simp: sorted_from_def)
    moreover have "p \<in> members old V (ix V p)" "q \<in> members old V (ix V p)"
      using sorted_segment.prems by (simp_all add: members_def)
    ultimately have "p = q" by simp
    then show ?thesis by (simp add: alike_def)
  qed (use sorted_segment in simp)
next
  case (group_segment a c b)
  show ?case
  proof (cases "ix V p < c")
    case True
    have "ix V p = c - 1"
    proof (rule ccontr)
      assume "ix V p \<noteq> c - 1"
      then have "members old V (ix V p) = {}"
        using group_segment.hyps(2) group_segment.prems True by (auto simp: group_at_def)
      with group_segment.prems show False by (auto simp: members_def)
    qed
    with group_segment.hyps(2) group_segment.prems show ?thesis
      by (auto simp: group_at_def members_def)
  qed (use group_segment in simp)
qed simp

lemma segments_ranks_ok:
  assumes "ranks_ok old g V" "segments old h I V 0 (int (length old) + 1)"
  shows "ranks_ok old h V"
proof -
  have "alike old h p q" if "is_pos old p" "is_pos old q" "ix V p = ix V q" for p q
    using segments_alike [OF assms(2) that] ranks_okD(3) [OF assms(1) that(1) that(1)]
    by (simp add: is_pos_def)
  with assms(1) show ?thesis by (auto simp: ranks_ok_def)
qed

text \<open>The sorted entries before \<open>i\<close> are joined.\<close>

lemma join_sorted:
  assumes "length I = length old + 1" "0 \<le> l" "l \<le> i" "i \<le> int (length old) + 1"
    and "segments old h I V 0 (i - l)" "sorted_from old V (i - l) i"
  obtains I' where "(if l \<noteq> 0 then seti I (i - l) (- l) else Some I) = Some I'" "length I' = length I"
    "\<And>t. i \<le> t \<Longrightarrow> ix I' t = ix I t" "segments old h I' V 0 i"
proof (cases "l = 0")
  case True
  with assms show ?thesis by (intro that [of I]) auto
next
  case False
  have "inside I (i - l)" using assms False by (simp add: inside_def)
  with False assms(2,3) have J: "seti I (i - l) (- l) = Some (I[nat (i - l) := - l])"
    "\<And>t. 0 \<le> t \<Longrightarrow> ix (I[nat (i - l) := - l]) t = (if t = i - l then - l else ix I t)"
    by (simp_all add: arr)
  let ?I = "I[nat (i - l) := - l]"
  have "segments old h ?I V 0 (i - l)"
    using J(2) by (intro segments_frame [OF assms(5)]) auto
  moreover have "segments old h ?I V (i - l) i"
    using J(2) [of "i - l"] assms(2,3,6) False
    by (intro sorted_segment [of ?I "i - l" l]) (auto intro: done_segments)
  ultimately have "segments old h ?I V 0 i" by (rule segments_append)
  with J False assms show ?thesis by (intro that [of ?I]) auto
qed

lemma group_split_pre:
  assumes "length I = length old + 1" "ranks_ok old h V" "0 < h" "0 \<le> a" "a < c"
    "c \<le> int (length old) + 1" "group_at old h I V a c"
  shows "split_pre old h I V a c"
proof -
  let ?R = "ix I ` {a..<c}"
  have R: "?R = members old V (c - 1)" and inj: "inj_on (ix I) {a..<c}"
    using assms(7) by (auto simp: group_at_def)
  have pos: "is_pos old p" "ix V p = c - 1" "p + h \<le> int (length old)" if "p \<in> ?R" for p
    using that assms(7) unfolding R by (auto simp: members_def group_at_def)
  have away: "ix V q < a \<or> c \<le> ix V q" if "is_pos old q" "q \<notin> ?R" for q
  proof (rule ccontr)
    assume "\<not> ?thesis"
    moreover have "ix V q \<noteq> c - 1" using that unfolding R by (simp add: members_def)
    ultimately have "members old V (ix V q) = {}" using assms(7) by (simp add: group_at_def)
    with that(1) show False by (auto simp: members_def)
  qed
  have other: "(ix V q < a \<and> suf old q < suf old p) \<or> (c \<le> ix V q \<and> suf old p < suf old q)"
    if "p \<in> ?R" "is_pos old q" "q \<notin> ?R" for p q
    using away [OF that(2,3)] pos [OF that(1)] ranks_okD(1) [OF assms(2) that(2) pos(1) [OF that(1)]]
      ranks_okD(1) [OF assms(2) pos(1) [OF that(1)] that(2)] assms(5) by fastforce
  show ?thesis unfolding split_pre_def
  proof (intro conjI ballI allI impI; (elim conjE)?)
    fix p assume p: "p \<in> ?R"
    show "is_pos old p" "p + h \<le> int (length old)" "c - 1 \<le> ix V p" using pos [OF p] by simp_all
    show "ix V q = ix V p" if "q \<in> ?R" for q using pos(2) [OF p] pos(2) [OF that] by simp
    show "(ix V q < a \<and> suf old q < suf old p) \<or> (c \<le> ix V q \<and> suf old p < suf old q)"
      if "is_pos old q" "q \<notin> ?R" for q using other [OF p that] .
  next
    show "ix V q < a \<or> c \<le> ix V q" if "is_pos old q" "q \<notin> ?R" for q using away [OF that] .
  qed (use assms inj in simp_all)
qed

lemma split_done_members:
  assumes "split_done old h a c I V I' V'" "\<And>p. p \<in> ix I ` {a..<c} \<Longrightarrow> ix V p = c - 1"
    and "j < a \<or> c \<le> j" "a < c"
  shows "members old V' j = members old V j"
proof -
  have "ix V' q = j \<longleftrightarrow> ix V q = j" if "is_pos old q" for q
  proof (cases "q \<in> ix I ` {a..<c}")
    case True
    with assms(2) [OF True] split_doneD(5,6) [OF assms(1) True] assms(3,4) show ?thesis by auto
  next
    case False
    with split_doneD(4) [OF assms(1) that] show ?thesis by simp
  qed
  then show ?thesis by (auto simp: members_def)
qed

lemma sort_pass_spec:
  assumes "length I = length old + 1" "ranks_ok old h V" "0 < h" "0 \<le> l" "l \<le> i"
    "i \<le> int (length old) + 1" "segments old (h + h) I V 0 (i - l)" "sorted_from old V (i - l) i"
    "segments old h I V i (int (length old) + 1)"
  shows "\<exists>I' V'. sort_pass I V (int (length old)) h i l = Some (I', V') \<and> suffixes_state old (h + h) I' V'"
  using assms
proof (induction "nat (int (length old) + 1 - i)" arbitrary: I V i l rule: less_induct)
  case less
  let ?n = "int (length old)"
  obtain J where J: "(if l \<noteq> 0 then seti I (i - l) (- l) else Some I) = Some J" "length J = length I"
    "\<And>t. i \<le> t \<Longrightarrow> ix J t = ix I t" "segments old (h + h) J V 0 i"
    by (rule join_sorted [OF less.prems(1,4,5,6,7,8)]) (rule that)
  show ?case
  proof (cases "i < ?n + 1")
    case False
    with less.prems(6) have "i = ?n + 1" by simp
    with J less.prems(1,3) segments_ranks_ok [OF less.prems(2)] have "suffixes_state old (h + h) J V"
      by (simp add: suffixes_state_def)
    with False J(1) show ?thesis by (subst sort_pass.simps) simp
  next
    case True
    have i: "inside I i" "inside J i" using True less.prems(1,4,5) J(2) by (simp_all add: inside_def)
    from less.prems(9) show ?thesis
    proof (cases rule: segments_cases)
      case none
      with True show ?thesis by simp
    next
      case (sorted k)
      have "sorted_from old V (i - l) (i + k)"
        unfolding sorted_from_def
      proof (intro allI impI; elim conjE)
        fix j assume j: "i - l \<le> j" "j < i + k"
        show "\<exists>p. members old V j = {p}"
        proof (cases "j < i")
          case True
          with j less.prems(8) show ?thesis by (simp add: sorted_from_def)
        next
          case False
          with j sorted(3) show ?thesis by (simp add: sorted_from_def)
        qed
      qed
      then have "sorted_from old V (i + k - (l + k)) (i + k)" by simp
      moreover have "i + k \<le> ?n + 1" using segments_le [OF sorted(4)] .
      moreover have "segments old (h + h) I V 0 (i + k - (l + k))" using less.prems(7) by simp
      ultimately have "\<exists>I' V'. sort_pass I V ?n h (i + k) (l + k) = Some (I', V')
        \<and> suffixes_state old (h + h) I' V'"
        using sorted less.prems(1-5) by (intro less.hyps) auto
      with True i(1) sorted(1,2) show ?thesis
        by (subst sort_pass.simps) (simp add: geti_ix)
    next
      case (grouped c)
      have c: "c \<le> ?n + 1" using segments_le [OF grouped(3)] .
      have "ix I i \<in> members old V (c - 1)"
        using grouped(1,2) unfolding group_at_def by auto
      then have p: "is_pos old (ix I i)" "ix V (ix I i) = c - 1" by (auto simp: members_def)
      then have inV: "inside V (ix I i)" using ranks_okD(4) [OF less.prems(2)] by blast
      have grp: "group_at old h J V i c"
      proof -
        have "ix J t = ix I t" if "t \<in> {i..<c}" for t using J(3) that by simp
        then have "ix J ` {i..<c} = ix I ` {i..<c}" "inj_on (ix J) {i..<c} = inj_on (ix I) {i..<c}"
          by (fact image_cong [OF refl], fact inj_on_cong)
        with grouped(2) show ?thesis by (simp add: group_at_def)
      qed
      have "split_pre old h J V i (i + (c - i))"
        using group_split_pre [OF _ less.prems(2,3) _ grouped(1) c grp] J(2) less.prems(1,4,5) by simp
      from split_spec [OF this] obtain I2 V2 where
        s: "split J V i (c - i) h = Some (I2, V2)" "split_done old h i c J V I2 V2" by auto
      note S = split_doneD [OF s(2)]
      have rank: "ix V q = c - 1" if "q \<in> ix J ` {i..<c}" for q
        using grp that by (auto simp: group_at_def members_def)
      note mem = split_done_members [OF s(2) rank _ grouped(1)]
      have "0 \<le> i" using less.prems(4,5) by simp
      have "segments old (h + h) I2 V2 0 i"
        using S(3) by (intro segments_frame [OF J(4)] mem) auto
      with S(7) have done2: "segments old (h + h) I2 V2 0 c" using segments_append by blast
      have rest: "segments old h I2 V2 c (?n + 1)"
      proof (rule segments_frame [OF grouped(3)])
        show "ix I2 t = ix I t" if "c \<le> t" "t < ?n + 1" for t
          using S(3) [of t] J(3) [of t] that \<open>0 \<le> i\<close> grouped(1) by simp
      qed (use mem in auto)
      have "\<exists>I' V'. sort_pass I2 V2 ?n h c 0 = Some (I', V') \<and> suffixes_state old (h + h) I' V'"
        using True c grouped(1) S(1,2) J(2) less.prems(1,3) done2 rest \<open>0 \<le> i\<close>
        by (intro less.hyps) (auto simp: sorted_from_def)
      moreover have "sort_pass I V ?n h i l = sort_pass I2 V2 ?n h c 0"
      proof -
        have "geti I i = Some (ix I i)" "geti J i = Some (ix I i)" "geti V (ix I i) = Some (c - 1)"
          using i inV p(2) J(3) [of i] by (simp_all add: geti_ix)
        moreover have "\<not> ix I i < 0" using p(1) by (simp add: is_pos_def)
        ultimately show ?thesis using True J(1) s(1)
          by (subst sort_pass.simps) (simp only: if_True if_False Option.bind.simps Let_def
              prod.case diff_add_cancel add.commute [of i] simp_thms)
      qed
      ultimately show ?thesis by simp
    qed
  qed
qed

text \<open>When the compared length exceeds the file, the pass only joins.\<close>

lemma sort_pass_final:
  assumes "length I = length old + 1" "int (length old) < h" "0 \<le> i"
    "segments old h I V i (int (length old) + 1)"
  shows "\<exists>I'. sort_pass I V (int (length old)) h i i = Some (I', V) \<and> ix I' 0 = - (int (length old) + 1)"
  using assms
proof (induction "nat (int (length old) + 1 - i)" arbitrary: i rule: less_induct)
  case less
  let ?n = "int (length old)"
  show ?case
  proof (cases "i < ?n + 1")
    case False
    with segments_le [OF less.prems(4)] have i: "i = ?n + 1" by simp
    have "inside I 0" using less.prems(1) by (simp add: inside_def)
    then have "seti I 0 (- (?n + 1)) = Some (I[nat 0 := - (?n + 1)])"
      "ix (I[nat 0 := - (?n + 1)]) 0 = - (?n + 1)" by (simp_all only: arr) simp
    with i show ?thesis by (subst sort_pass.simps) simp
  next
    case True
    from less.prems(4) show ?thesis
    proof (cases rule: segments_cases)
      case none
      with True show ?thesis by simp
    next
      case (sorted k)
      have "\<exists>I'. sort_pass I V ?n h (i + k) (i + k) = Some (I', V) \<and> ix I' 0 = - (?n + 1)"
        using less.prems(1-3) sorted True by (intro less.hyps) auto
      moreover have "inside I i" using True less.prems(1,3) by (simp add: inside_def)
      ultimately show ?thesis using True sorted(1,2)
        by (subst sort_pass.simps) (simp add: geti_ix)
    next
      case (grouped c)
      have "ix I i \<in> members old V (c - 1)"
        using grouped(1,2) unfolding group_at_def by auto
      then have "0 \<le> ix I i" "ix I i + h \<le> ?n"
        using grouped(2) by (auto simp: group_at_def members_def is_pos_def)
      with less.prems(2) show ?thesis by simp
    qed
  qed
qed

section \<open>The passes\<close>

lemma segments_joined:
  assumes "segments old h I V 0 (int (length old) + 1)" "ix I 0 = - (int (length old) + 1)"
  shows "sorted_from old V 0 (int (length old) + 1)"
  using assms(1)
proof (cases rule: segments_cases)
  case (sorted l)
  with assms(2) have "l = int (length old) + 1" by simp
  with sorted(3) show ?thesis by simp
next
  case (grouped c)
  then have "ix I 0 \<in> members old V (c - 1)" unfolding group_at_def by auto
  with assms(2) show ?thesis by (auto simp: members_def is_pos_def)
qed (use assms(2) in auto)

lemma doubling_spec:
  assumes "suffixes_state old h I V"
  shows "\<exists>I' V'. doubling I V (int (length old)) h = Some (I', V') \<and> length I' = length old + 1
    \<and> ranks_ok old h V' \<and> sorted_from old V' 0 (int (length old) + 1)"
  using assms
proof (induction "nat (int (length old) + 1 - h)" arbitrary: I V h rule: less_induct)
  case less
  let ?n = "int (length old)"
  have st: "length I = length old + 1" "ranks_ok old h V" "0 < h" "segments old h I V 0 (?n + 1)"
    using less.prems by (auto simp: suffixes_state_def)
  have zero: "geti I 0 = Some (ix I 0)" using st(1) by (intro geti_ix) (simp add: inside_def)
  show ?case
  proof (cases "ix I 0 = - (?n + 1)")
    case True
    with zero segments_joined [OF st(4)] st show ?thesis by (subst doubling.simps) simp
  next
    case False
    have "segments old (h + h) I V 0 0" "sorted_from old V 0 0"
      by (auto intro: done_segments simp: sorted_from_def)
    with sort_pass_spec [OF st(1-3), of 0 0] st(4) obtain I2 V2 where
      pass: "sort_pass I V ?n h 0 0 = Some (I2, V2)" "suffixes_state old (h + h) I2 V2" by auto
    have half: "ranks_ok old h W" if "ranks_ok old (h + h) W" for W
      using that alike_half st(3) by (fastforce simp: ranks_ok_def)
    have "\<exists>I' V'. doubling I2 V2 ?n (h + h) = Some (I', V') \<and> length I' = length old + 1
      \<and> ranks_ok old (h + h) V' \<and> sorted_from old V' 0 (?n + 1)"
    proof (cases "h \<le> ?n")
      case True
      then show ?thesis using less.hyps [OF _ pass(2)] st(3) by auto
    next
      case large: False
      with sort_pass_final [OF st(1) _ _ st(4)] pass(1) have "ix I2 0 = - (?n + 1)" by auto
      moreover have I2: "segments old (h + h) I2 V2 0 (?n + 1)"
        "length I2 = length old + 1" "ranks_ok old (h + h) V2"
        using pass(2) by (simp_all add: suffixes_state_def)
      moreover from I2(2) have "geti I2 0 = Some (ix I2 0)" by (intro geti_ix) (simp add: inside_def)
      ultimately show ?thesis using segments_joined [of old "h + h" I2 V2]
        by (subst doubling.simps) simp
    qed
    with half zero False pass(1) show ?thesis by (subst doubling.simps) auto
  qed
qed

section \<open>The suffix array\<close>

lemma invert_ranks_spec:
  assumes "inj_on (ix V) {i..<i + int n}"
    and "\<And>p. i \<le> p \<Longrightarrow> p < i + int n \<Longrightarrow> inside V p \<and> inside I (ix V p)"
  shows "\<exists>I'. invert_ranks I V i n = Some I' \<and> length I' = length I
    \<and> (\<forall>p. i \<le> p \<and> p < i + int n \<longrightarrow> ix I' (ix V p) = p)
    \<and> (\<forall>t \<ge> 0. t \<notin> ix V ` {i..<i + int n} \<longrightarrow> ix I' t = ix I t)"
  using assms
proof (induction n arbitrary: I i)
  case 0
  then show ?case by auto
next
  case (Suc n)
  have i: "inside V i" "inside I (ix V i)" using Suc.prems(2) [of i] by auto
  let ?I = "I[nat (ix V i) := i]"
  have ran: "{i..<i + int (Suc n)} = insert i {i + 1..<i + 1 + int n}" by auto
  have inj: "inj_on (ix V) {i + 1..<i + 1 + int n}" and new: "ix V i \<notin> ix V ` {i + 1..<i + 1 + int n}"
    using Suc.prems(1) unfolding ran by (auto simp: inj_on_insert)
  have "inside V p \<and> inside ?I (ix V p)" if "i + 1 \<le> p" "p < i + 1 + int n" for p
    using Suc.prems(2) [of p] that by simp
  from Suc.IH [OF inj this] obtain I' where I': "invert_ranks ?I V (i + 1) n = Some I'" "length I' = length I"
    "\<And>p. i + 1 \<le> p \<Longrightarrow> p < i + 1 + int n \<Longrightarrow> ix I' (ix V p) = p"
    "\<And>t. 0 \<le> t \<Longrightarrow> t \<notin> ix V ` {i + 1..<i + 1 + int n} \<Longrightarrow> ix I' t = ix ?I t" by auto
  have "0 \<le> ix V i" using i(2) by (simp add: inside_def)
  then have "ix I' (ix V i) = i" using I'(4) [OF _ new] ix_upd [OF i(2), of "ix V i" i] by simp
  then have "ix I' (ix V p) = p" if "i \<le> p" "p < i + int (Suc n)" for p
    using I'(3) [of p] that by (cases "p = i") auto
  moreover have "ix I' t = ix I t" if "0 \<le> t" "t \<notin> ix V ` {i..<i + int (Suc n)}" for t
    using I'(4) [OF that(1)] that(2) ix_upd [OF i(2) that(1), of i] unfolding ran by simp
  moreover have "invert_ranks I V i (Suc n) = Some I'"
    using i I'(1) by (simp only: invert_ranks.simps geti_ix seti_ix Option.bind.simps)
  ultimately show ?case using I'(2) by blast
qed

text \<open>The positions of a file in the order of the suffixes that begin there.\<close>

definition is_suffix_array :: "byte list \<Rightarrow> int list \<Rightarrow> bool" where
  "is_suffix_array old I \<longleftrightarrow> length I = length old + 1 \<and> set I = {0..int (length old)}
     \<and> sorted_wrt (\<lambda>p q. drop (nat p) old < drop (nat q) old) I"

lemma qsufsort_spec:
  assumes "length I = length old + 1" "length V = length old + 1"
  shows "\<exists>I' V'. qsufsort I V old = Some (I', V') \<and> is_suffix_array old I'"
proof -
  let ?n = "int (length old)"
  from first_sort_spec [OF assms] obtain I1 V1 where
    f: "first_sort old I V = Some (I1, V1)" "length I1 = length old + 1" "ranked_by_byte old V1"
    and pm: "\<exists>I0. placed old I0 \<and> marked old I0 I1" by blast
  have "segments old 1 I1 V1 0 (?n + 1)" using first_sort_state [OF f(3)] f(2) pm by blast
  with f have "suffixes_state old 1 I1 V1" by (simp add: suffixes_state_def ranked_by_byte_ranks)
  from doubling_spec [OF this] obtain I2 V2 where
    d: "doubling I1 V1 ?n 1 = Some (I2, V2)" "length I2 = length old + 1" "ranks_ok old 1 V2"
    "sorted_from old V2 0 (?n + 1)" by blast
  have rank: "is_pos old (ix V2 p)" "inside V2 p" if "is_pos old p" for p
    using ranks_okD(3,4) [OF d(3) that that] by auto
  have inj: "p = q" if pq: "is_pos old p" "is_pos old q" "ix V2 p = ix V2 q" for p q
  proof -
    have "0 \<le> ix V2 p" "ix V2 p < ?n + 1" using rank(1) [OF pq(1)] by (simp_all add: is_pos_def)
    then obtain r where "members old V2 (ix V2 p) = {r}" using d(4) by (auto simp: sorted_from_def)
    moreover have "p \<in> members old V2 (ix V2 p)" "q \<in> members old V2 (ix V2 p)"
      using pq by (simp_all add: members_def)
    ultimately show ?thesis by simp
  qed
  have range: "p \<in> {0..<0 + int (length old + 1)} \<longleftrightarrow> is_pos old p" for p by (auto simp: is_pos_def)
  have injV: "inj_on (ix V2) {0..<0 + int (length old + 1)}" using inj range by (intro inj_onI) blast
  have "inside V2 p \<and> inside I2 (ix V2 p)" if "0 \<le> p" "p < 0 + int (length old + 1)" for p
    using rank [of p] that d(2) by (auto simp: is_pos_def inside_def)
  from invert_ranks_spec [OF injV this] obtain I3 where v: "invert_ranks I2 V2 0 (length old + 1) = Some I3" "length I3 = length I2"
    "\<And>p. 0 \<le> p \<Longrightarrow> p < 0 + int (length old + 1) \<Longrightarrow> ix I3 (ix V2 p) = p"
    by auto
  have at: "ix I3 (ix V2 p) = p" if "is_pos old p" for p
    using v(3) [of p] that by (simp add: is_pos_def)
  have onto: "\<exists>p. is_pos old p \<and> ix V2 p = j \<and> ix I3 j = p" if j: "is_pos old j" for j
  proof -
    from j d(4) obtain p where "members old V2 j = {p}" by (auto simp: sorted_from_def is_pos_def)
    then have "is_pos old p" "ix V2 p = j" by (auto simp: members_def)
    with at show ?thesis by blast
  qed
  have nth: "I3 ! k = ix I3 (int k)" for k by (simp add: ix_def)
  have "is_suffix_array old I3"
    unfolding is_suffix_array_def
  proof (intro conjI)
    show len: "length I3 = length old + 1" using v(2) d(2) by simp
    show "set I3 = {0..?n}"
    proof (intro set_eqI iffI)
      fix p assume "p \<in> set I3"
      then obtain k where "k < length old + 1" "p = ix I3 (int k)" using len nth by (auto simp: in_set_conv_nth)
      with onto [of "int k"] show "p \<in> {0..?n}" by (auto simp: is_pos_def)
    next
      fix p assume "p \<in> {0..?n}"
      then have p: "is_pos old p" by (simp add: is_pos_def)
      with rank(1) [OF p] have "nat (ix V2 p) < length I3" "I3 ! nat (ix V2 p) = p"
        using len at [OF p] nth by (auto simp: is_pos_def)
      then show "p \<in> set I3" by (metis nth_mem)
    qed
    show "sorted_wrt (\<lambda>p q. drop (nat p) old < drop (nat q) old) I3"
      unfolding sorted_wrt_iff_nth_less
    proof (intro allI impI)
      fix i j assume ij: "i < j" "j < length I3"
      then have "is_pos old (int i)" "is_pos old (int j)" using len by (auto simp: is_pos_def)
      with onto obtain p q where pq: "is_pos old p" "ix V2 p = int i" "ix I3 (int i) = p"
        "is_pos old q" "ix V2 q = int j" "ix I3 (int j) = q" by metis
      with ranks_okD(1) [OF d(3) pq(1,4)] ij(1) show "drop (nat (I3 ! i)) old < drop (nat (I3 ! j)) old"
        by (simp add: nth suf_def)
    qed
  qed
  moreover have "qsufsort I V old = Some (I3, V2)"
    unfolding qsufsort_def by (simp only: f(1) d(1) v(1) Option.bind.simps prod.case)
  ultimately show ?thesis by blast
qed

text \<open>
  C11. \<open>qsufsort\<close> returns, whatever its work arrays contain at first: no access leaves the two
  arrays, the doubling ends, and \<open>I\<close> becomes the suffix array of the file, the list of all its
  positions and of its end in the lexicographic order of the suffixes.
\<close>

theorem qsufsort_suffix_array:
  assumes "length I = length old + 1" "length V = length old + 1"
  shows "\<exists>I' V'. qsufsort I V old = Some (I', V') \<and> length I' = length old + 1
    \<and> set I' = {0..int (length old)} \<and> sorted_wrt (\<lambda>p q. drop (nat p) old < drop (nat q) old) I'"
  using qsufsort_spec [OF assms] by (simp add: is_suffix_array_def)

theorem qsufsort_suffix_array_witness:
  "\<exists>I' V'. qsufsort (replicate 7 9) (replicate 7 (- 5)) [98, 97, 110, 97, 110, 97] = Some (I', V')
    \<and> length I' = 7 \<and> set I' = {0..6}
    \<and> sorted_wrt (\<lambda>p q. drop (nat p) [98, 97, 110, 97, 110, 97 :: byte] < drop (nat q) [98, 97, 110, 97, 110, 97]) I'"
  using qsufsort_suffix_array [of "replicate 7 9" "[98, 97, 110, 97, 110, 97]" "replicate 7 (- 5)"]
  by (simp add: eval_nat_numeral)

end
