(* ===== verification/BsDiffFile.thy ===== *)
theory BsDiffFile
  imports BsDiff SufArray
begin

text \<open>
  \<open>bsdiff\<close> of \<open>applypatch/bsdiff.c\<close> with the suffix array it owns: the caller passes a place for the
  array, and the first call for an old file fills it.
\<close>

text \<open>
  \<open>IP\<close> is the array the caller passes, \<open>None\<close> for \<open>NULL\<close>; \<open>blockI\<close> and \<open>blockV\<close> are what the two blocks from
  \<open>malloc\<close> contain.  The result is the array the caller gets back and the patch.
\<close>

definition bsdiff_IP ::
  "'s bz2 \<Rightarrow> byte list \<Rightarrow> int list option \<Rightarrow> byte list \<Rightarrow> int list \<Rightarrow> int list \<Rightarrow> (int list \<times> byte list) ub"
where
  "bsdiff_IP lib old IP new blockI blockV = do {
     I \<leftarrow> (case IP of
             None \<Rightarrow> do { (I, V) \<leftarrow> qsufsort blockI blockV old; Some I }
           | Some I \<Rightarrow> Some I);
     patch \<leftarrow> bsdiff lib old I new;
     Some (I, patch)
   }"

lemma suffix_array_positions: "is_suffix_array old I \<Longrightarrow> suffix_array_ok I old"
  by (simp add: is_suffix_array_def suffix_array_ok_def)

lemma computed_or_given:
  assumes "case IP of None \<Rightarrow> length blockI = length old + 1 \<and> length blockV = length old + 1
    | Some I \<Rightarrow> is_suffix_array old I"
  obtains I where "(case IP of None \<Rightarrow> do { (I, V) \<leftarrow> qsufsort blockI blockV old; Some I } | Some I \<Rightarrow> Some I) = Some I"
    "is_suffix_array old I"
proof (cases IP)
  case None
  with assms qsufsort_spec [of blockI old blockV] show ?thesis by (auto intro: that)
next
  case (Some I)
  with assms show ?thesis by (auto intro: that)
qed

text \<open>
  C10. Patch round trip: for any two files, computing a patch returns (every loop ends, no read or
  write is out of bounds, no buffer overflows), whether the suffix array of the old file is computed
  or comes from an earlier call, and the array it leaves to the caller is the suffix array, so the
  next call may use it.  Applying the patch to the old file, wherever the patch stands in a larger
  file, gives the new file.  The compression library only has to be correct.
\<close>

theorem bsdiff_bspatch:
  assumes "bz2_ok lib rest"
    and "case IP of None \<Rightarrow> length blockI = length old + 1 \<and> length blockV = length old + 1
      | Some I \<Rightarrow> is_suffix_array old I"
    and "int (length new) < 2 ^ 63" "int (length old) < 2 ^ 63"
  shows "\<exists>I patch. bsdiff_IP lib old IP new blockI blockV = Some (I, patch) \<and> is_suffix_array old I
    \<and> (int (length patch) < 2 ^ 63 \<longrightarrow>
       ApplyBSDiffPatchMem lib old (before @ patch @ behind) (length before) = Some (0, new))"
proof -
  obtain I where I: "(case IP of None \<Rightarrow> do { (I, V) \<leftarrow> qsufsort blockI blockV old; Some I } | Some I \<Rightarrow> Some I) = Some I"
    "is_suffix_array old I"
    using computed_or_given [OF assms(2)] by blast
  from bsdiff_patch_applies [OF assms(1) suffix_array_positions [OF I(2)] assms(3,4), of before behind]
  obtain patch where "bsdiff lib old I new = Some patch"
    "int (length patch) < 2 ^ 63 \<longrightarrow>
       ApplyBSDiffPatchMem lib old (before @ patch @ behind) (length before) = Some (0, new)" by blast
  then show ?thesis using I by (simp add: bsdiff_IP_def)
qed

theorem bsdiff_bspatch_witness:
  "\<exists>I patch. bsdiff_IP store_lib [1, 2, 3] None [2, 3, 9, 1] [0, 0, 0, 0] [7, 7, 7, 7] = Some (I, patch)
    \<and> is_suffix_array [1, 2, 3] I
    \<and> (int (length patch) < 2 ^ 63 \<longrightarrow>
       ApplyBSDiffPatchMem store_lib [1, 2, 3] ([7] @ patch @ [8]) 1 = Some (0, [2, 3, 9, 1]))"
  using bsdiff_bspatch [OF store_lib_ok, where IP = None and old = "[1, 2, 3]" and new = "[2, 3, 9, 1]"
    and blockI = "[0, 0, 0, 0]" and blockV = "[7, 7, 7, 7]" and before = "[7]" and behind = "[8]"]
  by simp

end
