(* ===== verification/ZipContents.thy ===== *)
theory ZipContents
  imports Zip ImgPatch LoadSave
begin

text \<open>
  \<open>minzip/Zip.c\<close>: streaming the contents of an entry of an open archive to a function, and the four
  functions the file has for that: copying into a buffer, writing to a descriptor, filling a buffer
  that must be large enough, and computing the checksum.

  The archive's descriptor is the bytes of the archive with a position; what a read does beyond that is
  decided by the tape of the world.  zlib is a parameter: \<open>inflate\<close> gets the available input and the
  room for output, and gives its result code, the input consumed, the output and the next stream.
\<close>

section \<open>Reading the archive\<close>

definition read_fd :: "byte list \<Rightarrow> nat \<Rightarrow> nat \<Rightarrow> world \<Rightarrow> byte list option \<times> world" where
  "read_fd za pos n w = (case draw w of (e, w) \<Rightarrow>
     (case e of
        Fail \<Rightarrow> None
      | Intr \<Rightarrow> None
      | Part k \<Rightarrow> Some (take (min k n) (drop pos za))
      | _ \<Rightarrow> Some (take n (drop pos za)), w))"

text \<open>\<open>lseek(fd, offset, SEEK_SET)\<close>: a negative offset fails, and the result is not looked at.\<close>

definition seek_entry :: "32 word \<Rightarrow> nat \<Rightarrow> nat" where
  "seek_entry off pos = (if sint off < 0 then pos else nat (sint off))"

record 'z inflater =
  inflateInit2 :: "int \<times> 'z"
  inflate :: "'z \<Rightarrow> byte list \<Rightarrow> nat \<Rightarrow> int \<times> nat \<times> byte list \<times> 'z"

type_synonym 'k process = "byte list \<Rightarrow> 'k \<Rightarrow> world \<Rightarrow> (bool \<times> 'k \<times> world) ub"

definition STORED :: "16 word" where "STORED = 0"
definition DEFLATED :: "16 word" where "DEFLATED = 8"

definition CHUNK :: nat where "CHUNK = 32768"

function processStoredEntry ::
  "byte list \<Rightarrow> nat \<Rightarrow> nat \<Rightarrow> 'k process \<Rightarrow> 'k \<Rightarrow> world \<Rightarrow> (bool \<times> 'k \<times> world) ub" where
  "processStoredEntry za pos bytesLeft pf k w =
     (if bytesLeft > 0 then
        let count = min bytesLeft CHUNK in
        (case read_fd za pos count w of (r, w) \<Rightarrow>
           (case r of
              None \<Rightarrow> Some (False, k, w)
            | Some buf \<Rightarrow>
                if length buf \<noteq> count then Some (False, k, w)
                else do {
                  (ret, k, w) \<leftarrow> pf buf k w;
                  if \<not> ret then Some (False, k, w)
                  else processStoredEntry za (pos + count) (bytesLeft - count) pf k w
                }))
      else Some (True, k, w))"
  by pat_completeness auto

termination
  by (relation "measure (\<lambda>(za, pos, bytesLeft, pf, k, w). bytesLeft)") (auto simp: CHUNK_def)

declare processStoredEntry.simps [simp del]

text \<open>
  The read at the head of the loop, when the input is used up: the new input with what is left, or
  \<open>None\<close> for \<open>goto z_bail\<close>.  A negative size would reach \<open>read\<close> as a huge one.
\<close>

definition refill ::
  "byte list \<Rightarrow> byte list \<Rightarrow> int \<Rightarrow> nat \<Rightarrow> world \<Rightarrow> ((byte list \<times> int \<times> nat) option \<times> world) ub" where
  "refill za avail compRemaining pos w =
     (if avail = [] then
        let getSize = (if compRemaining > int CHUNK then int CHUNK else compRemaining) in
        if getSize < 0 then None
        else (case read_fd za pos (nat getSize) w of (r, w) \<Rightarrow>
          Some (case r of
                  None \<Rightarrow> None
                | Some bs \<Rightarrow> if int (length bs) \<noteq> getSize then None
                             else Some (bs, compRemaining - getSize, pos + length bs), w))
      else Some (Some (avail, compRemaining, pos), w))"

text \<open>
  What the loop keeps: the stream with its input, the output that is not yet processed (\<open>procBuf\<close>), the
  count of all output (modulo \<open>2 ^ 32\<close>), the compressed bytes not yet read, the position, and the state
  of the processing function with the world.
\<close>

record ('z, 'k) inflating =
  strm :: 'z
  avail_in :: "byte list"
  procBuf :: "byte list"
  total_out :: "32 word"
  compRemaining :: int
  fd_pos :: nat
  pf_cookie :: 'k
  fd_world :: world

text \<open>Output is processed when the buffer is full, and at the end if there is any.\<close>

definition flush_output ::
  "'k process \<Rightarrow> bool \<Rightarrow> byte list \<Rightarrow> 'k \<Rightarrow> world \<Rightarrow> (bool \<times> byte list \<times> 'k \<times> world) ub" where
  "flush_output pf at_end out k w =
     (if length out = CHUNK \<or> at_end \<and> out \<noteq> [] then do {
        (ret, k, w) \<leftarrow> pf out k w;
        Some (ret, [], k, w)
      }
      else Some (True, out, k, w))"

text \<open>One turn of the loop: it ends with \<open>result\<close>, -1 after \<open>goto z_bail\<close>, or goes on.\<close>

definition inflate_step ::
  "'z inflater \<Rightarrow> byte list \<Rightarrow> 'k process \<Rightarrow> ('z, 'k) inflating \<Rightarrow> ((int \<times> 'k \<times> world) + ('z, 'k) inflating) ub"
where
  "inflate_step il za pf st = do {
     let k = pf_cookie st;
     (r, w) \<leftarrow> refill za (avail_in st) (compRemaining st) (fd_pos st) (fd_world st);
     (case r of
        None \<Rightarrow> Some (Inl (- 1, k, w))
      | Some (avail, crem, pos) \<Rightarrow>
          (case inflate il (strm st) avail (CHUNK - length (procBuf st)) of
             (zerr, used, out, z) \<Rightarrow>
               let total = total_out st + word_of_nat (length out) in
               if zerr \<noteq> Z_OK \<and> zerr \<noteq> Z_STREAM_END then Some (Inl (- 1, k, w))
               else do {
                 (ret, buf, k, w) \<leftarrow> flush_output pf (zerr = Z_STREAM_END) (procBuf st @ out) k w;
                 Some (if \<not> ret then Inl (- 1, k, w)
                       else if zerr = Z_OK
                       then Inr \<lparr>strm = z, avail_in = drop used avail, procBuf = buf, total_out = total,
                         compRemaining = crem, fd_pos = pos, pf_cookie = k, fd_world = w\<rparr>
                       else Inl (sint total, k, w))
               }))
   }"

partial_function (option) inflate_loop ::
  "'z inflater \<Rightarrow> byte list \<Rightarrow> 'k process \<Rightarrow> ('z, 'k) inflating \<Rightarrow> (int \<times> 'k \<times> world) option"
where
  "inflate_loop il za pf st = do {
     r \<leftarrow> inflate_step il za pf st;
     (case r of Inl result \<Rightarrow> Some result | Inr st \<Rightarrow> inflate_loop il za pf st)
   }"

definition processDeflatedEntry ::
  "'z inflater \<Rightarrow> byte list \<Rightarrow> ZipEntry \<Rightarrow> nat \<Rightarrow> 'k process \<Rightarrow> 'k \<Rightarrow> world \<Rightarrow> (bool \<times> 'k \<times> world) ub"
where
  "processDeflatedEntry il za e pos pf k w = do {
     let (zerr, z) = inflateInit2 il;
     (result, k, w) \<leftarrow>
       (if zerr \<noteq> Z_OK then Some (- 1, k, w)
        else inflate_loop il za pf \<lparr>strm = z, avail_in = [], procBuf = [], total_out = 0,
          compRemaining = sint (compLen e), fd_pos = pos, pf_cookie = k, fd_world = w\<rparr>);
     Some (result = sint (uncompLen e), k, w)
   }"

text \<open>\<open>oldOff\<close> is the position of the descriptor, which is restored at the end.\<close>

definition mzProcessZipEntryContents ::
  "'z inflater \<Rightarrow> byte list \<Rightarrow> nat \<Rightarrow> ZipEntry \<Rightarrow> 'k process \<Rightarrow> 'k \<Rightarrow> world \<Rightarrow> (bool \<times> 'k \<times> world) ub"
where
  "mzProcessZipEntryContents il za oldOff e pf k w =
     (let pos = seek_entry (offset e) oldOff in
      if compression e = STORED then processStoredEntry za pos (unat (compLen e)) pf k w
      else if compression e = DEFLATED then processDeflatedEntry il za e pos pf k w
      else Some (False, k, w))"

section \<open>What the contents are given to\<close>

text \<open>The checksum; \<open>crc\<close> is zlib's \<open>crc32\<close>.\<close>

definition crcProcessFunction :: "(32 word \<Rightarrow> byte list \<Rightarrow> 32 word) \<Rightarrow> 32 word process" where
  "crcProcessFunction crc bs c w = Some (True, crc c bs, w)"

definition mzIsZipEntryIntact ::
  "'z inflater \<Rightarrow> (32 word \<Rightarrow> byte list \<Rightarrow> 32 word) \<Rightarrow> byte list \<Rightarrow> nat \<Rightarrow> ZipEntry \<Rightarrow> world
    \<Rightarrow> (bool \<times> world) ub" where
  "mzIsZipEntryIntact il crc za oldOff e w = do {
     (ret, c, w) \<leftarrow> mzProcessZipEntryContents il za oldOff e (crcProcessFunction crc) 0 w;
     if \<not> ret then Some (False, w)
     else if c \<noteq> crc32 e then Some (False, w)
     else Some (True, w)
   }"

text \<open>Copying into a buffer: what was copied, and the room that is left.\<close>

record CopyProcessArgs =
  copied :: "byte list"
  bufLen :: int

definition copyProcessFunction :: "CopyProcessArgs process" where
  "copyProcessFunction bs args w =
     (if int (length bs) \<le> bufLen args
      then Some (True, args\<lparr>copied := copied args @ bs, bufLen := bufLen args - int (length bs)\<rparr>, w)
      else Some (False, args, w))"

definition mzReadZipEntry ::
  "'z inflater \<Rightarrow> byte list \<Rightarrow> nat \<Rightarrow> ZipEntry \<Rightarrow> int \<Rightarrow> world \<Rightarrow> (bool \<times> byte list \<times> world) ub" where
  "mzReadZipEntry il za oldOff e len w = do {
     (ret, args, w) \<leftarrow> mzProcessZipEntryContents il za oldOff e copyProcessFunction
       \<lparr>copied = [], bufLen = len\<rparr> w;
     Some (ret, copied args, w)
   }"

lemma append_bytes_same_tape [simp]: "tape (append_bytes p bs w) = tape w"
  by (auto simp: append_bytes_def split: option.splits)

lemma write_file_tape: "write_file p bs w = (n, w') \<Longrightarrow> tape w' = tl (tape w)"
  by (auto simp: write_file_def draw_def split: event.splits list.splits)

lemma write_file_tape_le: "(n, w') = write_file p bs w \<Longrightarrow> length (tape w') \<le> length (tape w)"
  using write_file_tape [of p bs w n w'] by simp

lemma write_file_tape_less:
  "(n, w') = write_file p bs w \<Longrightarrow> fst (draw w) = Intr \<Longrightarrow> length (tape w') < length (tape w)"
  using write_file_tape [of p bs w n w'] by (cases "tape w") (auto simp: draw_def)

text \<open>
  Writing to a descriptor, which is the path of the open file.  An interrupted write is repeated; a
  write of nothing leaves \<open>errno\<close> as it was, taken here not to be \<open>EINTR\<close>.
\<close>

function write_loop :: "path \<Rightarrow> byte list \<Rightarrow> nat \<Rightarrow> world \<Rightarrow> bool \<times> world" where
  "write_loop fd bs soFar w =
     (case write_file fd (drop soFar bs) w of
        (n, w') \<Rightarrow>
          if n \<le> 0 then
            if fst (draw w) = Intr then write_loop fd bs soFar w' else (False, w')
          else
            let soFar = soFar + nat n in
            if soFar = length bs then (True, w')
            else if soFar > length bs then (False, w')
            else write_loop fd bs soFar w')"
  by pat_completeness auto

termination
  by (relation "measure (\<lambda>(fd, bs, soFar, w). length bs - soFar + length (tape w))")
    (auto dest: write_file_tape_less write_file_tape_le)

declare write_loop.simps [simp del]

definition writeProcessFunction :: "path process" where
  "writeProcessFunction bs fd w = (case write_loop fd bs 0 w of (r, w) \<Rightarrow> Some (r, fd, w))"

definition mzExtractZipEntryToFile ::
  "'z inflater \<Rightarrow> byte list \<Rightarrow> nat \<Rightarrow> ZipEntry \<Rightarrow> path \<Rightarrow> world \<Rightarrow> (bool \<times> world) ub" where
  "mzExtractZipEntryToFile il za oldOff e fd w = do {
     (ret, fd, w) \<leftarrow> mzProcessZipEntryContents il za oldOff e writeProcessFunction fd w;
     Some (ret, w)
   }"

text \<open>
  Filling a buffer of \<open>capacity\<close> bytes: the length is counted down but not looked at, and bytes behind
  the end of the buffer are undefined.
\<close>

record BufferExtractCookie =
  bec_buffer :: "byte list"
  bec_len :: int

definition bufferProcessFunction :: "nat \<Rightarrow> BufferExtractCookie process" where
  "bufferProcessFunction capacity bs bec w =
     (if length (bec_buffer bec) + length bs > capacity then None
      else Some (True, bec\<lparr>bec_buffer := bec_buffer bec @ bs, bec_len := bec_len bec - int (length bs)\<rparr>, w))"

definition mzExtractZipEntryToBuffer ::
  "'z inflater \<Rightarrow> byte list \<Rightarrow> nat \<Rightarrow> ZipEntry \<Rightarrow> nat \<Rightarrow> world \<Rightarrow> (bool \<times> byte list \<times> world) ub" where
  "mzExtractZipEntryToBuffer il za oldOff e capacity w = do {
     (ret, bec, w) \<leftarrow> mzProcessZipEntryContents il za oldOff e (bufferProcessFunction capacity)
       \<lparr>bec_buffer = [], bec_len = sint (uncompLen e)\<rparr> w;
     Some (ret \<and> bec_len bec = 0, bec_buffer bec, w)
   }"

declare inflate_loop.simps [code]

section \<open>The contract of a processing function\<close>

text \<open>
  What streaming an entry needs of the function it is given: the bytes of an accepted call are absorbed
  by what \<open>view\<close> shows, and every call stays inside \<open>frame\<close>.
\<close>

locale entry_consumer =
  fixes pf :: "'k process" and view :: "'k \<Rightarrow> world \<Rightarrow> 'v" and absorb :: "'v \<Rightarrow> byte list \<Rightarrow> 'v"
    and valid :: "'k \<Rightarrow> world \<Rightarrow> bool" and frame :: "'k \<Rightarrow> world \<Rightarrow> 'k \<Rightarrow> world \<Rightarrow> bool"
  assumes absorb_Nil: "absorb v [] = v"
    and absorb_append: "absorb v (a @ b) = absorb (absorb v a) b"
    and tape_view: "view k (w\<lparr>tape := t\<rparr>) = view k w" "valid k (w\<lparr>tape := t\<rparr>) = valid k w"
    and frame_tape: "frame k w k (w\<lparr>tape := t\<rparr>)"
    and frame_trans: "frame k w k1 w1 \<Longrightarrow> frame k1 w1 k2 w2 \<Longrightarrow> frame k w k2 w2"
    and pf_frame: "valid k w \<Longrightarrow> pf bs k w = Some (r, k', w') \<Longrightarrow> valid k' w' \<and> frame k w k' w'"
    and pf_accepts: "valid k w \<Longrightarrow> pf bs k w = Some (True, k', w') \<Longrightarrow> view k' w' = absorb (view k w) bs"

text \<open>
  The documented behaviour of \<open>inflate\<close>: the output and the input consumed are within what was offered,
  and what a stream decodes, given by \<open>dec\<close>, does not depend on how its input is cut.
\<close>

definition inflater_ok :: "'z inflater \<Rightarrow> ('z \<Rightarrow> byte list \<Rightarrow> byte list option) \<Rightarrow> bool" where
  "inflater_ok il dec \<longleftrightarrow> (\<forall>z avail n rc used out z'. inflate il z avail n = (rc, used, out, z') \<longrightarrow>
     length out \<le> n \<and> used \<le> length avail
     \<and> (\<forall>more. (rc = Z_OK \<longrightarrow> dec z (avail @ more) = map_option ((@) out) (dec z' (drop used avail @ more)))
         \<and> (rc = Z_STREAM_END \<longrightarrow> dec z (avail @ more) = Some out)))"

text \<open>The contents of an entry.\<close>

definition entry_source :: "byte list \<Rightarrow> ZipEntry \<Rightarrow> byte list" where
  "entry_source za e = take (unat (compLen e)) (drop (nat (sint (offset e))) za)"

definition entry_data ::
  "'z inflater \<Rightarrow> ('z \<Rightarrow> byte list \<Rightarrow> byte list option) \<Rightarrow> byte list \<Rightarrow> ZipEntry \<Rightarrow> byte list option" where
  "entry_data il dec za e =
     (if compression e = STORED then
        if length (entry_source za e) = unat (compLen e) then Some (entry_source za e) else None
      else if compression e = DEFLATED then dec (snd (inflateInit2 il)) (entry_source za e)
      else None)"

lemma read_fd_tape: "read_fd za pos n w = (r, w') \<Longrightarrow> w' = w\<lparr>tape := tl (tape w)\<rparr>"
  by (auto simp: read_fd_def draw_def split: event.splits)

lemma read_fd_full:
  assumes "read_fd za pos n w = (Some bs, w')" "length bs = n"
  shows "bs = take n (drop pos za)"
  using assms by (auto simp: read_fd_def draw_def split: event.splits list.splits)
    (metis length_take min.absorb1 min.cobounded1 min.cobounded2 take_all_iff linorder_le_cases min_def nle_le)+

lemma refill_result:
  assumes "refill za avail c pos w = Some (Some (avail', c', pos'), w')"
  shows "avail' @ take (nat c') (drop pos' za) = avail @ take (nat c) (drop pos za)"
proof (cases "avail = []")
  case False
  with assms show ?thesis by (auto simp: refill_def)
next
  case True
  define g where "g = (if c > int CHUNK then int CHUNK else c)"
  obtain r w1 where rd: "read_fd za pos (nat g) w = (r, w1)" by (cases "read_fd za pos (nat g) w")
  from assms True rd obtain bs where bs: "r = Some bs" "int (length bs) = g" "0 \<le> g"
    "avail' = bs" "c' = c - g" "pos' = pos + length bs"
    by (auto simp: refill_def Let_def g_def [symmetric] split: option.splits if_splits)
  have "g \<le> c" by (auto simp: g_def)
  then have n: "nat c = length bs + nat c'" "nat g = length bs" using bs by auto
  have "bs = take (length bs) (drop pos za)"
    using read_fd_full [of za pos "length bs" w bs w1] rd bs(1) n(2) by simp
  moreover have "take (nat c) (drop pos za)
    = take (length bs) (drop pos za) @ take (nat c') (drop (pos + length bs) za)"
    unfolding n(1) take_add by (simp add: add.commute)
  ultimately show ?thesis using bs True by simp
qed

lemma refill_tape: "refill za avail c pos w = Some (r, w') \<Longrightarrow> \<exists>t. w' = w\<lparr>tape := t\<rparr>"
  by (auto simp: refill_def Let_def split: if_splits prod.splits dest!: read_fd_tape
      intro: exI [of _ "tape w"])

lemma inflate_loop_induct:
  assumes "inflate_loop il za pf st = Some y"
    and stop: "\<And>st y. inflate_step il za pf st = Some (Inl y) \<Longrightarrow> P st y"
    and go: "\<And>st st' y. inflate_step il za pf st = Some (Inr st') \<Longrightarrow> P st' y \<Longrightarrow> P st y"
  shows "P st y"
proof -
  have "il' = il \<and> za' = za \<and> pf' = pf \<longrightarrow> P st y"
    if "inflate_loop il' za' pf' st = Some y" for il' za' pf' st y
  proof (rule inflate_loop.raw_induct [where P = "\<lambda>il' za' pf' st y. il' = il \<and> za' = za \<and> pf' = pf \<longrightarrow> P st y",
        OF _ that])
    fix f il' za' pf' st y
    assume IH: "\<And>il' za' pf' st y. f il' za' pf' st = Some y \<Longrightarrow> il' = il \<and> za' = za \<and> pf' = pf \<longrightarrow> P st y"
      and eq: "(inflate_step il' za' pf' st \<bind>
        (\<lambda>r. case r of Inl result \<Rightarrow> Some result | Inr st \<Rightarrow> f il' za' pf' st)) = Some y"
    show "il' = il \<and> za' = za \<and> pf' = pf \<longrightarrow> P st y"
    proof (intro impI; elim conjE)
      assume same: "il' = il" "za' = za" "pf' = pf"
      from eq obtain r where r: "inflate_step il za pf st = Some r"
        "(case r of Inl result \<Rightarrow> Some result | Inr st \<Rightarrow> f il za pf st) = Some y"
        unfolding same by (cases "inflate_step il za pf st") auto
      show "P st y"
      proof (cases r)
        case (Inl v)
        with r stop show ?thesis by simp
      next
        case (Inr st')
        with r IH have "P st' y" by auto
        with r(1) Inr go show ?thesis by blast
      qed
    qed
  qed
  with assms(1) show ?thesis by blast
qed

lemma sint_inject: "sint (a :: 32 word) = sint b \<longleftrightarrow> a = b"
  by (metis word_eq_iff_signed)

lemma CHUNK_pos [simp]: "0 < CHUNK"
  by (simp add: CHUNK_def)

context entry_consumer
begin

lemma frame_refl: "frame k w k w"
  using frame_tape [of k w "tape w"] by simp

lemma processStoredEntry_spec:
  assumes "processStoredEntry za pos n pf k w = Some (r, k', w')" "valid k w"
  shows "valid k' w' \<and> frame k w k' w'
    \<and> (r \<longrightarrow> length (take n (drop pos za)) = n \<and> view k' w' = absorb (view k w) (take n (drop pos za)))"
  using assms
proof (induction n arbitrary: pos k w rule: less_induct)
  case (less n)
  show ?case
  proof (cases "n = 0")
    case True
    with less.prems show ?thesis
      by (subst (asm) processStoredEntry.simps) (auto simp: absorb_Nil frame_refl)
  next
    case False
    let ?c = "min n CHUNK"
    obtain b w1 where rd: "read_fd za pos ?c w = (b, w1)" by (cases "read_fd za pos ?c w")
    note w1 = read_fd_tape [OF rd]
    have v1: "valid k w1" "view k w1 = view k w" "frame k w k w1"
      using less.prems(2) tape_view frame_tape unfolding w1 by auto
    note step = less.prems(1) [unfolded processStoredEntry.simps [of za pos n]]
    consider (bad) "r = False" "k' = k" "w' = w1"
      | (good) buf where "b = Some buf" "length buf = ?c"
          "pf buf k w1 \<bind> (\<lambda>(ret, k, w). if \<not> ret then Some (False, k, w)
             else processStoredEntry za (pos + ?c) (n - ?c) pf k w) = Some (r, k', w')"
      using step False rd by (auto simp: Let_def split: option.splits if_splits)
    then show ?thesis
    proof cases
      case bad
      with v1 show ?thesis by simp
    next
      case good
      then obtain ret k1 w2 where p: "pf buf k w1 = Some (ret, k1, w2)"
        by (cases "pf buf k w1") auto
      note f1 = pf_frame [OF v1(1) p]
      show ?thesis
      proof (cases ret)
        case False
        with good p f1 v1 frame_trans show ?thesis by auto
      next
        case True
        have buf: "buf = take ?c (drop pos za)" using read_fd_full rd good(1,2) by blast
        have "n - ?c < n" using False by simp
        moreover have "processStoredEntry za (pos + ?c) (n - ?c) pf k1 w2 = Some (r, k', w')"
          using good(3) p True by simp
        ultimately have IH: "valid k' w' \<and> frame k1 w2 k' w'
          \<and> (r \<longrightarrow> length (take (n - ?c) (drop (pos + ?c) za)) = n - ?c
              \<and> view k' w' = absorb (view k1 w2) (take (n - ?c) (drop (pos + ?c) za)))"
          using less.IH f1 by blast
        have parts: "take n (drop pos za) = take ?c (drop pos za) @ take (n - ?c) (drop (pos + ?c) za)"
          using take_add [of ?c "n - ?c" "drop pos za"] by (simp add: add.commute)
        have view1: "view k1 w2 = absorb (view k w) (take ?c (drop pos za))"
          using pf_accepts [OF v1(1)] p True v1(2) buf by simp
        have len1: "length (take ?c (drop pos za)) = ?c" using good(2) buf by simp
        have "length (take n (drop pos za)) = n" if "length (take (n - ?c) (drop (pos + ?c) za)) = n - ?c"
          unfolding parts length_append len1 that by simp
        moreover have "view k' w' = absorb (view k w) (take n (drop pos za))"
          if "view k' w' = absorb (view k1 w2) (take (n - ?c) (drop (pos + ?c) za))"
          unfolding that view1 parts absorb_append ..
        moreover have "frame k w k' w'"
          using frame_trans [OF v1(3) frame_trans [OF conjunct2 [OF f1]]] IH by blast
        ultimately show ?thesis using IH by blast
      qed
    qed
  qed
qed

lemma flush_output_spec:
  assumes "flush_output pf e out k w = Some (ret, buf, k', w')" "valid k w"
  shows "valid k' w'" "frame k w k' w'"
    "ret \<Longrightarrow> absorb (view k w) (out @ d) = absorb (view k' w') (buf @ d)"
    "ret \<Longrightarrow> length out \<le> CHUNK \<Longrightarrow> length buf < CHUNK" "ret \<Longrightarrow> e \<Longrightarrow> buf = []"
proof -
  consider (kept) "ret" "buf = out" "k' = k" "w' = w" "length out \<noteq> CHUNK" "e \<longrightarrow> out = []"
    | (given) "pf out k w = Some (ret, k', w')" "buf = []"
    using assms(1) by (auto simp: flush_output_def split: if_splits bind_splits)
  then have "valid k' w' \<and> frame k w k' w'
    \<and> (ret \<longrightarrow> absorb (view k w) (out @ d) = absorb (view k' w') (buf @ d))
    \<and> (ret \<and> length out \<le> CHUNK \<longrightarrow> length buf < CHUNK) \<and> (ret \<and> e \<longrightarrow> buf = [])"
  proof cases
    case kept
    with assms(2) show ?thesis by (auto simp: frame_refl)
  next
    case given
    with pf_frame [OF assms(2) given(1)] pf_accepts [OF assms(2), of out k' w'] show ?thesis
      by (auto simp: absorb_append)
  qed
  then show "valid k' w'" "frame k w k' w'"
    "ret \<Longrightarrow> absorb (view k w) (out @ d) = absorb (view k' w') (buf @ d)"
    "ret \<Longrightarrow> length out \<le> CHUNK \<Longrightarrow> length buf < CHUNK" "ret \<Longrightarrow> e \<Longrightarrow> buf = []" by blast+
qed

text \<open>What the rest of the stream decodes to is all that is still to be absorbed.\<close>

lemma inflate_step_spec:
  assumes "inflate_step il za pf st = Some r" "valid (pf_cookie st) (fd_world st)"
    and "inflater_ok il dec" "length (procBuf st) < CHUNK"
  shows "case r of
      Inl (result, k', w') \<Rightarrow> valid k' w' \<and> frame (pf_cookie st) (fd_world st) k' w'
        \<and> (result \<noteq> - 1 \<longrightarrow> (\<exists>d. dec (strm st) (avail_in st @ take (nat (compRemaining st)) (drop (fd_pos st) za)) = Some d
            \<and> view k' w' = absorb (view (pf_cookie st) (fd_world st)) (procBuf st @ d)
            \<and> result = sint (total_out st + word_of_nat (length d))))
    | Inr st' \<Rightarrow> valid (pf_cookie st') (fd_world st')
        \<and> frame (pf_cookie st) (fd_world st) (pf_cookie st') (fd_world st') \<and> length (procBuf st') < CHUNK
        \<and> (\<forall>d'. dec (strm st') (avail_in st' @ take (nat (compRemaining st')) (drop (fd_pos st') za)) = Some d' \<longrightarrow>
            (\<exists>d. dec (strm st) (avail_in st @ take (nat (compRemaining st)) (drop (fd_pos st) za)) = Some d
             \<and> absorb (view (pf_cookie st) (fd_world st)) (procBuf st @ d)
               = absorb (view (pf_cookie st') (fd_world st')) (procBuf st' @ d')
             \<and> total_out st + word_of_nat (length d) = total_out st' + word_of_nat (length d')))"
proof -
  let ?k = "pf_cookie st" and ?w = "fd_world st"
  let ?src = "avail_in st @ take (nat (compRemaining st)) (drop (fd_pos st) za)"
  obtain q w1 where rf: "refill za (avail_in st) (compRemaining st) (fd_pos st) ?w = Some (q, w1)"
    using assms(1) by (auto simp: inflate_step_def Let_def split: bind_splits)
  from refill_tape [OF rf] obtain t where t: "w1 = ?w\<lparr>tape := t\<rparr>" ..
  have v1: "valid ?k w1" "view ?k w1 = view ?k ?w" "frame ?k ?w ?k w1"
    using assms(2) tape_view frame_tape unfolding t by auto
  show ?thesis
  proof (cases q)
    case None
    with assms(1) rf v1 show ?thesis by (auto simp: inflate_step_def)
  next
    case (Some tup)
    then obtain avail crem pos where q: "q = Some (avail, crem, pos)" by (cases tup) auto
    obtain zerr used out z where i: "inflate il (strm st) avail (CHUNK - length (procBuf st)) = (zerr, used, out, z)"
      by (cases "inflate il (strm st) avail (CHUNK - length (procBuf st))") auto
    let ?more = "take (nat crem) (drop pos za)"
    have src: "?src = avail @ ?more" using refill_result [OF rf [unfolded q]] by simp
    have ok: "length out \<le> CHUNK - length (procBuf st)"
      "zerr = Z_OK \<Longrightarrow> dec (strm st) ?src = map_option ((@) out) (dec z (drop used avail @ ?more))"
      "zerr = Z_STREAM_END \<Longrightarrow> dec (strm st) ?src = Some out"
      using assms(3) i unfolding inflater_ok_def src by blast+
    show ?thesis
    proof (cases "zerr = Z_OK \<or> zerr = Z_STREAM_END")
      case False
      with assms(1) rf q i v1 show ?thesis by (auto simp: inflate_step_def)
    next
      case True
      with assms(1) rf q i obtain ret buf k2 w2 where
        fl: "flush_output pf (zerr = Z_STREAM_END) (procBuf st @ out) ?k w1 = Some (ret, buf, k2, w2)"
        and r: "r = (if \<not> ret then Inl (- 1, k2, w2) else if zerr = Z_OK
          then Inr \<lparr>strm = z, avail_in = drop used avail, procBuf = buf,
            total_out = total_out st + word_of_nat (length out), compRemaining = crem, fd_pos = pos,
            pf_cookie = k2, fd_world = w2\<rparr>
          else Inl (sint (total_out st + word_of_nat (length out)), k2, w2))"
        by (auto simp: inflate_step_def Let_def split: bind_splits)
      note F = flush_output_spec [OF fl v1(1)]
      have fr: "frame ?k ?w k2 w2" using frame_trans v1(3) F(2) by blast
      show ?thesis
      proof (cases "ret \<and> zerr = Z_OK")
        case True
        have "length (procBuf st @ out) \<le> CHUNK" using ok(1) assms(4) by simp
        with True F(1,4) fr r ok(2) F(3) v1(2) show ?thesis by fastforce
      next
        case False
        show ?thesis
        proof (cases ret)
          case True
          with False \<open>zerr = Z_OK \<or> zerr = Z_STREAM_END\<close> have e: "zerr = Z_STREAM_END" "\<not> zerr = Z_OK" by auto
          have "view k2 w2 = absorb (view ?k ?w) (procBuf st @ out)"
            using F(3) [of "[]"] F(5) True e(1) v1(2) by (simp add: absorb_Nil)
          with True e F(1) fr r ok(3) show ?thesis by simp
        qed (use F(1) fr r in simp)
      qed
    qed
  qed
qed

lemma inflate_loop_spec:
  assumes "inflate_loop il za pf st = Some (result, k', w')" "valid (pf_cookie st) (fd_world st)"
    and "inflater_ok il dec" "length (procBuf st) < CHUNK"
  shows "valid k' w' \<and> frame (pf_cookie st) (fd_world st) k' w'
    \<and> (result \<noteq> - 1 \<longrightarrow> (\<exists>d. dec (strm st) (avail_in st @ take (nat (compRemaining st)) (drop (fd_pos st) za)) = Some d
        \<and> view k' w' = absorb (view (pf_cookie st) (fd_world st)) (procBuf st @ d)
        \<and> result = sint (total_out st + word_of_nat (length d))))"
proof -
  let ?P = "\<lambda>st y. valid (pf_cookie st) (fd_world st) \<and> length (procBuf st) < CHUNK \<longrightarrow> (case y of (result, k', w') \<Rightarrow>
    valid k' w' \<and> frame (pf_cookie st) (fd_world st) k' w'
    \<and> (result \<noteq> - 1 \<longrightarrow> (\<exists>d. dec (strm st) (avail_in st @ take (nat (compRemaining st)) (drop (fd_pos st) za)) = Some d
        \<and> view k' w' = absorb (view (pf_cookie st) (fd_world st)) (procBuf st @ d)
        \<and> result = sint (total_out st + word_of_nat (length d)))))"
  have "?P st (result, k', w')"
    using assms(1)
  proof (rule inflate_loop_induct)
    fix st y assume "inflate_step il za pf st = Some (Inl y)"
    then show "?P st y" using inflate_step_spec [OF _ _ assms(3), of za st "Inl y"] by auto
  next
    fix st st' y assume h: "inflate_step il za pf st = Some (Inr st')" and IH: "?P st' y"
    show "?P st y"
    proof (cases y, intro impI, elim conjE)
      fix result k' w'
      assume y: "y = (result, k', w')" and v: "valid (pf_cookie st) (fd_world st)" "length (procBuf st) < CHUNK"
      note S = inflate_step_spec [OF h v(1) assms(3) v(2), simplified]
      from IH S y have I: "valid k' w'" "frame (pf_cookie st') (fd_world st') k' w'"
        "result \<noteq> - 1 \<Longrightarrow> (\<exists>d. dec (strm st') (avail_in st' @ take (nat (compRemaining st')) (drop (fd_pos st') za)) = Some d
          \<and> view k' w' = absorb (view (pf_cookie st') (fd_world st')) (procBuf st' @ d)
          \<and> result = sint (total_out st' + word_of_nat (length d)))" by auto
      have "\<exists>d. dec (strm st) (avail_in st @ take (nat (compRemaining st)) (drop (fd_pos st) za)) = Some d
          \<and> view k' w' = absorb (view (pf_cookie st) (fd_world st)) (procBuf st @ d)
          \<and> result = sint (total_out st + word_of_nat (length d))" if "result \<noteq> - 1"
        using I(3) [OF that] S by metis
      moreover have "frame (pf_cookie st) (fd_world st) k' w'" using S I(2) frame_trans by blast
      ultimately show "case y of (result, k', w') \<Rightarrow>
        valid k' w' \<and> frame (pf_cookie st) (fd_world st) k' w'
        \<and> (result \<noteq> - 1 \<longrightarrow> (\<exists>d. dec (strm st) (avail_in st @ take (nat (compRemaining st)) (drop (fd_pos st) za)) = Some d
          \<and> view k' w' = absorb (view (pf_cookie st) (fd_world st)) (procBuf st @ d)
          \<and> result = sint (total_out st + word_of_nat (length d))))" using I(1) y by simp
    qed
  qed
  with assms(2,4) show ?thesis by simp
qed

text \<open>
  Streaming an entry: it stays inside the frame, and when it reports success the contents of the entry
  were absorbed.  A deflated entry that declares a size of -1 is excluded: its failure counts as success.
\<close>

lemma mzProcessZipEntryContents_spec:
  assumes "mzProcessZipEntryContents il za oldOff e pf k w = Some (r, k', w')" "valid k w"
    and "inflater_ok il dec" "0 \<le> sint (offset e)" "uncompLen e \<noteq> - 1"
  shows "valid k' w' \<and> frame k w k' w'
    \<and> (r \<longrightarrow> (\<exists>d. entry_data il dec za e = Some d \<and> view k' w' = absorb (view k w) d
        \<and> (compression e = DEFLATED \<longrightarrow> word_of_nat (length d) = uncompLen e)))"
proof -
  have pos: "seek_entry (offset e) oldOff = nat (sint (offset e))"
    using assms(4) by (simp add: seek_entry_def)
  consider (stored) "compression e = STORED" | (deflated) "compression e = DEFLATED" "compression e \<noteq> STORED"
    | (other) "compression e \<noteq> STORED" "compression e \<noteq> DEFLATED" by blast
  then show ?thesis
  proof cases
    case stored
    have "STORED \<noteq> DEFLATED" by (simp add: STORED_def DEFLATED_def)
    with stored assms(1) pos processStoredEntry_spec [of za _ "unat (compLen e)" k w r k' w'] assms(2)
    show ?thesis by (auto simp: mzProcessZipEntryContents_def entry_data_def entry_source_def Let_def)
  next
    case deflated
    let ?pos = "nat (sint (offset e))"
    from assms(1) deflated pos have d: "processDeflatedEntry il za e ?pos pf k w = Some (r, k', w')"
      by (simp add: mzProcessZipEntryContents_def Let_def)
    obtain zerr z where i: "inflateInit2 il = (zerr, z)" by (cases "inflateInit2 il")
    have neq: "sint (uncompLen e) \<noteq> - 1" using assms(5) by (metis sint_n1 sint_inject)
    show ?thesis
    proof (cases "zerr = Z_OK")
      case False
      with d i neq assms(2) show ?thesis by (auto simp: processDeflatedEntry_def Let_def frame_refl)
    next
      case True
      let ?st = "\<lparr>strm = z, avail_in = [], procBuf = [], total_out = 0,
          compRemaining = sint (compLen e), fd_pos = ?pos, pf_cookie = k, fd_world = w\<rparr>"
      from d i True obtain result where l: "inflate_loop il za pf ?st = Some (result, k', w')"
        and r: "r \<longleftrightarrow> result = sint (uncompLen e)"
        by (auto simp: processDeflatedEntry_def Let_def split: bind_splits)
      have "\<not> sint (compLen e) < 0"
      proof
        assume "sint (compLen e) < 0"
        then have "inflate_step il za pf ?st = None"
          by (simp add: inflate_step_def refill_def Let_def CHUNK_def)
        with l show False by (subst (asm) inflate_loop.simps) simp
      qed
      then have n: "nat (sint (compLen e)) = unat (compLen e)"
        by (metis nat_int not_less unat_of_nonneg)
      have "valid k' w' \<and> frame k w k' w' \<and> (result \<noteq> - 1 \<longrightarrow>
        (\<exists>d. dec z (entry_source za e) = Some d \<and> view k' w' = absorb (view k w) d
          \<and> result = sint (word_of_nat (length d) :: 32 word)))"
        using inflate_loop_spec [OF l _ assms(3)] assms(2) n by (simp add: entry_source_def)
      with r neq deflated i show ?thesis by (auto simp: entry_data_def) (metis sint_inject)
    qed
  next
    case other
    with assms(1,2) show ?thesis by (auto simp: mzProcessZipEntryContents_def Let_def frame_refl)
  qed
qed

lemma mzProcessZipEntryContents_frame:
  assumes "mzProcessZipEntryContents il za oldOff e pf k w = Some (r, k', w')" "valid k w"
  shows "valid k' w' \<and> frame k w k' w'"
proof -
  have step: "case q of Inl (_, k', w') \<Rightarrow> valid k' w' \<and> frame (pf_cookie st) (fd_world st) k' w'
      | Inr st' \<Rightarrow> valid (pf_cookie st') (fd_world st')
          \<and> frame (pf_cookie st) (fd_world st) (pf_cookie st') (fd_world st')"
    if q: "inflate_step il za pf st = Some q" and v: "valid (pf_cookie st) (fd_world st)" for st q
  proof -
    obtain a w1 where rf: "refill za (avail_in st) (compRemaining st) (fd_pos st) (fd_world st) = Some (a, w1)"
      using q by (auto simp: inflate_step_def Let_def split: bind_splits)
    from refill_tape [OF rf] obtain t where t: "w1 = fd_world st\<lparr>tape := t\<rparr>" ..
    have v1: "valid (pf_cookie st) w1" "frame (pf_cookie st) (fd_world st) (pf_cookie st) w1"
      using v tape_view frame_tape unfolding t by auto
    have fl: "valid k2 w2 \<and> frame (pf_cookie st) (fd_world st) k2 w2"
      if "flush_output pf b out (pf_cookie st) w1 = Some (ret, buf, k2, w2)" for b out ret buf k2 w2
      using flush_output_spec(1,2) [OF that v1(1)] frame_trans v1(2) by blast
    from q rf v1 show ?thesis
      by (auto simp: inflate_step_def Let_def split: bind_splits option.splits prod.splits if_splits dest!: fl)
  qed
  have loop: "valid (pf_cookie st) (fd_world st) \<longrightarrow> (case y of (_, k', w') \<Rightarrow>
      valid k' w' \<and> frame (pf_cookie st) (fd_world st) k' w')"
    if "inflate_loop il za pf st = Some y" for st y
    using that
  proof (rule inflate_loop_induct)
    fix st y assume "inflate_step il za pf st = Some (Inl y)"
    with step [OF this] show "valid (pf_cookie st) (fd_world st) \<longrightarrow> (case y of (_, k', w') \<Rightarrow>
      valid k' w' \<and> frame (pf_cookie st) (fd_world st) k' w')" by auto
  next
    fix st st' y assume a: "inflate_step il za pf st = Some (Inr st')"
      and "valid (pf_cookie st') (fd_world st') \<longrightarrow> (case y of (_, k', w') \<Rightarrow>
        valid k' w' \<and> frame (pf_cookie st') (fd_world st') k' w')"
    with step [OF a] frame_trans show "valid (pf_cookie st) (fd_world st) \<longrightarrow> (case y of (_, k', w') \<Rightarrow>
      valid k' w' \<and> frame (pf_cookie st) (fd_world st) k' w')" by (auto split: prod.splits)
  qed
  consider (stored) "compression e = STORED" | (deflated) "compression e = DEFLATED" "compression e \<noteq> STORED"
    | (other) "compression e \<noteq> STORED" "compression e \<noteq> DEFLATED" by blast
  then show ?thesis
  proof cases
    case stored
    with assms processStoredEntry_spec [of za _ "unat (compLen e)" k w r k' w'] show ?thesis
      by (simp add: mzProcessZipEntryContents_def Let_def)
  next
    case deflated
    with assms(1) have "processDeflatedEntry il za e (seek_entry (offset e) oldOff) pf k w = Some (r, k', w')"
      by (simp add: mzProcessZipEntryContents_def Let_def)
    with assms(2) loop show ?thesis
      by (fastforce simp: processDeflatedEntry_def Let_def frame_refl split: bind_splits if_splits prod.splits)
  next
    case other
    with assms show ?thesis by (auto simp: mzProcessZipEntryContents_def Let_def frame_refl)
  qed
qed

end

end
