(* ===== verification/ZipReaders.thy ===== *)
theory ZipReaders
  imports ZipContents
begin

text \<open>
  The four processing functions of \<open>minzip/Zip.c\<close> keep the contract of \<open>entry_consumer\<close>: what the
  functions that use them deliver, when they report success, is the contents of the entry; and on a
  quiet system the extraction of a sound entry to a file ends with success.
\<close>

section \<open>The contract holds\<close>

text \<open>Calls that only read leave the file system alone.\<close>

definition no_change :: "world \<Rightarrow> world \<Rightarrow> bool" where
  "no_change w w' \<longleftrightarrow> touches (\<lambda>_. False) w w'"

definition copy_frame :: "CopyProcessArgs \<Rightarrow> world \<Rightarrow> CopyProcessArgs \<Rightarrow> world \<Rightarrow> bool" where
  "copy_frame a w a' w' \<longleftrightarrow> no_change w w' \<and> (0 \<le> bufLen a \<longrightarrow> 0 \<le> bufLen a')
     \<and> int (length (copied a')) + bufLen a' = int (length (copied a)) + bufLen a"

lemma no_change_trans: "no_change w w1 \<Longrightarrow> no_change w1 w2 \<Longrightarrow> no_change w w2"
  unfolding no_change_def by (rule touches_trans)

interpretation copying: entry_consumer copyProcessFunction "\<lambda>a w. copied a" "(@)" "\<lambda>_ _. True" copy_frame
  by unfold_locales (auto simp: copyProcessFunction_def copy_frame_def no_change_def
      split: if_splits intro: touches_trans)

definition buffer_frame :: "BufferExtractCookie \<Rightarrow> world \<Rightarrow> BufferExtractCookie \<Rightarrow> world \<Rightarrow> bool" where
  "buffer_frame b w b' w' \<longleftrightarrow> no_change w w'
     \<and> int (length (bec_buffer b')) + bec_len b' = int (length (bec_buffer b)) + bec_len b"

interpretation filling: entry_consumer "bufferProcessFunction capacity" "\<lambda>b w. bec_buffer b" "(@)"
    "\<lambda>_ _. True" buffer_frame for capacity
  by unfold_locales (auto simp: bufferProcessFunction_def buffer_frame_def no_change_def
      split: if_splits intro: touches_trans)

text \<open>The file behind the descriptor grows by the bytes written.\<close>

definition grow :: "inode option \<Rightarrow> byte list \<Rightarrow> inode option" where
  "grow f bs = map_option (\<lambda>f. f\<lparr>content := content f @ bs\<rparr>) f"

lemma write_loop_spec:
  assumes "write_loop fd bs n w = (r, w')" "lookup w fd = Some f" "n \<le> length bs"
  shows "touches ((=) fd) w w' \<and> (\<exists>f'. lookup w' fd = Some f')
    \<and> (r \<longrightarrow> lookup w' fd = Some (f\<lparr>content := content f @ drop n bs\<rparr>))"
  using assms
proof (induction "length bs - n + length (tape w)" arbitrary: n w f rule: less_induct)
  case less
  obtain k w1 where wr: "write_file fd (drop n bs) w = (k, w1)" by (cases "write_file fd (drop n bs) w")
  note t = write_file_touches [OF wr] and tp = write_file_tape [OF wr]
  from write_file_result [OF wr less.prems(2)] show ?case
  proof (elim disjE exE conjE)
    assume k: "k < 0" and l: "lookup w1 fd = Some f"
    show ?thesis
    proof (cases "fst (draw w) = Intr")
      case True
      then have "length (tape w1) < length (tape w)" using tp by (cases "tape w") (auto simp: draw_def)
      moreover have "write_loop fd bs n w1 = (r, w')"
        using less.prems(1) True k wr by (subst (asm) write_loop.simps) simp
      ultimately have "touches ((=) fd) w1 w' \<and> (\<exists>f'. lookup w' fd = Some f')
        \<and> (r \<longrightarrow> lookup w' fd = Some (f\<lparr>content := content f @ drop n bs\<rparr>))"
        using less.hyps [of n w1 f] l less.prems(3) by simp
      with t show ?thesis using touches_trans by blast
    next
      case False
      with less.prems(1) k wr l t show ?thesis by (subst (asm) write_loop.simps) auto
    qed
  next
    fix m assume k: "k = int (length (take m (drop n bs)))"
      and l: "lookup w1 fd = Some (f\<lparr>content := content f @ take m (drop n bs)\<rparr>)"
    show ?thesis
    proof (cases "k \<le> 0")
      case True
      then have none: "take m (drop n bs) = []" using k by (metis length_0_conv of_nat_le_0_iff)
      show ?thesis
      proof (cases "fst (draw w) = Intr")
        case intr: True
        then have "length (tape w1) < length (tape w)" using tp by (cases "tape w") (auto simp: draw_def)
        moreover have "write_loop fd bs n w1 = (r, w')"
          using less.prems(1) True intr wr by (subst (asm) write_loop.simps) simp
        ultimately have "touches ((=) fd) w1 w' \<and> (\<exists>f'. lookup w' fd = Some f')
          \<and> (r \<longrightarrow> lookup w' fd = Some (f\<lparr>content := content f @ drop n bs\<rparr>))"
          using less.hyps [of n w1 f] l none less.prems(3) by simp
        with t show ?thesis using touches_trans by blast
      next
        case False
        with less.prems(1) True wr l t show ?thesis by (subst (asm) write_loop.simps) auto
      qed
    next
      case False
      let ?n = "n + nat k"
      have len: "nat k = length (take m (drop n bs))" "0 < nat k" using k False by auto
      have "nat k \<le> length bs - n" unfolding len(1) by simp
      then have bound: "?n \<le> length bs" using less.prems(3) by linarith
      have piece: "take m (drop n bs) = take (nat k) (drop n bs)"
        using len(1) by (metis length_take min.absorb_iff2 min.cobounded1 take_all_iff linorder_linear)
      have whole: "drop n bs = take m (drop n bs) @ drop ?n bs"
        unfolding piece by (metis add.commute append_take_drop_id drop_drop)
      have step: "write_loop fd bs n w = (if ?n = length bs then (True, w1) else write_loop fd bs ?n w1)"
        using wr False bound by (subst write_loop.simps) (simp add: Let_def)
      show ?thesis
      proof (cases "?n = length bs")
        case True
        with step less.prems(1) l t whole show ?thesis by simp
      next
        case not_all: False
        have "length (tape w1) \<le> length (tape w)" using tp by simp
        then have "length bs - ?n + length (tape w1) < length bs - n + length (tape w)"
          using len(2) bound by linarith
        from less.hyps [OF this _ l bound] step less.prems(1) not_all
        have "touches ((=) fd) w1 w' \<and> (\<exists>f'. lookup w' fd = Some f')
          \<and> (r \<longrightarrow> lookup w' fd = Some (f\<lparr>content := content f @ take m (drop n bs) @ drop ?n bs\<rparr>))"
          by simp
        with t touches_trans whole show ?thesis by auto
      qed
    qed
  qed
qed

interpretation writing: entry_consumer writeProcessFunction "\<lambda>fd w. lookup w fd" grow
    "\<lambda>fd w. lookup w fd \<noteq> None" "\<lambda>fd w fd' w'. fd' = fd \<and> touches ((=) fd) w w'"
proof unfold_locales
  fix v a b show "grow v [] = v" "grow v (a @ b) = grow (grow v a) b"
    by (cases v; simp add: grow_def)+
next
  fix k w k1 w1 k2 w2
  assume "k1 = k \<and> touches ((=) k) w w1" "k2 = k1 \<and> touches ((=) k1) w1 w2"
  then show "k2 = k \<and> touches ((=) k) w w2" using touches_trans by blast
next
  fix k w bs r k' w'
  assume "lookup w k \<noteq> None" "writeProcessFunction bs k w = Some (r, k', w')"
  then show "lookup w' k' \<noteq> None \<and> k' = k \<and> touches ((=) k) w w'"
    using write_loop_spec [of k bs 0 w r w'] by (auto simp: writeProcessFunction_def split: prod.splits)
next
  fix k w bs k' w'
  assume "lookup w k \<noteq> None" "writeProcessFunction bs k w = Some (True, k', w')"
  then show "lookup w' k' = grow (lookup w k) bs"
    using write_loop_spec [of k bs 0 w True w']
    by (auto simp: writeProcessFunction_def grow_def split: prod.splits)
qed simp_all

text \<open>The checksum is computed piecewise, which is the documented use of zlib's \<open>crc32\<close>.\<close>

definition crc_ok :: "(32 word \<Rightarrow> byte list \<Rightarrow> 32 word) \<Rightarrow> bool" where
  "crc_ok crc \<longleftrightarrow> (\<forall>c. crc c [] = c) \<and> (\<forall>c a b. crc c (a @ b) = crc (crc c a) b)"

lemma summing: "crc_ok crc \<Longrightarrow>
  entry_consumer (crcProcessFunction crc) (\<lambda>c w. c) crc (\<lambda>_ _. True) (\<lambda>_ w _ w'. no_change w w')"
  by unfold_locales (auto simp: crcProcessFunction_def crc_ok_def no_change_def intro: touches_trans)

lemma readers_deliver:
  assumes "inflater_ok il dec" "0 \<le> sint (offset e)" "uncompLen e \<noteq> - 1"
  shows "0 \<le> n \<Longrightarrow> mzReadZipEntry il za oldOff e n w = Some (True, buf, w') \<Longrightarrow>
      entry_data il dec za e = Some buf \<and> int (length buf) \<le> n"
    "mzExtractZipEntryToBuffer il za oldOff e capacity w = Some (True, buf, w') \<Longrightarrow>
      entry_data il dec za e = Some buf \<and> int (length buf) = sint (uncompLen e)"
    "mzExtractZipEntryToFile il za oldOff e fd w = Some (True, w') \<Longrightarrow> lookup w fd = Some f \<Longrightarrow>
      \<exists>d. entry_data il dec za e = Some d \<and> lookup w' fd = Some (f\<lparr>content := content f @ d\<rparr>)"
    "crc_ok crc \<Longrightarrow> mzIsZipEntryIntact il crc za oldOff e w = Some (True, w') \<Longrightarrow>
      \<exists>d. entry_data il dec za e = Some d \<and> crc 0 d = crc32 e"
proof -
  show "entry_data il dec za e = Some buf \<and> int (length buf) \<le> n"
    if "0 \<le> n" "mzReadZipEntry il za oldOff e n w = Some (True, buf, w')"
  proof -
    from that(2) obtain a where "mzProcessZipEntryContents il za oldOff e copyProcessFunction
      \<lparr>copied = [], bufLen = n\<rparr> w = Some (True, a, w')" "copied a = buf"
      by (auto simp: mzReadZipEntry_def split: bind_splits)
    with copying.mzProcessZipEntryContents_spec [OF this(1) _ assms] that(1) show ?thesis
      by (auto simp: copy_frame_def)
  qed
  show "entry_data il dec za e = Some buf \<and> int (length buf) = sint (uncompLen e)"
    if "mzExtractZipEntryToBuffer il za oldOff e capacity w = Some (True, buf, w')"
  proof -
    from that obtain b where "mzProcessZipEntryContents il za oldOff e (bufferProcessFunction capacity)
      \<lparr>bec_buffer = [], bec_len = sint (uncompLen e)\<rparr> w = Some (True, b, w')" "bec_buffer b = buf" "bec_len b = 0"
      by (auto simp: mzExtractZipEntryToBuffer_def split: bind_splits)
    with filling.mzProcessZipEntryContents_spec [OF this(1) _ assms] show ?thesis
      by (auto simp: buffer_frame_def)
  qed
  show "\<exists>d. entry_data il dec za e = Some d \<and> lookup w' fd = Some (f\<lparr>content := content f @ d\<rparr>)"
    if "mzExtractZipEntryToFile il za oldOff e fd w = Some (True, w')" "lookup w fd = Some f"
  proof -
    from that(1) obtain fd' where "mzProcessZipEntryContents il za oldOff e writeProcessFunction fd w
      = Some (True, fd', w')" by (auto simp: mzExtractZipEntryToFile_def split: bind_splits)
    with writing.mzProcessZipEntryContents_spec [OF this(1) _ assms] that(2) show ?thesis
      by (auto simp: grow_def)
  qed
  show "\<exists>d. entry_data il dec za e = Some d \<and> crc 0 d = crc32 e"
    if "crc_ok crc" "mzIsZipEntryIntact il crc za oldOff e w = Some (True, w')"
  proof -
    from that(2) have "mzProcessZipEntryContents il za oldOff e (crcProcessFunction crc) 0 w
      = Some (True, crc32 e, w')"
      by (auto simp: mzIsZipEntryIntact_def split: bind_splits if_splits)
    with entry_consumer.mzProcessZipEntryContents_spec [OF summing [OF that(1)] this _ assms] show ?thesis
      by auto
  qed
qed

lemma mzExtractZipEntryToFile_touches [touch]:
  assumes "mzExtractZipEntryToFile il za oldOff e fd w = Some (r, w')" "lookup w fd \<noteq> None"
  shows "touches ((=) fd) w w'"
proof -
  from assms(1) obtain fd' where "mzProcessZipEntryContents il za oldOff e writeProcessFunction fd w
    = Some (r, fd', w')" by (auto simp: mzExtractZipEntryToFile_def split: bind_splits)
  from writing.mzProcessZipEntryContents_frame [OF this assms(2)] show ?thesis by blast
qed

lemma mzReadZipEntry_touches:
  assumes "mzReadZipEntry il za oldOff e n w = Some (r, buf, w')"
  shows "touches P w w'"
proof -
  from assms obtain a where "mzProcessZipEntryContents il za oldOff e copyProcessFunction
    \<lparr>copied = [], bufLen = n\<rparr> w = Some (r, a, w')" by (auto simp: mzReadZipEntry_def split: bind_splits)
  from copying.mzProcessZipEntryContents_frame [OF this TrueI] show ?thesis
    by (auto simp: copy_frame_def no_change_def intro: touches_mono)
qed

section \<open>A quiet system\<close>

text \<open>A consumer that accepts what it is given when no call fails.\<close>

locale willing_consumer = entry_consumer pf view absorb valid frame
  for pf :: "'k process" and view :: "'k \<Rightarrow> world \<Rightarrow> 'v" and absorb :: "'v \<Rightarrow> byte list \<Rightarrow> 'v"
    and valid :: "'k \<Rightarrow> world \<Rightarrow> bool" and frame :: "'k \<Rightarrow> world \<Rightarrow> 'k \<Rightarrow> world \<Rightarrow> bool" +
  assumes pf_willing: "valid k w \<Longrightarrow> tape w = [] \<Longrightarrow> bs \<noteq> [] \<Longrightarrow>
    \<exists>k' w'. pf bs k w = Some (True, k', w') \<and> tape w' = []"

text \<open>
  On a stream that decodes, a call of \<open>inflate\<close> with room for output, and with input unless there is
  none left, is no error; it consumes input or takes from what the stream still holds back.
\<close>

definition inflater_live :: "'z inflater \<Rightarrow> ('z \<Rightarrow> byte list \<Rightarrow> byte list option) \<Rightarrow> ('z \<Rightarrow> nat) \<Rightarrow> bool" where
  "inflater_live il dec held \<longleftrightarrow> (\<forall>z avail n more d rc used out z'.
     0 < n \<and> (avail \<noteq> [] \<or> more = []) \<and> dec z (avail @ more) = Some d
       \<and> inflate il z avail n = (rc, used, out, z') \<longrightarrow>
     (rc = Z_OK \<or> rc = Z_STREAM_END) \<and> (rc = Z_OK \<longrightarrow> 0 < used \<or> held z' < held z))"

lemma read_fd_quiet: "tape w = [] \<Longrightarrow> read_fd za pos n w = (Some (take n (drop pos za)), w)"
  by (simp add: read_fd_def draw_def)

lemma refill_quiet:
  assumes "tape w = []" "0 \<le> c" "nat c \<le> length (drop pos za)"
  obtains avail' c' pos' where "refill za avail c pos w = Some (Some (avail', c', pos'), w)"
    "0 \<le> c'" "nat c' \<le> length (drop pos' za)" "avail' \<noteq> [] \<or> c' = 0"
    "length avail' + nat c' = length avail + nat c"
proof (cases "avail = []")
  case False
  with assms that [of avail c pos] show ?thesis by (simp add: refill_def)
next
  case True
  define g where "g = (if c > int CHUNK then int CHUNK else c)"
  have g: "0 \<le> g" "g \<le> c" "g = 0 \<longrightarrow> c = 0" using assms(2) CHUNK_pos by (auto simp: g_def)
  let ?b = "take (nat g) (drop pos za)"
  have len: "length ?b = nat g" using assms(3) g(2) nat_mono [OF g(2)] by simp
  have "refill za avail c pos w = Some (Some (?b, c - g, pos + nat g), w)"
    using True g(1) len assms(1) by (simp add: refill_def Let_def g_def [symmetric] read_fd_quiet)
  moreover have "nat (c - g) \<le> length (drop (pos + nat g) za)" using assms(3) g by simp
  moreover have "?b \<noteq> [] \<or> c - g = 0" using len g by auto
  moreover have "length ?b + nat (c - g) = length avail + nat c" using True len g by simp
  ultimately show ?thesis using g(2) by (intro that [of ?b "c - g" "pos + nat g"]) auto
qed

context willing_consumer
begin

lemma flush_output_quiet:
  assumes "valid k w" "tape w = []"
  shows "\<exists>buf k' w'. flush_output pf e out k w = Some (True, buf, k', w') \<and> tape w' = []"
proof (cases "length out = CHUNK \<or> e \<and> out \<noteq> []")
  case True
  then have "out \<noteq> []" by (auto simp: CHUNK_def)
  from pf_willing [OF assms this] obtain k' w' where "pf out k w = Some (True, k', w')" "tape w' = []" by blast
  with True show ?thesis by (simp add: flush_output_def)
next
  case False
  then have "flush_output pf e out k w = Some (True, out, k, w)" by (simp only: flush_output_def if_False)
  with assms(2) show ?thesis by blast
qed

lemma inflate_loop_quiet:
  assumes ok: "inflater_ok il dec" and live: "inflater_live il dec held"
    and "dec (strm st) (avail_in st @ take (nat (compRemaining st)) (drop (fd_pos st) za)) = Some d"
    and "valid (pf_cookie st) (fd_world st)" "tape (fd_world st) = []" "length (procBuf st) < CHUNK"
    and "0 \<le> compRemaining st" "nat (compRemaining st) \<le> length (drop (fd_pos st) za)"
  shows "\<exists>k' w'. inflate_loop il za pf st = Some (sint (total_out st + word_of_nat (length d)), k', w')
    \<and> tape w' = []"
proof -
  let ?R = "inv_image (less_than <*lex*> less_than)
    (\<lambda>st. (length (avail_in st) + nat (compRemaining st), held (strm st)))"
  have "wf ?R" by (intro wf_inv_image wf_lex_prod wf_less_than)
  then show ?thesis
    using assms(3-)
  proof (induction st arbitrary: d rule: wf_induct_rule)
    case (less st)
    let ?left = "avail_in st @ take (nat (compRemaining st)) (drop (fd_pos st) za)"
    obtain avail c pos where rf: "refill za (avail_in st) (compRemaining st) (fd_pos st) (fd_world st)
        = Some (Some (avail, c, pos), fd_world st)" "0 \<le> c" "nat c \<le> length (drop pos za)" "avail \<noteq> [] \<or> c = 0"
      "length avail + nat c = length (avail_in st) + nat (compRemaining st)"
      by (rule refill_quiet [OF less.prems(3,5,6), of "avail_in st"])
    let ?more = "take (nat c) (drop pos za)"
    let ?room = "CHUNK - length (procBuf st)"
    note left = refill_result [OF rf(1)]
    obtain zerr used out z where i: "inflate il (strm st) avail ?room = (zerr, used, out, z)"
      by (cases "inflate il (strm st) avail ?room") auto
    have "0 < ?room" "avail \<noteq> [] \<or> ?more = []" using less.prems(4) rf(4) by auto
    with live i less.prems(1) left have codes: "zerr = Z_OK \<or> zerr = Z_STREAM_END"
      "zerr = Z_OK \<longrightarrow> 0 < used \<or> held z < held (strm st)" unfolding inflater_live_def by metis+
    have dec: "zerr = Z_OK \<Longrightarrow> dec (strm st) ?left = map_option ((@) out) (dec z (drop used avail @ ?more))"
      "zerr = Z_STREAM_END \<Longrightarrow> dec (strm st) ?left = Some out"
      and sizes: "length out \<le> ?room" "used \<le> length avail"
      using ok i unfolding inflater_ok_def left [symmetric] by blast+
    obtain buf k' w' where fl: "flush_output pf (zerr = Z_STREAM_END) (procBuf st @ out) (pf_cookie st) (fd_world st)
      = Some (True, buf, k', w')" "tape w' = []"
      using flush_output_quiet [OF less.prems(2,3)] by blast
    note F = flush_output_spec [OF fl(1) less.prems(2)]
    show ?case
    proof (cases "zerr = Z_OK")
      case False
      with codes dec(2) less.prems(1) have "out = d" "zerr = Z_STREAM_END" by auto
      with rf(1) i fl False have "inflate_step il za pf st
        = Some (Inl (sint (total_out st + word_of_nat (length d)), k', w'))"
        by (simp add: inflate_step_def)
      with fl(2) show ?thesis by (subst inflate_loop.simps) simp
    next
      case True
      let ?st = "\<lparr>strm = z, avail_in = drop used avail, procBuf = buf,
        total_out = total_out st + word_of_nat (length out), compRemaining = c, fd_pos = pos,
        pf_cookie = k', fd_world = w'\<rparr>"
      have step: "inflate_step il za pf st = Some (Inr ?st)"
        using rf(1) i fl True by (simp add: inflate_step_def)
      have "map_option ((@) out) (dec z (drop used avail @ ?more)) = Some d"
        using dec(1) [OF True] less.prems(1) by simp
      then obtain d' where d': "dec z (drop used avail @ ?more) = Some d'" "d = out @ d'"
        by (auto simp: map_option_case split: option.splits)
      have "length (procBuf st @ out) \<le> CHUNK" using sizes(1) less.prems(4) by simp
      with F(4) have "length buf < CHUNK" by simp
      moreover have "(?st, st) \<in> inv_image (less_than <*lex*> less_than)
        (\<lambda>st. (length (avail_in st) + nat (compRemaining st), held (strm st)))"
        using codes(2) True sizes(2) rf(5) by auto
      ultimately obtain k2 w2 where "inflate_loop il za pf ?st
        = Some (sint (total_out ?st + word_of_nat (length d')), k2, w2)" "tape w2 = []"
        using less.IH [of ?st d'] d'(1) F(1) fl(2) rf(2,3) by auto
      with step d'(2) show ?thesis by (subst inflate_loop.simps) (simp add: add.assoc)
    qed
  qed
qed

lemma processStoredEntry_quiet:
  assumes "valid k w" "tape w = []" "n \<le> length (drop pos za)"
  shows "\<exists>k' w'. processStoredEntry za pos n pf k w = Some (True, k', w') \<and> tape w' = []"
  using assms
proof (induction n arbitrary: pos k w rule: less_induct)
  case (less n)
  show ?case
  proof (cases "n = 0")
    case True
    with less.prems show ?thesis by (subst processStoredEntry.simps) simp
  next
    case False
    let ?c = "min n CHUNK"
    let ?b = "take ?c (drop pos za)"
    have b: "?b \<noteq> []" "length ?b = ?c" using False less.prems(3) CHUNK_pos by auto
    from pf_willing [OF less.prems(1,2) b(1)] obtain k1 w1 where
      p: "pf ?b k w = Some (True, k1, w1)" "tape w1 = []" by blast
    have "n - ?c < n" "n - ?c \<le> length (drop (pos + ?c) za)" using False less.prems(3) CHUNK_pos by auto
    from less.IH [OF this(1) _ p(2) this(2)] pf_frame [OF less.prems(1) p(1)]
    obtain k2 w2 where "processStoredEntry za (pos + ?c) (n - ?c) pf k1 w1 = Some (True, k2, w2)" "tape w2 = []"
      by blast
    with False p b(2) less.prems(2) show ?thesis
      by (subst processStoredEntry.simps) (simp add: Let_def read_fd_quiet)
  qed
qed

lemma mzProcessZipEntryContents_quiet:
  assumes "inflater_ok il dec" "inflater_live il dec held" "fst (inflateInit2 il) = Z_OK"
    and "entry_data il dec za e = Some d" "length (entry_source za e) = unat (compLen e)"
    and "0 \<le> sint (offset e)" "0 \<le> sint (compLen e)"
    and "compression e = DEFLATED \<longrightarrow> word_of_nat (length d) = uncompLen e"
    and "valid k w" "tape w = []"
  shows "\<exists>k' w'. mzProcessZipEntryContents il za oldOff e pf k w = Some (True, k', w') \<and> tape w' = []"
proof -
  have pos: "seek_entry (offset e) oldOff = nat (sint (offset e))"
    using assms(6) by (simp add: seek_entry_def)
  have room: "unat (compLen e) \<le> length (drop (nat (sint (offset e))) za)"
    using assms(5) unfolding entry_source_def by (metis length_take min.absorb_iff2 min.commute)
  from assms(4) consider (stored) "compression e = STORED" | (deflated) "compression e = DEFLATED" "compression e \<noteq> STORED"
    by (auto simp: entry_data_def split: if_splits)
  then show ?thesis
  proof cases
    case stored
    with processStoredEntry_quiet [OF assms(9,10) room] pos show ?thesis
      by (simp add: mzProcessZipEntryContents_def Let_def)
  next
    case deflated
    obtain z where z: "inflateInit2 il = (Z_OK, z)" using assms(3) by (cases "inflateInit2 il") auto
    have n: "nat (sint (compLen e)) = unat (compLen e)" using unat_of_nonneg [OF assms(7)] by (metis nat_int)
    have "dec z (entry_source za e) = Some d" using assms(4) deflated z by (simp add: entry_data_def)
    then have "\<exists>k' w'. inflate_loop il za pf \<lparr>strm = z, avail_in = [], procBuf = [], total_out = 0,
        compRemaining = sint (compLen e), fd_pos = nat (sint (offset e)), pf_cookie = k, fd_world = w\<rparr>
      = Some (sint (0 + word_of_nat (length d) :: 32 word), k', w') \<and> tape w' = []"
      using inflate_loop_quiet [OF assms(1,2), of "\<lparr>strm = z, avail_in = [], procBuf = [], total_out = 0,
        compRemaining = sint (compLen e), fd_pos = nat (sint (offset e)), pf_cookie = k, fd_world = w\<rparr>" za d]
        n room assms(7,9,10) by (simp add: entry_source_def)
    with deflated z pos assms(8) show ?thesis
      by (auto simp: mzProcessZipEntryContents_def processDeflatedEntry_def Let_def)
  qed
qed

end

interpretation writing_willing: willing_consumer writeProcessFunction "\<lambda>fd w. lookup w fd" grow
    "\<lambda>fd w. lookup w fd \<noteq> None" "\<lambda>fd w fd' w'. fd' = fd \<and> touches ((=) fd) w w'"
proof unfold_locales
  fix fd w bs assume a: "lookup w fd \<noteq> None" "tape w = []" "(bs :: byte list) \<noteq> []"
  have "write_file fd bs w = (int (length bs), append_bytes fd bs w)"
    using a(2) by (simp add: write_file_def draw_def)
  then have "write_loop fd bs 0 w = (True, append_bytes fd bs w)"
    using a(3) by (subst write_loop.simps) simp
  with a(2) show "\<exists>k' w'. writeProcessFunction bs fd w = Some (True, k', w') \<and> tape w' = []"
    by (simp add: writeProcessFunction_def)
qed

section \<open>Properties\<close>


text \<open>A decoder whose streams are plain bytes, three of them, or as many as the state says.\<close>

definition demo_inflater :: "nat inflater" where
  "demo_inflater = \<lparr>inflateInit2 = (0, 3), inflate = (\<lambda>z avail n.
     let k = min z (min n (length avail)) in
     (if z = k then Z_STREAM_END else if k = 0 then - 5 else Z_OK, k, take k avail, z - k))\<rparr>"

definition demo_dec :: "nat \<Rightarrow> byte list \<Rightarrow> byte list option" where
  "demo_dec z inp = (if z \<le> length inp then Some (take z inp) else None)"

lemma demo_inflater_ok: "inflater_ok demo_inflater demo_dec" "inflater_live demo_inflater demo_dec id"
proof -
  have "take z (avail @ more) = take k avail @ take (z - k) (drop k avail @ more)"
    if "k \<le> z" "k \<le> length avail" for z k and avail more :: "byte list"
    using take_add [of k "z - k" "avail @ more"] that by simp
  then show "inflater_ok demo_inflater demo_dec"
    by (auto simp: inflater_ok_def demo_inflater_def demo_dec_def Let_def Z_OK_def Z_STREAM_END_def
        split: if_splits)
  show "inflater_live demo_inflater demo_dec id"
    by (auto simp: inflater_live_def demo_inflater_def demo_dec_def Let_def Z_OK_def Z_STREAM_END_def
        min_def split: if_splits)
qed

definition demo_deflated :: ZipEntry where
  "demo_deflated = zero_entry\<lparr>offset := 2, compLen := 3, uncompLen := 3, compression := 8, crc32 := 6\<rparr>"

definition demo_fs :: world where
  "demo_fs = \<lparr>files = [(''/out'', \<lparr>content = [7], st_mode = 384, st_uid = 0, st_gid = 0\<rparr>)], devices = [],
     mtd = [], proc = None, tape = [], history = [], short = False\<rparr>"

definition demo_crc :: "32 word \<Rightarrow> byte list \<Rightarrow> 32 word" where
  "demo_crc c bs = c + word_of_nat (sum_list (map unat bs))"

lemma demo_inflate_loop:
  "inflate_loop demo_inflater [9, 9, 1, 2, 3] pf \<lparr>strm = 3, avail_in = [], procBuf = [], total_out = 0,
     compRemaining = 3, fd_pos = 2, pf_cookie = k, fd_world = demo_fs\<rparr>
   = (pf [1, 2, 3] k demo_fs \<bind> (\<lambda>(ret, k, w). Some (if ret then 3 else - 1, k, w)))"
  by (subst inflate_loop.simps)
    (auto simp: inflate_step_def refill_def read_fd_def draw_def demo_fs_def CHUNK_def demo_inflater_def
      Let_def Z_OK_def Z_STREAM_END_def flush_output_def split: bind_splits)

lemma demo_process:
  "mzProcessZipEntryContents demo_inflater [9, 9, 1, 2, 3] 0 demo_deflated pf k demo_fs
   = (pf [1, 2, 3] k demo_fs \<bind> (\<lambda>(ret, k, w). Some (ret, k, w)))"
  using demo_inflate_loop [of pf k]
  by (cases "pf [1, 2, 3] k demo_fs")
    (auto simp: mzProcessZipEntryContents_def processDeflatedEntry_def demo_deflated_def STORED_def DEFLATED_def
      seek_entry_def zero_entry_def demo_inflater_def Z_OK_def Let_def)


definition sound_entry ::
  "'z inflater \<Rightarrow> ('z \<Rightarrow> byte list \<Rightarrow> byte list option) \<Rightarrow> byte list \<Rightarrow> ZipEntry \<Rightarrow> byte list \<Rightarrow> bool" where
  "sound_entry il dec za e d \<longleftrightarrow> entry_data il dec za e = Some d \<and> length (entry_source za e) = unat (compLen e)
     \<and> 0 \<le> sint (offset e) \<and> 0 \<le> sint (compLen e) \<and> uncompLen e \<noteq> - 1
     \<and> (compression e = DEFLATED \<longrightarrow> word_of_nat (length d) = uncompLen e)"

lemma sound_entry_extracted:
  assumes "inflater_ok il dec" "inflater_live il dec held" "fst (inflateInit2 il) = Z_OK"
    "sound_entry il dec za e d" "lookup w fd = Some f" "tape w = []"
  shows "\<exists>w'. mzExtractZipEntryToFile il za oldOff e fd w = Some (True, w')
    \<and> lookup w' fd = Some (f\<lparr>content := content f @ d\<rparr>) \<and> tape w' = []"
proof -
  note e = assms(4) [unfolded sound_entry_def]
  from writing_willing.mzProcessZipEntryContents_quiet [OF assms(1-3) _ _ _ _ _ _ assms(6), of za e d fd oldOff]
    e assms(5)
  obtain fd' w' where "mzProcessZipEntryContents il za oldOff e writeProcessFunction fd w = Some (True, fd', w')"
    "tape w' = []" by auto
  then have "mzExtractZipEntryToFile il za oldOff e fd w = Some (True, w')" "tape w' = []"
    by (simp_all add: mzExtractZipEntryToFile_def)
  with readers_deliver(3) [OF assms(1) _ _ this(1) assms(5)] e show ?thesis by auto
qed

text \<open>
  C21. Extraction succeeds: on a system on which no call fails, extracting an entry whose compressed data
  lies in the archive and decodes, with the declared size, to an open file returns, reports success, and
  the file has grown by the contents of the entry.
\<close>

theorem mzExtractZipEntryToFile_quiet:
  assumes "inflater_ok il dec" "inflater_live il dec held" "fst (inflateInit2 il) = Z_OK"
    and "entry_data il dec za e = Some d" "length (entry_source za e) = unat (compLen e)"
    and "0 \<le> sint (offset e)" "0 \<le> sint (compLen e)" "uncompLen e \<noteq> - 1"
    and "compression e = DEFLATED \<longrightarrow> word_of_nat (length d) = uncompLen e"
    and "lookup w fd = Some f" "tape w = []"
  shows "\<exists>w'. mzExtractZipEntryToFile il za oldOff e fd w = Some (True, w')
    \<and> lookup w' fd = Some (f\<lparr>content := content f @ d\<rparr>)"
  using sound_entry_extracted [OF assms(1-3) _ assms(10,11)] assms(4-9) by (fastforce simp: sound_entry_def)

theorem mzExtractZipEntryToFile_quiet_witness:
  "\<exists>w'. mzExtractZipEntryToFile demo_inflater [9, 9, 1, 2, 3] 0 demo_deflated ''/out'' demo_fs = Some (True, w')
    \<and> lookup w' ''/out'' = Some \<lparr>content = [7, 1, 2, 3], st_mode = 384, st_uid = 0, st_gid = 0\<rparr>"
  using mzExtractZipEntryToFile_quiet [OF demo_inflater_ok, of "[9, 9, 1, 2, 3]" demo_deflated "[1, 2, 3]" demo_fs
    "''/out''" "\<lparr>content = [7], st_mode = 384, st_uid = 0, st_gid = 0\<rparr>" 0]
  by (simp add: demo_deflated_def zero_entry_def entry_data_def entry_source_def demo_dec_def demo_inflater_def
      demo_fs_def lookup_def STORED_def DEFLATED_def Z_OK_def)

end
