(* ===== verification/DirUtil.thy ===== *)
theory DirUtil
  imports World "HOL-Library.Sublist"
begin

text \<open>
  \<open>minzip/DirUtil.c\<close>: creating the directories of a path, deleting a directory with its contents, and
  setting the owner and the permissions of a hierarchy.

  Directories and symbolic links are inodes whose mode has their type bits.  A path is looked up as a
  string after \<open>node_path\<close> has removed repeated and trailing slashes; symbolic links are not followed
  and \<open>..\<close> is a name like any other.
\<close>

section \<open>Directories in the file system\<close>

definition file_type :: "nat \<Rightarrow> nat" where
  "file_type m = m div 4096 mod 16"

definition S_ISDIR :: "nat \<Rightarrow> bool" where
  "S_ISDIR m \<longleftrightarrow> file_type m = 4"

definition S_ISLINK :: "nat \<Rightarrow> bool" where
  "S_ISLINK m \<longleftrightarrow> file_type m = 10"

fun squeeze :: "string \<Rightarrow> string" where
  "squeeze (a # b # s) = (if a = CHR ''/'' \<and> b = CHR ''/'' then squeeze (b # s) else a # squeeze (b # s))"
| "squeeze s = s"

definition node_path :: "path \<Rightarrow> path" where
  "node_path p = (let q = squeeze p in
     if length q > 1 \<and> last q = CHR ''/'' then butlast q else q)"

definition lookup_path :: "world \<Rightarrow> path \<Rightarrow> inode option" where
  "lookup_path w p = lookup w (node_path p)"

definition lstat :: "path \<Rightarrow> world \<Rightarrow> inode option \<times> world" where
  "lstat p w = (case draw w of (e, w) \<Rightarrow> (if e = Fail then None else lookup_path w p, w))"

text \<open>\<open>mkdir\<close> fails when something of that name exists.\<close>

definition mkdir :: "path \<Rightarrow> nat \<Rightarrow> world \<Rightarrow> int \<times> world" where
  "mkdir p mode w = (case draw w of (e, w) \<Rightarrow>
     if e = Fail \<or> lookup_path w p \<noteq> None then (- 1, w)
     else (0, set_files (AList.update (node_path p)
       \<lparr>content = [], st_mode = 16384 + mode, st_uid = 0, st_gid = 0\<rparr> (files w)) w))"

text \<open>\<open>utime\<close> sets times, which are not part of an inode.\<close>

definition utime :: "path \<Rightarrow> world \<Rightarrow> int \<times> world" where
  "utime p w = (case draw w of (e, w) \<Rightarrow> (if e = Fail then - 1 else 0, w))"

text \<open>The names \<open>readdir\<close> lists, in the order of the file system.\<close>

definition children :: "world \<Rightarrow> path \<Rightarrow> string list" where
  "children w p = (let d = (if node_path p = ''/'' then ''/'' else node_path p @ ''/'') in
     map (\<lambda>(q, _). drop (length d) q)
       (filter (\<lambda>(q, _). prefix d q \<and> q \<noteq> d \<and> CHR ''/'' \<notin> set (drop (length d) q)) (files w)))"

text \<open>\<open>rmdir\<close> removes an empty directory.\<close>

definition rmdir :: "path \<Rightarrow> world \<Rightarrow> int \<times> world" where
  "rmdir p w = (if children w p = [] then unlink (node_path p) w else (- 1, snd (draw w)))"

section \<open>Creating\<close>

datatype DirStatus = DMISSING | DDIR | DILLEGAL

definition getPathDirStatus :: "path \<Rightarrow> world \<Rightarrow> DirStatus \<times> world" where
  "getPathDirStatus p w = (case draw w of (e, w) \<Rightarrow>
     (if e = Fail then DILLEGAL
      else (case lookup_path w p of
              None \<Rightarrow> DMISSING
            | Some f \<Rightarrow> if S_ISDIR (st_mode f) then DDIR else DILLEGAL), w))"

lemma level_shorter:
  "dropWhile (\<lambda>c. c = CHR ''/'') rest \<noteq> [] \<Longrightarrow>
    length (dropWhile (\<lambda>c. c \<noteq> CHR ''/'') (dropWhile (\<lambda>c. c = CHR ''/'') rest)) < length rest"
proof -
  assume a: "dropWhile (\<lambda>c. c = CHR ''/'') rest \<noteq> []"
  then obtain c cs where cs: "dropWhile (\<lambda>c. c = CHR ''/'') rest = c # cs" "c \<noteq> CHR ''/''"
    by (metis (mono_tags, lifting) hd_dropWhile list.collapse)
  have "length (dropWhile (\<lambda>c. c \<noteq> CHR ''/'') (c # cs)) \<le> length cs"
    using cs(2) by (simp add: length_dropWhile_le)
  moreover have "length (c # cs) \<le> length rest" using cs(1) length_dropWhile_le by metis
  ultimately show ?thesis using cs(1) by simp
qed

text \<open>The levels of a path that ends in a slash; \<open>rest\<close> is what is behind the pointer \<open>p\<close>.\<close>

function create_levels ::
  "nat \<Rightarrow> bool \<Rightarrow> path \<Rightarrow> path \<Rightarrow> world \<Rightarrow> (int \<times> world) ub" where
  "create_levels mode timestamp before rest w =
     (let slashes = takeWhile (\<lambda>c. c = CHR ''/'') rest;
          rest = dropWhile (\<lambda>c. c = CHR ''/'') rest
      in if rest = [] then Some (0, w)
      else
        let cpath = before @ slashes @ takeWhile (\<lambda>c. c \<noteq> CHR ''/'') rest;
            rest = dropWhile (\<lambda>c. c \<noteq> CHR ''/'') rest
        in if rest = [] then None
        else (case getPathDirStatus cpath w of
            (DILLEGAL, w) \<Rightarrow> Some (- 1, w)
          | (DDIR, w) \<Rightarrow> create_levels mode timestamp cpath rest w
          | (DMISSING, w) \<Rightarrow>
              (case mkdir cpath mode w of (err, w) \<Rightarrow>
                 if err \<noteq> 0 then Some (- 1, w)
                 else if timestamp then
                   (case utime cpath w of (err, w) \<Rightarrow>
                      if err \<noteq> 0 then Some (- 1, w) else create_levels mode timestamp cpath rest w)
                 else create_levels mode timestamp cpath rest w)))"
  by pat_completeness auto

termination
  by (relation "measure (\<lambda>(mode, timestamp, before, rest, w). length rest)") (simp_all add: level_shorter)

declare create_levels.simps [simp del]

text \<open>
  The path of the directories: everything up to the last slash, unless that is the first character
  or there is none, or the whole path with a slash.
\<close>

definition dir_part :: "bool \<Rightarrow> path \<Rightarrow> path option" where
  "dir_part stripFileName p =
     (if stripFileName then
        let n = length (dropWhile (\<lambda>c. c \<noteq> CHR ''/'') (rev p)) in
        if n \<le> 1 then None else Some (take n p)
      else Some (p @ ''/''))"

definition dirCreateHierarchy :: "path \<Rightarrow> nat \<Rightarrow> bool \<Rightarrow> bool \<Rightarrow> world \<Rightarrow> (int \<times> world) ub" where
  "dirCreateHierarchy p mode timestamp stripFileName w =
     (if p = [] then Some (- 1, w)
      else (case dir_part stripFileName p of
          None \<Rightarrow> Some (- 1, w)
        | Some cpath \<Rightarrow>
            (case getPathDirStatus cpath w of
               (DDIR, w) \<Rightarrow> Some (0, w)
             | (DILLEGAL, w) \<Rightarrow> Some (- 1, w)
             | (DMISSING, w) \<Rightarrow> create_levels mode timestamp [] cpath w)))"

section \<open>Deleting and changing hierarchies\<close>

text \<open>
  The loop over the names of a directory reads them while entries are deleted; each name is listed
  once.  A name that makes the path longer than \<open>PATH_MAX\<close> would be cut off by \<open>snprintf\<close>; the
  depth is bounded by that, so 4096 levels of recursion suffice.
\<close>

fun delete_children :: "(path \<Rightarrow> world \<Rightarrow> int \<times> world) \<Rightarrow> path \<Rightarrow> string list \<Rightarrow> world \<Rightarrow> bool \<times> world" where
  "delete_children del p [] w = (True, w)"
| "delete_children del p (n # ns) w =
     (case del (take 4095 (p @ ''/'' @ n)) w of (r, w) \<Rightarrow>
        if r < 0 then (False, w) else delete_children del p ns w)"

fun dirUnlinkHierarchy :: "nat \<Rightarrow> path \<Rightarrow> world \<Rightarrow> int \<times> world" where
  "dirUnlinkHierarchy depth p w = (case lstat p w of
     (None, w) \<Rightarrow> (- 1, w)
   | (Some st, w) \<Rightarrow>
       if \<not> S_ISDIR (st_mode st) then unlink (node_path p) w
       else (case depth of
           0 \<Rightarrow> (- 1, w)
         | Suc depth \<Rightarrow>
             (case draw w of (e, w) \<Rightarrow>
                if e = Fail then (- 1, w)
                else (case delete_children (dirUnlinkHierarchy depth) p (children w p) w of (ok, w) \<Rightarrow>
                  if \<not> ok then (- 1, w) else rmdir p w))))"

text \<open>
  \<open>chown\<close> leaves an owner or group of -1 as it is; \<open>chmod\<close> sets the permission bits and keeps the type
  of the node.
\<close>

definition chown_node :: "path \<Rightarrow> 32 word \<Rightarrow> 32 word \<Rightarrow> world \<Rightarrow> int \<times> world" where
  "chown_node p uid gid w = (case lookup_path w p of
     None \<Rightarrow> chown (node_path p) 0 0 w
   | Some f \<Rightarrow> chown (node_path p) (if uid = - 1 then st_uid f else unat uid)
       (if gid = - 1 then st_gid f else unat gid) w)"

definition chmod_node :: "path \<Rightarrow> 32 word \<Rightarrow> world \<Rightarrow> int \<times> world" where
  "chmod_node p mode w = (case lookup_path w p of
     None \<Rightarrow> chmod (node_path p) 0 w
   | Some f \<Rightarrow> chmod (node_path p) (st_mode f div 4096 * 4096 + unat mode mod 4096) w)"

text \<open>
  \<open>dirSetHierarchyPermissions\<close> looks at the next name as long as \<open>errno\<close> is 0: it stops behind the
  first name that failed.
\<close>

fun change_children :: "(path \<Rightarrow> world \<Rightarrow> int \<times> world) \<Rightarrow> path \<Rightarrow> string list \<Rightarrow> world \<Rightarrow> bool \<times> world" where
  "change_children chg p [] w = (True, w)"
| "change_children chg p (n # ns) w =
     (case chg (take 4095 (p @ ''/'' @ n)) w of (r, w) \<Rightarrow>
        if r \<noteq> 0 then (False, w) else change_children chg p ns w)"

fun dirSetHierarchyPermissions ::
  "nat \<Rightarrow> 32 word \<Rightarrow> 32 word \<Rightarrow> 32 word \<Rightarrow> 32 word \<Rightarrow> path \<Rightarrow> world \<Rightarrow> int \<times> world" where
  "dirSetHierarchyPermissions depth uid gid dirMode fileMode p w = (case lstat p w of
     (None, w) \<Rightarrow> (- 1, w)
   | (Some st, w) \<Rightarrow>
       if S_ISLINK (st_mode st) then (0, w)
       else (case chown_node p uid gid w of (r, w) \<Rightarrow>
         if r \<noteq> 0 then (- 1, w)
         else (case chmod_node p (if S_ISDIR (st_mode st) then dirMode else fileMode) w of (r, w) \<Rightarrow>
           if r \<noteq> 0 then (- 1, w)
           else if \<not> S_ISDIR (st_mode st) then (0, w)
           else (case depth of
               0 \<Rightarrow> (- 1, w)
             | Suc depth \<Rightarrow>
                 (case draw w of (e, w) \<Rightarrow>
                    if e = Fail then (- 1, w)
                    else (case change_children
                          (dirSetHierarchyPermissions depth uid gid dirMode fileMode) p (children w p) w of
                        (ok, w) \<Rightarrow> (if ok then 0 else - 1, w)))))))"

declare dirUnlinkHierarchy.simps [simp del] dirSetHierarchyPermissions.simps [simp del]

section \<open>What changes\<close>

lemma getPathDirStatus_result:
  assumes "getPathDirStatus p w = (d, w')"
  shows "w' = w\<lparr>tape := tl (tape w)\<rparr>"
    "d = DDIR \<Longrightarrow> \<exists>f. lookup_path w p = Some f \<and> S_ISDIR (st_mode f)"
    "d = DMISSING \<Longrightarrow> lookup_path w p = None"
  using assms
  by (auto simp: getPathDirStatus_def draw_def lookup_path_def lookup_def split: option.splits if_splits)

lemma mkdir_result:
  assumes "mkdir p mode w = (r, w')"
  shows "touches ((=) (node_path p)) w w'" "r = - 1 \<or> r = 0"
    "r = 0 \<Longrightarrow> lookup_path w p = None \<and> lookup_path w' p = Some
       \<lparr>content = [], st_mode = 16384 + mode, st_uid = 0, st_gid = 0\<rparr>"
  using assms by (auto simp: mkdir_def draw_def lookup_path_def split: if_splits intro!: set_files_touches)

lemma utime_result: "utime p w = (r, w') \<Longrightarrow> w' = w\<lparr>tape := tl (tape w)\<rparr>"
  by (auto simp: utime_def draw_def)

lemma utime_touches [touch]: "utime p w = (r, w') \<Longrightarrow> touches P w w'"
  using utime_result by fastforce

text \<open>The directories a path runs through.\<close>

definition on_way :: "path \<Rightarrow> path \<Rightarrow> bool" where
  "on_way p q \<longleftrightarrow> (\<exists>c. prefix c p \<and> q = node_path c)"

definition is_dir :: "world \<Rightarrow> path \<Rightarrow> bool" where
  "is_dir w p \<longleftrightarrow> (\<exists>f. lookup_path w p = Some f \<and> S_ISDIR (st_mode f))"

lemma S_ISDIR_new: "mode < 4096 \<Longrightarrow> S_ISDIR (16384 + mode)"
  by (simp add: S_ISDIR_def file_type_def)

lemma level_split:
  "rest = takeWhile (\<lambda>c. c = CHR ''/'') rest
    @ takeWhile (\<lambda>c. c \<noteq> CHR ''/'') (dropWhile (\<lambda>c. c = CHR ''/'') rest)
    @ dropWhile (\<lambda>c. c \<noteq> CHR ''/'') (dropWhile (\<lambda>c. c = CHR ''/'') rest)"
  by simp

lemma mkdir_keeps_dirs:
  assumes "mkdir p mode w = (r, w')" "is_dir w q"
  shows "is_dir w' q"
proof (cases "r = 0")
  case True
  with mkdir_result(3) [OF assms(1)] assms(2) have "node_path q \<noteq> node_path p"
    by (auto simp: is_dir_def lookup_path_def)
  with touches_lookup [OF mkdir_result(1) [OF assms(1)], of "node_path q"] assms(2)
  show ?thesis by (auto simp: is_dir_def lookup_path_def)
next
  case False
  with assms show ?thesis by (auto simp: mkdir_def draw_def is_dir_def lookup_path_def split: if_splits)
qed

lemmas squeeze_induct = squeeze.induct [case_names pair empty single]

lemma squeeze_append: "last c \<noteq> CHR ''/'' \<Longrightarrow> squeeze (c @ s) = squeeze c @ squeeze s"
proof (induction c rule: squeeze_induct)
  case (single a)
  then show ?case by (cases s) auto
qed auto

lemma squeeze_eq_Nil [simp]: "squeeze s = [] \<longleftrightarrow> s = []"
  by (induction s rule: squeeze.induct) auto

lemma last_squeeze [simp]: "last (squeeze s) = last s"
  by (induction s rule: squeeze.induct) auto

lemma squeeze_slashes: "s \<noteq> [] \<Longrightarrow> set s \<subseteq> {CHR ''/''} \<Longrightarrow> squeeze s = ''/''"
  by (induction s rule: squeeze.induct) auto

lemma node_path_slashes:
  assumes "c \<noteq> []" "last c \<noteq> CHR ''/''" "set s \<subseteq> {CHR ''/''}"
  shows "node_path (c @ s) = node_path c"
proof (cases "s = []")
  case False
  with assms show ?thesis
    by (simp add: node_path_def Let_def squeeze_append squeeze_slashes)
qed simp

text \<open>Whatever changes becomes a directory.\<close>

definition dirs_only :: "world \<Rightarrow> world \<Rightarrow> bool" where
  "dirs_only w w' \<longleftrightarrow> (\<forall>q. lookup_path w' q = lookup_path w q \<or> is_dir w' q)"

lemma dirs_only_trans: "dirs_only w w1 \<Longrightarrow> dirs_only w1 w2 \<Longrightarrow> dirs_only w w2"
  unfolding dirs_only_def is_dir_def by metis

lemma dirs_only_tape [simp]:
  "dirs_only w (w\<lparr>tape := t\<rparr>)" "dirs_only w (w'\<lparr>tape := t\<rparr>) = dirs_only w w'"
  by (auto simp: dirs_only_def lookup_path_def is_dir_def)

lemma mkdir_dirs_only:
  assumes "mkdir p mode w = (r, w')" "mode < 4096"
  shows "dirs_only w w'"
proof (cases "r = 0")
  case True
  show ?thesis
    unfolding dirs_only_def
  proof
    fix q
    show "lookup_path w' q = lookup_path w q \<or> is_dir w' q"
    proof (cases "node_path q = node_path p")
      case True
      with mkdir_result(3) [OF assms(1) \<open>r = 0\<close>] S_ISDIR_new [OF assms(2)] show ?thesis
        by (simp add: is_dir_def lookup_path_def)
    next
      case False
      with touches_lookup [OF mkdir_result(1) [OF assms(1)], of "node_path q"] show ?thesis
        by (auto simp: lookup_path_def)
    qed
  qed
next
  case False
  with assms show ?thesis by (auto simp: mkdir_def draw_def split: if_splits)
qed

text \<open>One level, as a rule: what the step can be.\<close>

lemma create_levels_cases [consumes 1, case_names finished illegal step]:
  assumes "create_levels mode timestamp before rest w = Some (r, w')"
  obtains (finished) "r = 0" "w' = w" "set rest \<subseteq> {CHR ''/''}"
    | (illegal) c where "prefix c (before @ rest)" "r = - 1" "touches ((=) (node_path c)) w w'"
        "\<And>q. is_dir w q \<Longrightarrow> is_dir w' q" "mode < 4096 \<Longrightarrow> dirs_only w w'"
    | (step) c rest' w1 where "before @ rest = c @ rest'" "c \<noteq> []" "last c \<noteq> CHR ''/''"
        "length rest' < length rest" "touches ((=) (node_path c)) w w1" "\<And>q. is_dir w q \<Longrightarrow> is_dir w1 q"
        "mode < 4096 \<Longrightarrow> is_dir w1 c \<and> dirs_only w w1" "create_levels mode timestamp c rest' w1 = Some (r, w')"
proof -
  define d where "d = dropWhile (\<lambda>c. c = CHR ''/'') rest"
  define c where "c = before @ takeWhile (\<lambda>c. c = CHR ''/'') rest @ takeWhile (\<lambda>c. c \<noteq> CHR ''/'') d"
  define e where "e = dropWhile (\<lambda>c. c \<noteq> CHR ''/'') d"
  note step = trans [OF create_levels.simps [symmetric] assms, unfolded Let_def, folded d_def,
      folded e_def, folded c_def]
  show thesis
  proof (cases "d = []")
    case True
    with step show thesis by (intro that(1)) (auto simp: d_def dropWhile_eq_Nil_conv)
  next
    case False
    have split: "before @ rest = c @ e" by (simp add: c_def e_def d_def)
    then have pre: "prefix c (before @ rest)" by simp
    have shorter: "length e < length rest" using False level_shorter [of rest] by (simp add: d_def e_def)
    have ne: "takeWhile (\<lambda>c. c \<noteq> CHR ''/'') d \<noteq> []"
      using False hd_dropWhile [of "\<lambda>c. c = CHR ''/''" rest] by (cases d) (auto simp: d_def)
    from ne have c: "c \<noteq> []" "last c \<noteq> CHR ''/''"
      using set_takeWhileD [of "last (takeWhile (\<lambda>c. c \<noteq> CHR ''/'') d)" "\<lambda>c. c \<noteq> CHR ''/''" d]
      by (auto simp: c_def)
    from step False have e: "e \<noteq> []" by (auto split: if_splits)
    note step = step [unfolded if_not_P [OF False] if_not_P [OF e]]
    obtain st w1 where st: "getPathDirStatus c w = (st, w1)" by (cases "getPathDirStatus c w")
    have w1: "w1 = w\<lparr>tape := tl (tape w)\<rparr>" using getPathDirStatus_result(1) [OF st] .
    have t1: "touches ((=) (node_path c)) w w1" and k1: "\<And>q. is_dir w1 q = is_dir w q"
      by (auto simp: w1 is_dir_def lookup_path_def lookup_def)
    have o1: "dirs_only w w1" by (simp add: w1)
    show thesis
    proof (cases st)
      case DILLEGAL
      with step st have "r = - 1" "w' = w1" by simp_all
      with t1 k1 o1 show thesis by (intro that(2) [OF pre]) simp_all
    next
      case DDIR
      with getPathDirStatus_result(2) [OF st] have "is_dir w c" by (auto simp: is_dir_def)
      moreover from DDIR step st have "create_levels mode timestamp c e w1 = Some (r, w')" by simp
      ultimately show thesis using k1 o1 by (intro that(3) [OF split c shorter t1]) simp_all
    next
      case DMISSING
      obtain err w2 where mk: "mkdir c mode w1 = (err, w2)" by (cases "mkdir c mode w1")
      note mr = mkdir_result [OF mk]
      obtain err' w3 where ut: "utime c w2 = (err', w3)" by (cases "utime c w2")
      have w3: "w3 = w2\<lparr>tape := tl (tape w2)\<rparr>" using utime_result [OF ut] .
      have t2: "touches ((=) (node_path c)) w w2" by (rule touches_trans [OF t1 mr(1)])
      have t3: "touches ((=) (node_path c)) w w3"
        by (rule touches_trans [OF t2 utime_touches [OF ut]])
      have k2: "\<And>q. is_dir w q \<Longrightarrow> is_dir w2 q" using mkdir_keeps_dirs [OF mk] k1 by simp
      have k3: "is_dir w3 q = is_dir w2 q" for q
        by (simp add: w3 is_dir_def lookup_path_def lookup_def)
      have o2: "mode < 4096 \<Longrightarrow> dirs_only w w2" using dirs_only_trans [OF o1 mkdir_dirs_only [OF mk]] .
      then have o3: "mode < 4096 \<Longrightarrow> dirs_only w w3" by (simp add: w3)
      have new: "err = 0 \<Longrightarrow> mode < 4096 \<Longrightarrow> is_dir w2 c"
        using mr(3) S_ISDIR_new by (auto simp: is_dir_def)
      note step = step [unfolded st DMISSING prod.case DirStatus.case mk ut]
      consider "err \<noteq> 0" | "err = 0" "timestamp" "err' \<noteq> 0" | "err = 0" "timestamp" "err' = 0"
        | "err = 0" "\<not> timestamp" by blast
      then show thesis
      proof cases
        case 1
        with step have "r = - 1" "w' = w2" by simp_all
        with t2 k2 o2 show thesis by (intro that(2) [OF pre]) simp_all
      next
        case 2
        with step have "r = - 1" "w' = w3" by simp_all
        with t3 k2 k3 o3 show thesis by (intro that(2) [OF pre]) simp_all
      next
        case 3
        with step have "create_levels mode timestamp c e w3 = Some (r, w')" by simp
        with 3 new k2 k3 o3 show thesis by (intro that(3) [OF split c shorter t3]) (auto simp: is_dir_def lookup_path_def w3)
      next
        case 4
        with step have "create_levels mode timestamp c e w2 = Some (r, w')" by simp
        with 4 new k2 o2 show thesis by (intro that(3) [OF split c shorter t2]) simp_all
      qed
    qed
  qed
qed

lemma create_levels_spec:
  "create_levels mode timestamp before rest w = Some (r, w') \<Longrightarrow>
    touches (on_way (before @ rest)) w w' \<and> (\<forall>q. is_dir w q \<longrightarrow> is_dir w' q)
    \<and> (mode < 4096 \<longrightarrow> dirs_only w w')
    \<and> (r = 0 \<and> mode < 4096 \<and> \<not> set rest \<subseteq> {CHR ''/''} \<longrightarrow> is_dir w' (before @ rest))"
proof (induction "length rest" arbitrary: before rest w rule: less_induct)
  case less
  from less.prems show ?case
  proof (cases rule: create_levels_cases)
    case (illegal c)
    have "touches (on_way (before @ rest)) w w'"
      using illegal(3) by (rule touches_mono) (use illegal(1) in \<open>auto simp: on_way_def\<close>)
    with illegal show ?thesis by auto
  next
    case (step c rest' w1)
    note IH = less.hyps [OF step(4) step(8), folded step(1)]
    have "touches (on_way (before @ rest)) w w1"
      using step(5) by (rule touches_mono) (auto simp: on_way_def step(1) intro!: exI [of _ c])
    with IH have t: "touches (on_way (before @ rest)) w w'" by (blast intro: touches_trans)
    have "is_dir w' (before @ rest)" if "r = 0" "mode < 4096" "set rest' \<subseteq> {CHR ''/''}"
    proof -
      have "is_dir w' c" using step(7) that IH by blast
      then show ?thesis
        using node_path_slashes [OF step(2,3) that(3)] by (simp add: step(1) is_dir_def lookup_path_def)
    qed
    with t IH step(6,7) show ?thesis by (blast intro: dirs_only_trans)
  qed (auto simp: dirs_only_def)
qed

text \<open>
  \<open>dirCreateHierarchy\<close> makes nothing but directories on the way, keeps every directory, and when it
  reports success the directory of the path is there.
\<close>

lemma dirCreateHierarchy_spec:
  assumes "dirCreateHierarchy p mode timestamp strip w = Some (r, w')"
  shows "touches (\<lambda>q. \<exists>c. dir_part strip p = Some c \<and> on_way c q) w w'" (is ?touches)
    "is_dir w q \<Longrightarrow> is_dir w' q" "mode < 4096 \<Longrightarrow> dirs_only w w'"
    "r = 0 \<Longrightarrow> mode < 4096 \<Longrightarrow> \<exists>c. dir_part strip p = Some c \<and> (set c \<subseteq> {CHR ''/''} \<or> is_dir w' c)"
    (is "_ \<Longrightarrow> _ \<Longrightarrow> ?there")
proof -
  have "?touches \<and> (is_dir w q \<longrightarrow> is_dir w' q) \<and> (mode < 4096 \<longrightarrow> dirs_only w w')
    \<and> (r = 0 \<longrightarrow> mode < 4096 \<longrightarrow> ?there)"
  proof (cases "p = [] \<or> dir_part strip p = None")
    case True
    with assms show ?thesis by (auto simp: dirCreateHierarchy_def dirs_only_def split: if_splits)
  next
    case False
    then obtain c where c: "dir_part strip p = Some c" by auto
    obtain st w1 where st: "getPathDirStatus c w = (st, w1)" by (cases "getPathDirStatus c w")
    have w1: "w1 = w\<lparr>tape := tl (tape w)\<rparr>" using getPathDirStatus_result(1) [OF st] .
    have k1: "is_dir w1 q = is_dir w q" for q by (simp add: w1 is_dir_def lookup_path_def lookup_def)
    have t1: "touches P w w1" for P by (simp add: w1)
    have o1: "dirs_only w w1" by (simp add: w1)
    show ?thesis
    proof (cases st)
      case DILLEGAL
      with assms False c st k1 t1 o1 show ?thesis by (auto simp: dirCreateHierarchy_def)
    next
      case DDIR
      with getPathDirStatus_result(2) [OF st] have "is_dir w c" by (auto simp: is_dir_def)
      with DDIR assms False c st k1 t1 o1 show ?thesis by (auto simp: dirCreateHierarchy_def)
    next
      case DMISSING
      then have cl: "create_levels mode timestamp [] c w1 = Some (r, w')"
        using assms False c st by (simp add: dirCreateHierarchy_def)
      note S = create_levels_spec [OF cl, unfolded append_Nil]
      have "?touches" by (rule touches_trans [OF t1 touches_mono [OF conjunct1 [OF S]]]) (use c in blast)
      with S c k1 dirs_only_trans [OF o1] show ?thesis by auto
    qed
  qed
  then show ?touches "is_dir w q \<Longrightarrow> is_dir w' q" "mode < 4096 \<Longrightarrow> dirs_only w w'"
    "r = 0 \<Longrightarrow> mode < 4096 \<Longrightarrow> ?there"
    by blast+
qed

section \<open>On a quiet system\<close>

text \<open>Nothing but directories is in the way.\<close>

definition way_free :: "world \<Rightarrow> path \<Rightarrow> bool" where
  "way_free w p \<longleftrightarrow> (\<forall>c. prefix c p \<longrightarrow> lookup_path w c = None \<or> is_dir w c)"

text \<open>A path that ends in a slash still does behind its first level.\<close>

lemma level_ends:
  assumes "rest = [] \<or> last rest = CHR ''/''" "dropWhile (\<lambda>c. c = CHR ''/'') rest \<noteq> []"
  shows "dropWhile (\<lambda>c. c \<noteq> CHR ''/'') (dropWhile (\<lambda>c. c = CHR ''/'') rest) \<noteq> []"
    "last (dropWhile (\<lambda>c. c \<noteq> CHR ''/'') (dropWhile (\<lambda>c. c = CHR ''/'') rest)) = CHR ''/''"
proof -
  define d where "d = dropWhile (\<lambda>c. c = CHR ''/'') rest"
  define e where "e = dropWhile (\<lambda>c. c \<noteq> CHR ''/'') d"
  have ne: "d \<noteq> []" using assms(2) by (simp add: d_def)
  have "last d = last rest" using ne last_appendR [of d "takeWhile (\<lambda>c. c = CHR ''/'') rest"]
    by (simp add: d_def)
  moreover have "rest \<noteq> []" using ne by (auto simp: d_def)
  ultimately have l: "last d = CHR ''/''" using assms(1) by simp
  then have "CHR ''/'' \<in> set d" using ne last_in_set by fastforce
  then have e: "e \<noteq> []" by (auto simp: e_def dropWhile_eq_Nil_conv)
  moreover have "last e = last d" using e last_appendR [of e "takeWhile (\<lambda>c. c \<noteq> CHR ''/'') d"] by (simp add: e_def)
  ultimately show "dropWhile (\<lambda>c. c \<noteq> CHR ''/'') (dropWhile (\<lambda>c. c = CHR ''/'') rest) \<noteq> []"
    "last (dropWhile (\<lambda>c. c \<noteq> CHR ''/'') (dropWhile (\<lambda>c. c = CHR ''/'') rest)) = CHR ''/''"
    using l by (simp_all add: d_def e_def)
qed

lemma create_levels_quiet:
  assumes "way_free w (before @ rest)" "tape w = []" "mode < 4096" "rest = [] \<or> last rest = CHR ''/''"
  shows "\<exists>w'. create_levels mode timestamp before rest w = Some (0, w') \<and> tape w' = []"
  using assms
proof (induction "length rest" arbitrary: before rest w rule: less_induct)
  case less
  define d where "d = dropWhile (\<lambda>c. c = CHR ''/'') rest"
  define c where "c = before @ takeWhile (\<lambda>c. c = CHR ''/'') rest @ takeWhile (\<lambda>c. c \<noteq> CHR ''/'') d"
  define e where "e = dropWhile (\<lambda>c. c \<noteq> CHR ''/'') d"
  note step = create_levels.simps [of mode timestamp before rest, unfolded Let_def, folded d_def,
      folded e_def, folded c_def]
  show ?case
  proof (cases "d = []")
    case True
    with less.prems(2) show ?thesis by (subst step) simp
  next
    case False
    have split: "before @ rest = c @ e" by (simp add: c_def e_def d_def)
    have shorter: "length e < length rest" using False level_shorter [of rest] by (simp add: d_def e_def)
    note e = level_ends [OF less.prems(4), folded d_def, OF False, folded e_def]
    have last_e: "e = [] \<or> last e = CHR ''/''" using e(2) by simp
    have pre: "prefix c (before @ rest)" using split by simp
    show ?thesis
    proof (cases "is_dir w c")
      case True
      then have "getPathDirStatus c w = (DDIR, w)"
        using less.prems(2) by (auto simp: getPathDirStatus_def draw_def is_dir_def lookup_path_def)
      with less.hyps [OF shorter, of w c] less.prems False e(1) split last_e show ?thesis
        by (subst step) simp
    next
      case no: False
      then have none: "lookup_path w c = None" using less.prems(1) pre by (auto simp: way_free_def)
      then have st: "getPathDirStatus c w = (DMISSING, w)"
        using less.prems(2) by (auto simp: getPathDirStatus_def draw_def lookup_path_def)
      obtain w1 where mk: "mkdir c mode w = (0, w1)" "tape w1 = []"
        using less.prems(2) none by (auto simp: mkdir_def draw_def lookup_path_def)
      have ut: "utime c w1 = (0, w1)" using mk(2) by (simp add: utime_def draw_def)
      have free: "way_free w1 (c @ e)"
      proof (unfold way_free_def, intro allI impI)
        fix c' assume c': "prefix c' (c @ e)"
        show "lookup_path w1 c' = None \<or> is_dir w1 c'"
        proof (cases "node_path c' = node_path c")
          case True
          with mkdir_result(3) [OF mk(1)] less.prems(3) show ?thesis
            by (auto simp: is_dir_def lookup_path_def S_ISDIR_new)
        next
          case False
          with touches_lookup [OF mkdir_result(1) [OF mk(1)], of "node_path c'"]
          have "lookup_path w1 c' = lookup_path w c'" by (auto simp: lookup_path_def)
          with less.prems(1) c' split show ?thesis by (auto simp: way_free_def is_dir_def)
        qed
      qed
      from less.hyps [OF shorter free mk(2) less.prems(3) last_e] False e(1) st mk(1) ut show ?thesis
        by (subst step) auto
    qed
  qed
qed

lemma dir_part_slash:
  assumes "dir_part strip p = Some c"
  shows "c = [] \<or> last c = CHR ''/''"
proof (cases strip)
  case True
  define r where "r = dropWhile (\<lambda>c. c \<noteq> CHR ''/'') (rev p)"
  have "p = rev r @ rev (takeWhile (\<lambda>c. c \<noteq> CHR ''/'') (rev p))"
    using takeWhile_dropWhile_id [of "\<lambda>c. c \<noteq> CHR ''/''" "rev p"]
    unfolding r_def rev_append [symmetric] by simp
  then have "take (length r) p = rev r" by (metis append_eq_conv_conj length_rev)
  then have "c = rev r" using assms True by (auto simp: dir_part_def r_def Let_def split: if_splits)
  moreover have "r \<noteq> [] \<Longrightarrow> hd r = CHR ''/''"
    using hd_dropWhile [of "\<lambda>c. c \<noteq> CHR ''/''" "rev p"] by (simp add: r_def)
  ultimately show ?thesis by (auto simp: last_rev)
qed (use assms in \<open>auto simp: dir_part_def\<close>)

lemma dirCreateHierarchy_quiet:
  assumes "dir_part strip p = Some c" "way_free w c" "tape w = []" "mode < 4096" "p \<noteq> []"
  shows "\<exists>w'. dirCreateHierarchy p mode timestamp strip w = Some (0, w') \<and> tape w' = []"
proof -
  note slash = dir_part_slash [OF assms(1)]
  show ?thesis
  proof -
    note False = assms(5)
    from assms(2) have "lookup_path w c = None \<or> is_dir w c" by (auto simp: way_free_def)
    then show ?thesis
    proof
      assume "is_dir w c"
      then have "getPathDirStatus c w = (DDIR, w)"
        using assms(3) by (auto simp: getPathDirStatus_def draw_def is_dir_def lookup_path_def)
      with False assms show ?thesis by (simp add: dirCreateHierarchy_def)
    next
      assume "lookup_path w c = None"
      then have "getPathDirStatus c w = (DMISSING, w)"
        using assms(3) by (auto simp: getPathDirStatus_def draw_def lookup_path_def)
      with False assms create_levels_quiet [of w "[]" c mode timestamp] slash show ?thesis
        by (simp add: dirCreateHierarchy_def)
    qed
  qed
qed

end
