(* ===== verification/ZipExtract.thy ===== *)
theory ZipExtract
  imports ZipReaders DirUtil
begin

text \<open>
  \<open>minzip/Zip.c\<close>: the path an entry is extracted to, and extracting a directory of an archive
  (\<open>mzExtractRecursive\<close>).

  Memory for the paths is always available.  Names of entries are bytes, paths are strings.
\<close>

section \<open>The target path of an entry\<close>

definition text_of :: "byte list \<Rightarrow> string" where
  "text_of bs = map (\<lambda>b. char_of (unat b)) bs"

definition bytes_of :: "string \<Rightarrow> byte list" where
  "bytes_of s = map (\<lambda>c. word_of_nat (of_char c)) s"

text \<open>What a C string shows of the bytes it starts at.\<close>

definition c_string :: "string \<Rightarrow> string" where
  "c_string s = takeWhile (\<lambda>c. c \<noteq> CHR 0x00) s"

definition memcpy_at :: "nat \<Rightarrow> string \<Rightarrow> string \<Rightarrow> string ub" where
  "memcpy_at i xs buf =
     (if i + length xs \<le> length buf then Some (take i buf @ xs @ drop (i + length xs) buf) else None)"

text \<open>\<open>mz_buf\<close> is \<open>None\<close> before the first allocation; the bytes \<open>realloc\<close> adds are taken to be 0.\<close>

record MzPathHelper =
  mz_targetDir :: string
  mz_buf :: "string option"
  targetDirLen :: nat
  zipDirLen :: nat
  mz_bufLen :: nat

definition grow_buf :: "nat \<Rightarrow> string option \<Rightarrow> string" where
  "grow_buf n b = (case b of None \<Rightarrow> replicate n (CHR 0x00) | Some s \<Rightarrow> s @ replicate (n - length s) (CHR 0x00))"

definition targetEntryPath :: "MzPathHelper \<Rightarrow> ZipEntry \<Rightarrow> (path \<times> MzPathHelper) ub" where
  "targetEntryPath helper e = do {
     let firstTime = (mz_buf helper = None);
     let needLen = targetDirLen helper + 1 + (length (fileName e) - zipDirLen helper) + 1;
     let helper = (if needLen > mz_bufLen helper
       then helper\<lparr>mz_buf := Some (grow_buf (needLen * 2) (mz_buf helper)), mz_bufLen := needLen * 2\<rparr>
       else helper);
     buf \<leftarrow> mz_buf helper;
     (buf, helper) \<leftarrow>
       (if firstTime then do {
          buf \<leftarrow> memcpy_at 0 (take (targetDirLen helper) (mz_targetDir helper)) buf;
          let p = targetDirLen helper;
          (if p = 0 \<or> buf ! (p - 1) \<noteq> CHR ''/'' then do {
             buf \<leftarrow> memcpy_at p ''/'' buf;
             Some (buf, helper\<lparr>targetDirLen := targetDirLen helper + 1\<rparr>)
           }
           else Some (buf, helper))
        }
        else Some (buf, helper));
     buf \<leftarrow> memcpy_at (targetDirLen helper) (text_of (drop (zipDirLen helper) (fileName e))) buf;
     buf \<leftarrow> memcpy_at (targetDirLen helper + (length (fileName e) - zipDirLen helper)) [CHR 0x00] buf;
     Some (c_string buf, helper\<lparr>mz_buf := Some buf\<rparr>)
   }"

section \<open>Extracting one entry\<close>

definition MZ_EXTRACT_FILES_ONLY :: "32 word" where "MZ_EXTRACT_FILES_ONLY = 1"
definition MZ_EXTRACT_DRY_RUN :: "32 word" where "MZ_EXTRACT_DRY_RUN = 2"

definition UNZIP_DIRMODE :: nat where "UNZIP_DIRMODE = 493"
definition UNZIP_FILEMODE :: nat where "UNZIP_FILEMODE = 420"

text \<open>\<open>creat\<close> truncates a file and makes a new one; a directory cannot be opened.\<close>

definition creat :: "path \<Rightarrow> nat \<Rightarrow> world \<Rightarrow> bool \<times> world" where
  "creat p mode w = (case draw w of (e, w) \<Rightarrow>
     if e = Fail then (False, w)
     else (case lookup_path w p of
         Some f \<Rightarrow> if S_ISDIR (st_mode f) then (False, w)
                   else (True, set_files (AList.update (node_path p) (f\<lparr>content := []\<rparr>) (files w)) w)
       | None \<Rightarrow> (True, set_files (AList.update (node_path p)
           \<lparr>content = [], st_mode = mode, st_uid = 0, st_gid = 0\<rparr> (files w)) w)))"

definition symlink :: "byte list \<Rightarrow> path \<Rightarrow> world \<Rightarrow> int \<times> world" where
  "symlink target p w = (case draw w of (e, w) \<Rightarrow>
     if e = Fail \<or> lookup_path w p \<noteq> None then (- 1, w)
     else (0, set_files (AList.update (node_path p)
       \<lparr>content = target, st_mode = 40960 + 511, st_uid = 0, st_gid = 0\<rparr> (files w)) w))"

text \<open>How an entry leaves the loop: it goes on, or ends with this value of the outer \<open>ok\<close>.\<close>

datatype extracted = Go_on | Broken bool

text \<open>
  A symbolic link: the buffer has \<open>uncompLen + 1\<close> bytes.  A negative size is refused by \<open>malloc\<close>,
  but for -1, for which the 0 goes before the buffer.  A size larger than the data leaves bytes
  undefined, which matters unless they come after a 0.
\<close>

definition extract_symlink ::
  "'z inflater \<Rightarrow> byte list \<Rightarrow> nat \<Rightarrow> ZipEntry \<Rightarrow> path \<Rightarrow> world \<Rightarrow> (extracted \<times> world) ub" where
  "extract_symlink il za oldOff e targetFile w =
     (if uncompLen e = 0 then Some (Broken False, w)
      else if sint (uncompLen e) < - 1 then Some (Broken False, w)
      else do {
        (ok, buf, w) \<leftarrow> mzReadZipEntry il za oldOff e (sint (uncompLen e)) w;
        if \<not> ok then Some (Broken False, w)
        else if sint (uncompLen e) < 0 then None
        else if 0 \<notin> set buf \<and> int (length buf) \<noteq> sint (uncompLen e) then None
        else (case symlink (takeWhile (\<lambda>b. b \<noteq> 0) buf) targetFile w of (ret, w) \<Rightarrow>
          Some (if ret \<noteq> 0 then Broken False else Go_on, w))
      })"

text \<open>
  A regular file.  The \<open>ok\<close> these branches set is a variable of the block, not the one the function
  returns, which is still true.
\<close>

definition extract_regular ::
  "'z inflater \<Rightarrow> byte list \<Rightarrow> nat \<Rightarrow> bool \<Rightarrow> ZipEntry \<Rightarrow> path \<Rightarrow> world \<Rightarrow> (extracted \<times> world) ub" where
  "extract_regular il za oldOff timestamp e targetFile w =
     (case creat targetFile UNZIP_FILEMODE w of (opened, w) \<Rightarrow>
        if \<not> opened then Some (Broken False, w)
        else do {
          (ok, w) \<leftarrow> mzExtractZipEntryToFile il za oldOff e (node_path targetFile) w;
          if \<not> ok then Some (Broken True, w)
          else if timestamp then
            (case utime targetFile w of (ret, w) \<Rightarrow> Some (if ret \<noteq> 0 then Broken True else Go_on, w))
          else Some (Go_on, w)
        })"

definition flag_set :: "32 word \<Rightarrow> 32 word \<Rightarrow> bool" where
  "flag_set flags f \<longleftrightarrow> flags AND f \<noteq> 0"

text \<open>The last byte of an empty name would be read before the name.\<close>

definition extract_entry ::
  "'z inflater \<Rightarrow> byte list \<Rightarrow> nat \<Rightarrow> 32 word \<Rightarrow> bool \<Rightarrow> ZipEntry \<Rightarrow> path \<Rightarrow> world \<Rightarrow> (extracted \<times> world) ub" where
  "extract_entry il za oldOff flags timestamp e targetFile w =
     (if fileName e = [] then None
      else if last (fileName e) = 47 then
        (if \<not> flag_set flags MZ_EXTRACT_FILES_ONLY then do {
           (ret, w) \<leftarrow> dirCreateHierarchy targetFile UNZIP_DIRMODE timestamp False w;
           Some (if ret \<noteq> 0 then Broken False else Go_on, w)
         }
         else Some (Go_on, w))
      else do {
        (ret, w) \<leftarrow> dirCreateHierarchy targetFile UNZIP_DIRMODE timestamp True w;
        if ret \<noteq> 0 then Some (Broken False, w)
        else if \<not> flag_set flags MZ_EXTRACT_FILES_ONLY \<and> mzIsZipEntrySymlink e
        then extract_symlink il za oldOff e targetFile w
        else extract_regular il za oldOff timestamp e targetFile w
      })"

section \<open>Extracting a directory\<close>

definition call_back :: "(path \<Rightarrow> 'c \<Rightarrow> 'c) option \<Rightarrow> path \<Rightarrow> 'c \<Rightarrow> 'c" where
  "call_back callback p cookie = (case callback of None \<Rightarrow> cookie | Some f \<Rightarrow> f p cookie)"

fun extract_entries ::
  "'z inflater \<Rightarrow> byte list \<Rightarrow> nat \<Rightarrow> 32 word \<Rightarrow> bool \<Rightarrow> (path \<Rightarrow> 'c \<Rightarrow> 'c) option \<Rightarrow> byte list
    \<Rightarrow> ZipEntry list \<Rightarrow> bool \<Rightarrow> MzPathHelper \<Rightarrow> 'c \<Rightarrow> world \<Rightarrow> (bool \<times> 'c \<times> world) ub" where
  "extract_entries il za oldOff flags timestamp callback zpath [] seenMatch helper cookie w = Some (True, cookie, w)"
| "extract_entries il za oldOff flags timestamp callback zpath (e # es) seenMatch helper cookie w =
     (if length (fileName e) < length zpath \<or> strncmp (fileName e) zpath (length zpath) \<noteq> 0 then
        (if seenMatch then Some (True, cookie, w)
         else extract_entries il za oldOff flags timestamp callback zpath es seenMatch helper cookie w)
      else do {
        (targetFile, helper) \<leftarrow> targetEntryPath helper e;
        if flag_set flags MZ_EXTRACT_DRY_RUN
        then extract_entries il za oldOff flags timestamp callback zpath es True helper
               (call_back callback targetFile cookie) w
        else do {
          (r, w) \<leftarrow> extract_entry il za oldOff flags timestamp e targetFile w;
          (case r of
             Broken ok \<Rightarrow> Some (ok, cookie, w)
           | Go_on \<Rightarrow> extract_entries il za oldOff flags timestamp callback zpath es True helper
               (call_back callback targetFile cookie) w)
        }
      })"

definition mzExtractRecursive ::
  "'z inflater \<Rightarrow> byte list \<Rightarrow> nat \<Rightarrow> ZipArchive \<Rightarrow> string \<Rightarrow> string \<Rightarrow> 32 word \<Rightarrow> bool
    \<Rightarrow> (path \<Rightarrow> 'c \<Rightarrow> 'c) option \<Rightarrow> 'c \<Rightarrow> world \<Rightarrow> (bool \<times> 'c \<times> world) ub" where
  "mzExtractRecursive il za oldOff ar zipDir targetDir flags timestamp callback cookie w =
     (if zipDir \<noteq> [] \<and> hd zipDir = CHR ''/'' then Some (False, cookie, w)
      else if targetDir = [] \<or> hd targetDir \<noteq> CHR ''/'' then Some (False, cookie, w)
      else
        let zpath = (if zipDir \<noteq> [] \<and> last zipDir \<noteq> CHR ''/'' then zipDir @ ''/'' else zipDir);
            helper = \<lparr>mz_targetDir = targetDir, mz_buf = None, targetDirLen = length targetDir,
              zipDirLen = length zpath, mz_bufLen = 0\<rparr>
        in extract_entries il za oldOff flags timestamp callback (bytes_of zpath) (zipEntries ar) False helper
             cookie w)"


section \<open>Paths of entries\<close>

lemma text_of_append: "text_of (a @ b) = text_of a @ text_of b"
  by (simp add: text_of_def)

lemma length_text_of [simp]: "length (text_of b) = length b"
  by (simp add: text_of_def)

lemma unat_less_two_power_byte: "unat (x :: byte) < 256"
proof -
  have "unat x < 2 ^ LENGTH(8)" by (rule unsigned_less)
  then show ?thesis by simp
qed

lemma text_of_no_nul:
  assumes "0 \<notin> set b"
  shows "CHR 0x00 \<notin> set (text_of b)"
proof
  assume "CHR 0x00 \<in> set (text_of b)"
  then obtain x where x: "x \<in> set b" "char_of (unat x) = CHR 0x00" by (auto simp: text_of_def)
  from x(2) have "of_char (char_of (unat x) :: char) = (0 :: nat)" by simp
  moreover have "unat x < 256" using unat_less_two_power_byte [of x] .
  ultimately have "unat x = 0" by simp
  then have "x = 0" by (simp only: unat_eq_zero)
  with x(1) assms show False by simp
qed

lemma bytes_of_no_nul: "CHR 0x00 \<notin> set s \<Longrightarrow> 0 \<notin> set (bytes_of s)"
proof
  assume a: "CHR 0x00 \<notin> set s" "0 \<in> set (bytes_of s)"
  then obtain c where c: "c \<in> set s" "word_of_nat (of_char c) = (0 :: byte)" by (auto simp: bytes_of_def)
  then have "unat (word_of_nat (of_char c) :: byte) = 0" by simp
  then have "(of_char c :: nat) = 0" by (simp add: unat_of_nat)
  then have "of_char c = (of_char (CHR 0x00) :: nat)" by simp
  then have "c = CHR 0x00" by (simp only: of_char_eq_iff)
  with a(1) c(1) show False by simp
qed

lemma length_bytes_of [simp]: "length (bytes_of s) = length s"
  by (simp add: bytes_of_def)

lemma strncmp_prefix:
  "0 \<notin> set z \<Longrightarrow> (length a < length z \<or> strncmp a z (length z) \<noteq> 0) \<longleftrightarrow> \<not> prefix z a"
proof (induction z arbitrary: a)
  case (Cons x z)
  then show ?case by (cases a) (auto simp: word_uint_eq_iff)
qed simp

text \<open>In a sorted list the names with a common prefix are next to each other.\<close>

lemma prefix_between:
  fixes a b c :: "'a :: linorder list"
  assumes "a \<le> b" "b \<le> c" "prefix z a" "prefix z c"
  shows "prefix z b"
  using assms
proof (induction z arbitrary: a b c)
  case (Cons x z)
  then obtain a' c' where ac: "a = x # a'" "c = x # c'" "prefix z a'" "prefix z c'"
    by (auto elim!: prefixE)
  with Cons.prems(1) obtain y b' where b: "b = y # b'" by (cases b) auto
  with Cons.prems ac have "x = y" "a' \<le> b'" "b' \<le> c'" by auto
  with Cons.IH ac b show ?case by simp
qed simp

text \<open>Every path begins with the target directory and a slash.\<close>

definition base_dir :: "path \<Rightarrow> path" where
  "base_dir td = (if td = [] \<or> last td \<noteq> CHR ''/'' then td @ ''/'' else td)"

lemma base_dir_not_Nil [simp]: "base_dir td \<noteq> []"
  by (simp add: base_dir_def)

definition entry_path :: "path \<Rightarrow> nat \<Rightarrow> ZipEntry \<Rightarrow> path" where
  "entry_path td n e = base_dir td @ text_of (drop n (fileName e))"

definition helper_ok :: "path \<Rightarrow> nat \<Rightarrow> MzPathHelper \<Rightarrow> bool" where
  "helper_ok td n h \<longleftrightarrow> mz_targetDir h = td \<and> zipDirLen h = n
     \<and> (case mz_buf h of
          None \<Rightarrow> targetDirLen h = length td \<and> mz_bufLen h = 0
        | Some b \<Rightarrow> length b = mz_bufLen h \<and> targetDirLen h = length (base_dir td) \<and> prefix (base_dir td) b)"

lemma memcpy_at_inside:
  "i + length xs \<le> length buf \<Longrightarrow> memcpy_at i xs buf = Some (take i buf @ xs @ drop (i + length xs) buf)"
  by (simp add: memcpy_at_def)

lemma memcpy_at_behind:
  assumes "length p + length xs \<le> length buf" "prefix p buf"
  shows "\<exists>buf'. memcpy_at (length p) xs buf = Some buf' \<and> length buf' = length buf \<and> prefix (p @ xs) buf'"
  using assms by (auto simp: memcpy_at_def prefix_def)

lemma grow_buf_length: "length b \<le> n \<Longrightarrow> length (grow_buf n (Some b)) = n" "length (grow_buf n None) = n"
  by (simp_all add: grow_buf_def)

lemma targetEntryPath_spec:
  assumes "helper_ok td n h" "n \<le> length (fileName e)" "0 \<notin> set (fileName e)" "CHR 0x00 \<notin> set td"
  shows "\<exists>h'. targetEntryPath h e = Some (entry_path td n e, h') \<and> helper_ok td n h'"
proof -
  let ?t = "text_of (drop n (fileName e))" and ?B = "base_dir td"
  have nul: "CHR 0x00 \<notin> set (?B @ ?t)"
    using text_of_no_nul [of "drop n (fileName e)"] assms(3,4) by (auto simp: base_dir_def dest: in_set_dropD)
  have finish: "\<exists>b'. memcpy_at (length ?B) ?t b = Some b' \<and> length b' = length b \<and> (\<exists>b''.
      memcpy_at (length ?B + (length (fileName e) - n)) [CHR 0x00] b' = Some b'' \<and> length b'' = length b
      \<and> prefix ?B b'' \<and> c_string b'' = ?B @ ?t)"
    if "prefix ?B b" "length ?B + length ?t + 1 \<le> length b" for b
  proof -
    from memcpy_at_behind [of ?B ?t b] that obtain b' where
      b': "memcpy_at (length ?B) ?t b = Some b'" "length b' = length b" "prefix (?B @ ?t) b'" by auto
    from memcpy_at_behind [of "?B @ ?t" "[CHR 0x00]" b'] that b' obtain b'' where
      b'': "memcpy_at (length (?B @ ?t)) [CHR 0x00] b' = Some b''" "length b'' = length b'"
      "prefix ((?B @ ?t) @ [CHR 0x00]) b''" by auto
    from b''(3) obtain r where "b'' = (?B @ ?t) @ CHR 0x00 # r" by (auto simp: prefix_def)
    moreover have "c_string ((?B @ ?t) @ CHR 0x00 # r) = ?B @ ?t"
      unfolding c_string_def using nul by (subst takeWhile_append2) auto
    ultimately have "c_string b'' = ?B @ ?t" "prefix ?B b''" by simp_all
    with b' b'' show ?thesis by auto
  qed
  show ?thesis
  proof (cases "mz_buf h")
    case None
    with assms(1) have h: "targetDirLen h = length td" "mz_bufLen h = 0" "mz_targetDir h = td" "zipDirLen h = n"
      by (auto simp: helper_ok_def)
    define need where "need = length td + 1 + (length (fileName e) - n) + 1"
    define b where "b = grow_buf (need * 2) None"
    have lb: "length b = need * 2" by (simp add: b_def grow_buf_def)
    define b1 where "b1 = td @ drop (length td) b"
    have b1: "memcpy_at 0 td b = Some b1" "length b1 = length b" using lb by (auto simp: memcpy_at_def b1_def need_def)
    define b2 where "b2 = (if td = [] \<or> last td \<noteq> CHR ''/'' then (td @ ''/'') @ drop (length td + 1) b else b1)"
    have b2: "length b2 = length b" "prefix ?B b2" using lb by (auto simp: b2_def b1_def base_dir_def need_def)
    have lastc: "td \<noteq> [] \<Longrightarrow> b1 ! (length td - Suc 0) = last td"
      by (simp add: b1_def nth_append last_conv_nth)
    have slash: "memcpy_at (length td) ''/'' b1 = Some b2" if "td = [] \<or> last td \<noteq> CHR ''/''"
      using that lb b1(2) by (auto simp: memcpy_at_def b2_def b1_def need_def)
    have tl2: "length ?B = length td + (if td = [] \<or> last td \<noteq> CHR ''/'' then 1 else 0)"
      by (simp add: base_dir_def)
    from finish [OF b2(2)] tl2 lb b2(1) obtain b3 b4 where
      f: "memcpy_at (length ?B) ?t b2 = Some b3"
      "memcpy_at (length ?B + (length (fileName e) - n)) [CHR 0x00] b3 = Some b4" "length b4 = length b"
      "prefix ?B b4" "c_string b4 = ?B @ ?t" by (auto simp: need_def split: if_splits)
    have same: "b2 = b1" if "\<not> (td = [] \<or> last td \<noteq> CHR ''/'')" using that by (simp add: b2_def)
    have lt: "0 < need" by (simp add: need_def)
    have "targetEntryPath h e = Some (?B @ ?t, h\<lparr>mz_buf := Some b4, mz_bufLen := length b, targetDirLen := length ?B\<rparr>)"
    proof (cases "td = [] \<or> last td \<noteq> CHR ''/''")
      case True
      with slash have s: "memcpy_at (length td) ''/'' b1 = Some b2" by simp
      have c: "length td = 0 \<or> b1 ! (length td - 1) \<noteq> CHR ''/''" using True lastc by auto
      have B: "length ?B = length td + 1" using True tl2 by simp
      show ?thesis
        unfolding targetEntryPath_def Let_def h None need_def [symmetric]
        using lt b1(1) f s c B lb h None by (simp add: b_def [symmetric])
    next
      case False
      then have c: "\<not> (length td = 0 \<or> b1 ! (length td - 1) \<noteq> CHR ''/'')" using lastc by auto
      have B: "length ?B = length td" using False tl2 by simp
      show ?thesis
        unfolding targetEntryPath_def Let_def h None need_def [symmetric]
        using lt b1(1) f c B lb h None same [OF False] by (simp add: b_def [symmetric])
    qed
    with f h b1(2) show ?thesis by (auto simp: helper_ok_def entry_path_def)
  next
    case (Some b)
    with assms(1) have h: "targetDirLen h = length ?B" "mz_bufLen h = length b" "mz_targetDir h = td"
      "zipDirLen h = n" "prefix ?B b" by (auto simp: helper_ok_def)
    define need where "need = length ?B + 1 + (length (fileName e) - n) + 1"
    define b1 where "b1 = (if need > length b then grow_buf (need * 2) (Some b) else b)"
    have b1: "need \<le> length b1" "prefix ?B b1" using h(5) by (auto simp: b1_def grow_buf_def prefix_def)
    from finish [OF b1(2)] b1(1) obtain b3 b4 where
      f: "memcpy_at (length ?B) ?t b1 = Some b3"
      "memcpy_at (length ?B + (length (fileName e) - n)) [CHR 0x00] b3 = Some b4" "length b4 = length b1"
      "prefix ?B b4" "c_string b4 = ?B @ ?t" by (auto simp: need_def)
    have lb1: "length b1 = (if need > length b then need * 2 else length b)"
      by (simp add: b1_def grow_buf_def)
    have "\<exists>h'. targetEntryPath h e = Some (?B @ ?t, h') \<and> mz_buf h' = Some b4 \<and> mz_bufLen h' = length b1
      \<and> targetDirLen h' = length ?B \<and> mz_targetDir h' = td \<and> zipDirLen h' = n"
    proof (cases "need > length b")
      case True
      then show ?thesis
        unfolding targetEntryPath_def Let_def h Some need_def [symmetric]
        using f lb1 h by (simp add: b1_def)
    next
      case False
      then show ?thesis
        unfolding targetEntryPath_def Let_def h Some need_def [symmetric]
        using f lb1 h Some by (simp add: b1_def)
    qed
    with f h(5) show ?thesis by (auto simp: helper_ok_def entry_path_def)
  qed
qed


section \<open>What is extracted\<close>

text \<open>Extracting a list of entries with their paths, one after the other.\<close>

fun extract_list ::
  "'z inflater \<Rightarrow> byte list \<Rightarrow> nat \<Rightarrow> 32 word \<Rightarrow> bool \<Rightarrow> (path \<Rightarrow> 'c \<Rightarrow> 'c) option
    \<Rightarrow> (ZipEntry \<times> path) list \<Rightarrow> 'c \<Rightarrow> world \<Rightarrow> (bool \<times> 'c \<times> world) ub" where
  "extract_list il za oldOff flags timestamp callback [] cookie w = Some (True, cookie, w)"
| "extract_list il za oldOff flags timestamp callback ((e, p) # eps) cookie w =
     (if flag_set flags MZ_EXTRACT_DRY_RUN
      then extract_list il za oldOff flags timestamp callback eps (call_back callback p cookie) w
      else do {
        (r, w) \<leftarrow> extract_entry il za oldOff flags timestamp e p w;
        (case r of
           Broken ok \<Rightarrow> Some (ok, cookie, w)
         | Go_on \<Rightarrow> extract_list il za oldOff flags timestamp callback eps (call_back callback p cookie) w)
      })"

definition zip_path :: "string \<Rightarrow> string" where
  "zip_path zipDir = (if zipDir \<noteq> [] \<and> last zipDir \<noteq> CHR ''/'' then zipDir @ ''/'' else zipDir)"

definition selected :: "ZipArchive \<Rightarrow> string \<Rightarrow> ZipEntry list" where
  "selected ar zipDir = filter (\<lambda>e. prefix (bytes_of (zip_path zipDir)) (fileName e)) (zipEntries ar)"

definition with_paths :: "string \<Rightarrow> path \<Rightarrow> ZipEntry list \<Rightarrow> (ZipEntry \<times> path) list" where
  "with_paths zipDir td es = map (\<lambda>e. (e, entry_path td (length (zip_path zipDir)) e)) es"

text \<open>After the first match, the first entry that does not match ends the search.\<close>

lemma no_more_matches:
  assumes "sorted (names (e # es))" "\<not> prefix z (fileName e)" "prefix z a" "a \<le> fileName e"
  shows "filter (\<lambda>e. prefix z (fileName e)) (e # es) = []"
proof -
  have "\<not> prefix z (fileName e')" if "e' \<in> set es" for e'
    using prefix_between [of a "fileName e" "fileName e'" z] assms that by auto
  with assms(2) show ?thesis by (auto simp: filter_empty_conv)
qed

lemma extract_entries_list:
  assumes "helper_ok td (length z) h" "0 \<notin> set z" "CHR 0x00 \<notin> set td" "sorted (names es)"
    "\<forall>e \<in> set es. 0 \<notin> set (fileName e)"
    "seen \<Longrightarrow> \<exists>a. prefix z a \<and> (\<forall>e \<in> set es. a \<le> fileName e)"
  shows "extract_entries il za oldOff flags timestamp callback z es seen h cookie w
    = extract_list il za oldOff flags timestamp callback
        (map (\<lambda>e. (e, entry_path td (length z) e)) (filter (\<lambda>e. prefix z (fileName e)) es)) cookie w"
  using assms
proof (induction es arbitrary: seen h cookie w)
  case (Cons e es)
  note match = strncmp_prefix [OF Cons.prems(2), of "fileName e"]
  show ?case
  proof (cases "prefix z (fileName e)")
    case False
    have "filter (\<lambda>e. prefix z (fileName e)) (e # es) = []" if seen
      using no_more_matches [OF Cons.prems(4) False] Cons.prems(6) [OF that] by auto
    with False match Cons show ?thesis by (cases seen) auto
  next
    case True
    then have len: "length z \<le> length (fileName e)" by (rule prefix_length_le)
    from targetEntryPath_spec [OF Cons.prems(1) len _ Cons.prems(3)] Cons.prems(5) obtain h' where
      h': "targetEntryPath h e = Some (entry_path td (length z) e, h')" "helper_ok td (length z) h'" by auto
    have "\<exists>a. prefix z a \<and> (\<forall>e \<in> set es. a \<le> fileName e)" using True Cons.prems(4) by auto
    with Cons.IH [OF h'(2) Cons.prems(2,3)] Cons.prems(4,5)
    have "extract_entries il za oldOff flags timestamp callback z es True h' cookie w
      = extract_list il za oldOff flags timestamp callback
          (map (\<lambda>e. (e, entry_path td (length z) e)) (filter (\<lambda>e. prefix z (fileName e)) es)) cookie w"
      for cookie w by simp
    with True match h'(1) show ?thesis
      by (cases "extract_entry il za oldOff flags timestamp e (entry_path td (length z) e) w")
        (simp_all split: prod.split extracted.split)
  qed
qed simp

lemma mzExtractRecursive_list:
  assumes "mzOpenZipArchive lib pMap = Some (Some ar)" "\<not> prefix ''/'' zipDir" "prefix ''/'' targetDir"
    "CHR 0x00 \<notin> set zipDir" "CHR 0x00 \<notin> set targetDir"
  shows "mzExtractRecursive il za oldOff ar zipDir targetDir flags timestamp callback cookie w
    = extract_list il za oldOff flags timestamp callback
        (with_paths zipDir targetDir (selected ar zipDir)) cookie w"
proof -
  obtain ds where ar: "archive_of ds ar" by (rule opened_archive [OF assms(1)])
  have rel: "\<not> (zipDir \<noteq> [] \<and> hd zipDir = CHR ''/'')" "\<not> (targetDir = [] \<or> hd targetDir \<noteq> CHR ''/'')"
    using assms(2,3) by (cases zipDir, simp_all) (cases targetDir, simp_all)
  have "CHR 0x00 \<notin> set (zip_path zipDir)" using assms(4) by (simp add: zip_path_def)
  note nul = bytes_of_no_nul [OF this]
  have "helper_ok targetDir (length (bytes_of (zip_path zipDir))) \<lparr>mz_targetDir = targetDir, mz_buf = None,
    targetDirLen = length targetDir, zipDirLen = length (zip_path zipDir), mz_bufLen = 0\<rparr>"
    by (simp add: helper_ok_def)
  from extract_entries_list [OF this nul assms(5), of "zipEntries ar" False] ar
  show ?thesis
    unfolding mzExtractRecursive_def Let_def if_not_P [OF rel(1)] if_not_P [OF rel(2)] zip_path_def [symmetric]
    by (simp add: archive_of_def validFilename_no_nul with_paths_def selected_def)
qed


section \<open>Where extraction writes\<close>

lemma creat_touches [touch]: "creat p mode w = (r, w') \<Longrightarrow> touches ((=) (node_path p)) w w'"
  by (auto simp: creat_def draw_def split: if_splits option.splits intro!: set_files_touches)

lemma creat_opens: "creat p mode w = (True, w') \<Longrightarrow> lookup w' (node_path p) \<noteq> None"
  by (auto simp: creat_def draw_def split: if_splits option.splits)

lemma symlink_touches [touch]: "symlink t p w = (r, w') \<Longrightarrow> touches ((=) (node_path p)) w w'"
  by (auto simp: symlink_def draw_def split: if_splits option.splits intro!: set_files_touches)

lemma dir_part_way: "dir_part strip p = Some c \<Longrightarrow> prefix c (p @ ''/'')"
  by (auto simp: dir_part_def Let_def take_is_prefix prefix_append split: if_splits)

lemma dirCreateHierarchy_touches:
  assumes "dirCreateHierarchy p mode timestamp strip w = Some (r, w')"
  shows "touches (on_way (p @ ''/'')) w w'"
proof (rule touches_mono [OF dirCreateHierarchy_spec(1) [OF assms]])
  fix q assume "\<exists>c. dir_part strip p = Some c \<and> on_way c q"
  then obtain c c' where "prefix c (p @ ''/'')" "prefix c' c" "q = node_path c'"
    by (auto simp: on_way_def dest: dir_part_way)
  then show "on_way (p @ ''/'') q" using prefix_order.trans unfolding on_way_def by blast
qed

lemma on_way_end: "on_way (p @ ''/'') (node_path p)"
  by (auto simp: on_way_def)

lemma at_end: "touches ((=) (node_path p)) w w' \<Longrightarrow> touches (on_way (p @ ''/'')) w w'"
  by (erule touches_mono) (auto simp: on_way_end)

lemma extract_symlink_touches:
  assumes "extract_symlink il za oldOff e p w = Some (r, w')"
  shows "touches ((=) (node_path p)) w w'"
  using assms
  by (auto simp: extract_symlink_def split: if_splits bind_splits prod.splits
      intro: touches_trans [OF mzReadZipEntry_touches symlink_touches] mzReadZipEntry_touches)

lemma extract_regular_touches:
  assumes "extract_regular il za oldOff timestamp e p w = Some (r, w')"
  shows "touches ((=) (node_path p)) w w'"
proof -
  obtain opened w1 where cr: "creat p UNZIP_FILEMODE w = (opened, w1)" by (cases "creat p UNZIP_FILEMODE w")
  show ?thesis
  proof (cases opened)
    case True
    with assms cr obtain ok w2 where ex: "mzExtractZipEntryToFile il za oldOff e (node_path p) w1 = Some (ok, w2)"
      by (auto simp: extract_regular_def split: bind_splits)
    have "lookup w1 (node_path p) \<noteq> None" using creat_opens cr True by simp
    then have t2: "touches ((=) (node_path p)) w w2"
      using touches_trans [OF creat_touches [OF cr] mzExtractZipEntryToFile_touches [OF ex]] by blast
    obtain r3 w3 where ut: "utime p w2 = (r3, w3)" by (cases "utime p w2")
    have t3: "touches ((=) (node_path p)) w w3" using touches_trans [OF t2 utime_touches [OF ut]] .
    show ?thesis using assms cr True ex ut t2 t3 by (auto simp: extract_regular_def split: if_splits)
  qed (use assms cr creat_touches in \<open>auto simp: extract_regular_def\<close>)
qed

lemma extract_entry_touches:
  assumes "extract_entry il za oldOff flags timestamp e p w = Some (r, w')"
  shows "touches (on_way (p @ ''/'')) w w'"
  using assms
  by (auto simp: extract_entry_def split: if_splits bind_splits
      dest!: dirCreateHierarchy_touches extract_symlink_touches [THEN at_end]
        extract_regular_touches [THEN at_end] intro: touches_trans)

lemma extract_list_touches:
  "extract_list il za oldOff flags timestamp callback eps cookie w = Some (ok, k, w') \<Longrightarrow>
    touches (\<lambda>q. \<exists>(e, p) \<in> set eps. on_way (p @ ''/'') q) w w'"
proof (induction il za oldOff flags timestamp callback eps cookie w rule: extract_list.induct)
  case (2 il za oldOff flags timestamp callback e p eps cookie w)
  let ?P = "\<lambda>q. \<exists>(e, p) \<in> set ((e, p) # eps). on_way (p @ ''/'') q"
  let ?Q = "\<lambda>q. \<exists>(e, p) \<in> set eps. on_way (p @ ''/'') q"
  have mono: "touches ?Q w1 w2 \<Longrightarrow> touches ?P w1 w2" for w1 w2 by (erule touches_mono) auto
  show ?case
  proof (cases "flag_set flags MZ_EXTRACT_DRY_RUN")
    case True
    with 2 mono show ?thesis by simp
  next
    case False
    with 2(3) obtain r w1 where r: "extract_entry il za oldOff flags timestamp e p w = Some (r, w1)"
      "(case r of Broken ok \<Rightarrow> Some (ok, cookie, w1)
         | Go_on \<Rightarrow> extract_list il za oldOff flags timestamp callback eps (call_back callback p cookie) w1)
       = Some (ok, k, w')" by (auto split: bind_splits)
    have t1: "touches ?P w w1" by (rule touches_mono [OF extract_entry_touches [OF r(1)]]) auto
    show ?thesis
    proof (cases r)
      case Go_on
      with r 2(2) [OF False] have "touches ?Q w1 w'" by simp
      with t1 mono show ?thesis by (blast intro: touches_trans)
    qed (use r t1 in auto)
  qed
qed simp

section \<open>Extraction on a quiet system\<close>

text \<open>
  Regular files that do not get into each other's way: the directory of each can be made, none is a
  directory already, no two are the same file, and none is a directory on the way to another.
\<close>

definition plain_name :: "ZipEntry \<Rightarrow> bool" where
  "plain_name e \<longleftrightarrow> fileName e \<noteq> [] \<and> last (fileName e) \<noteq> 47"

definition dirs_of :: "path \<Rightarrow> path set" where
  "dirs_of p = {q. \<exists>c. dir_part True p = Some c \<and> on_way c q}"

definition room_for :: "world \<Rightarrow> path \<Rightarrow> bool" where
  "room_for w p \<longleftrightarrow> \<not> is_dir w p \<and> (case dir_part True p of None \<Rightarrow> False | Some c \<Rightarrow> way_free w c)"

definition laid_out :: "path list \<Rightarrow> bool" where
  "laid_out ps \<longleftrightarrow> distinct (map node_path ps) \<and> (\<forall>p \<in> set ps. \<forall>p' \<in> set ps. node_path p \<notin> dirs_of p')"

lemma dirs_only_room:
  assumes "room_for w p" "dirs_only w w'" "lookup_path w' p = lookup_path w p"
  shows "room_for w' p"
  using assms unfolding room_for_def way_free_def dirs_only_def is_dir_def
  by (auto split: option.splits) (metis option.distinct(1))

lemma file_room:
  assumes "room_for w p" "touches ((=) q) w w'" "q \<noteq> node_path p" "q \<notin> dirs_of p"
  shows "room_for w' p"
proof -
  have same: "lookup_path w' c = lookup_path w c" if "node_path c \<noteq> q" for c
    using touches_lookup [OF assms(2), of "node_path c"] that by (auto simp: lookup_path_def)
  have "node_path c' \<noteq> q" if "dir_part True p = Some c" "prefix c' c" for c c'
    using assms(4) that by (auto simp: dirs_of_def on_way_def)
  with same assms(1,3) show ?thesis
    by (auto simp: room_for_def way_free_def is_dir_def split: option.splits)
qed

lemma creat_quiet:
  assumes "\<not> is_dir w p" "tape w = []"
  shows "\<exists>w' f. creat p mode w = (True, w') \<and> lookup w' (node_path p) = Some f \<and> content f = [] \<and> tape w' = []
    \<and> \<not> S_ISDIR (st_mode f) \<or> S_ISDIR mode"
  using assms by (auto simp: creat_def draw_def is_dir_def lookup_path_def split: option.splits)

lemma not_dir_mode: "\<not> S_ISDIR UNZIP_FILEMODE"
  by (simp add: S_ISDIR_def file_type_def UNZIP_FILEMODE_def)

text \<open>One file.\<close>

lemma extract_entry_quiet:
  assumes "inflater_ok il dec" "inflater_live il dec held" "fst (inflateInit2 il) = Z_OK"
    "sound_entry il dec za e d" "plain_name e" "flag_set flags MZ_EXTRACT_FILES_ONLY"
    "room_for w p" "p \<noteq> []" "node_path p \<notin> dirs_of p" "tape w = []"
  shows "\<exists>w1 w' f. extract_entry il za oldOff flags timestamp e p w = Some (Go_on, w') \<and> tape w' = []
    \<and> dirs_only w w1 \<and> touches (\<lambda>q. q \<in> dirs_of p) w w1 \<and> touches ((=) (node_path p)) w1 w'
    \<and> lookup w' (node_path p) = Some f \<and> content f = d"
proof -
  from assms(7) obtain c where c: "dir_part True p = Some c" "way_free w c" "\<not> is_dir w p"
    by (auto simp: room_for_def split: option.splits)
  from dirCreateHierarchy_quiet [OF c(1,2) assms(10) _ assms(8), of UNZIP_DIRMODE timestamp] obtain w1 where
    dc: "dirCreateHierarchy p UNZIP_DIRMODE timestamp True w = Some (0, w1)" "tape w1 = []"
    by (auto simp: UNZIP_DIRMODE_def)
  note spec = dirCreateHierarchy_spec [OF dc(1)]
  have t1: "touches (\<lambda>q. q \<in> dirs_of p) w w1" using spec(1) by (simp add: dirs_of_def)
  have o1: "dirs_only w w1" using spec(3) by (simp add: UNZIP_DIRMODE_def)
  have "lookup_path w1 p = lookup_path w p"
    using touches_lookup [OF t1 assms(9)] by (simp add: lookup_path_def)
  with c(3) have "\<not> is_dir w1 p" by (simp add: is_dir_def)
  from creat_quiet [OF this dc(2), of UNZIP_FILEMODE] not_dir_mode obtain w2 f where
    cr: "creat p UNZIP_FILEMODE w1 = (True, w2)" "lookup w2 (node_path p) = Some f" "content f = []" "tape w2 = []"
    by blast
  from sound_entry_extracted [OF assms(1-4) cr(2,4), of oldOff] obtain w3 where
    ex: "mzExtractZipEntryToFile il za oldOff e (node_path p) w2 = Some (True, w3)"
    "lookup w3 (node_path p) = Some (f\<lparr>content := content f @ d\<rparr>)" "tape w3 = []" by blast
  have ut: "utime p w3 = (0, w3)" using ex(3) by (simp add: utime_def draw_def)
  have t3: "touches ((=) (node_path p)) w1 w3"
    using touches_trans [OF creat_touches [OF cr(1)] mzExtractZipEntryToFile_touches [OF ex(1)]] cr(2) by simp
  have "extract_entry il za oldOff flags timestamp e p w = Some (Go_on, w3)"
    using assms(5,6) dc cr ex ut by (simp add: extract_entry_def plain_name_def extract_regular_def)
  with ex t1 o1 t3 cr(3) show ?thesis by fastforce
qed

lemma extract_list_quiet:
  assumes "inflater_ok il dec" "inflater_live il dec held" "fst (inflateInit2 il) = Z_OK"
    "flag_set flags MZ_EXTRACT_FILES_ONLY" "\<not> flag_set flags MZ_EXTRACT_DRY_RUN"
    "\<forall>(e, p) \<in> set eps. (\<exists>d. sound_entry il dec za e d) \<and> plain_name e \<and> p \<noteq> [] \<and> room_for w p"
    "laid_out (map snd eps)" "tape w = []"
  shows "\<exists>w'. extract_list il za oldOff flags timestamp callback eps cookie w
      = Some (True, fold (call_back callback) (map snd eps) cookie, w')
    \<and> (\<forall>(e, p) \<in> set eps. \<exists>f. lookup_path w' p = Some f \<and> entry_data il dec za e = Some (content f))
    \<and> touches (\<lambda>q. \<exists>p \<in> snd ` set eps. q \<in> dirs_of p \<or> q = node_path p) w w'"
  using assms(6-)
proof (induction eps arbitrary: cookie w)
  case (Cons ep eps)
  obtain e p where ep: "ep = (e, p)" by (cases ep)
  with Cons.prems(1) obtain d where d: "sound_entry il dec za e d" "plain_name e" "p \<noteq> []" "room_for w p"
    by auto
  have laid: "laid_out (p # map snd eps)" using Cons.prems(2) ep by simp
  then have own: "node_path p \<notin> dirs_of p" by (simp add: laid_out_def)
  have away: "node_path p \<notin> dirs_of p' \<and> node_path p' \<notin> dirs_of p \<and> node_path p' \<noteq> node_path p"
    if "p' \<in> snd ` set eps" for p'
  proof -
    have p': "p' \<in> set (map snd eps)" using that by simp
    have "node_path p \<notin> node_path ` set (map snd eps)" using laid
      unfolding laid_out_def list.map(2) distinct.simps(2) set_map by blast
    then have "node_path p' \<noteq> node_path p" using imageI [OF p', of node_path] by metis
    with laid p' show ?thesis unfolding laid_out_def list.set by blast
  qed
  from extract_entry_quiet [OF assms(1-3) d(1,2) assms(4) d(4,3) own Cons.prems(3), of oldOff timestamp]
  obtain w1 w2 f where
    one: "extract_entry il za oldOff flags timestamp e p w = Some (Go_on, w2)" "tape w2 = []"
    "dirs_only w w1" "touches (\<lambda>q. q \<in> dirs_of p) w w1" "touches ((=) (node_path p)) w1 w2"
    "lookup w2 (node_path p) = Some f" "content f = d" by blast
  have room: "room_for w2 p'" if "p' \<in> snd ` set eps" for p'
  proof -
    have "room_for w p'" using Cons.prems(1) that by auto
    moreover have "lookup_path w1 p' = lookup_path w p'"
      using touches_lookup [OF one(4), of "node_path p'"] away [OF that] by (auto simp: lookup_path_def)
    ultimately have "room_for w1 p'" using dirs_only_room one(3) by blast
    with one(5) away [OF that] show ?thesis by (auto intro: file_room)
  qed
  have "\<forall>(e, p) \<in> set eps. (\<exists>d. sound_entry il dec za e d) \<and> plain_name e \<and> p \<noteq> [] \<and> room_for w2 p"
  proof (rule ballI, clarify)
    fix e' p' assume x: "(e', p') \<in> set eps"
    then have "p' \<in> snd ` set eps" by force
    with room have "room_for w2 p'" by simp
    moreover have "(\<exists>d. sound_entry il dec za e' d) \<and> plain_name e' \<and> p' \<noteq> []" using Cons.prems(1) x by auto
    ultimately show "(\<exists>d. sound_entry il dec za e' d) \<and> plain_name e' \<and> p' \<noteq> [] \<and> room_for w2 p'" by simp
  qed
  moreover have "laid_out (map snd eps)" using Cons.prems(2) by (auto simp: laid_out_def)
  ultimately have "\<exists>w'. extract_list il za oldOff flags timestamp callback eps (call_back callback p cookie) w2
      = Some (True, fold (call_back callback) (map snd eps) (call_back callback p cookie), w')
    \<and> (\<forall>(e, p) \<in> set eps. \<exists>f. lookup_path w' p = Some f \<and> entry_data il dec za e = Some (content f))
    \<and> touches (\<lambda>q. \<exists>p \<in> snd ` set eps. q \<in> dirs_of p \<or> q = node_path p) w2 w'"
    by (rule Cons.IH [OF _ _ one(2)])
  then obtain w' where
    w': "extract_list il za oldOff flags timestamp callback eps (call_back callback p cookie) w2
      = Some (True, fold (call_back callback) (map snd eps) (call_back callback p cookie), w')"
    "\<forall>(e, p) \<in> set eps. \<exists>f. lookup_path w' p = Some f \<and> entry_data il dec za e = Some (content f)"
    "touches (\<lambda>q. \<exists>p \<in> snd ` set eps. q \<in> dirs_of p \<or> q = node_path p) w2 w'"
    by blast
  have "lookup w' (node_path p) = lookup w2 (node_path p)"
  proof (rule touches_lookup [OF w'(3)], rule notI, elim bexE)
    fix p' assume "p' \<in> snd ` set eps" "node_path p \<in> dirs_of p' \<or> node_path p = node_path p'"
    with away [of p'] show False by simp
  qed
  then have own_data: "lookup_path w' p = Some f \<and> entry_data il dec za e = Some (content f)"
    using one(6,7) d(1) by (simp add: lookup_path_def sound_entry_def)
  with w'(2) have kept: "\<forall>(e, p) \<in> set (ep # eps). \<exists>f. lookup_path w' p = Some f
      \<and> entry_data il dec za e = Some (content f)" by (simp add: ep)
  let ?P = "\<lambda>q. \<exists>p \<in> snd ` set (ep # eps). q \<in> dirs_of p \<or> q = node_path p"
  have a: "touches ?P w w1" by (rule touches_mono [OF one(4)]) (simp add: ep)
  have b: "touches ?P w1 w2" by (rule touches_mono [OF one(5)]) (simp add: ep)
  have c: "touches ?P w2 w'" by (rule touches_mono [OF w'(3)]) (simp add: ep)
  note all = touches_trans [OF touches_trans [OF a b] c]
  from kept one(1) w'(1) assms(5) all show ?case by (simp add: ep)
qed simp


section \<open>Properties\<close>

text \<open>
  C16. Extraction is the list of its entries: on an archive that was opened, the loop with its reused path
  buffer and its early end, which relies on the order of the entries, extracts exactly the entries whose
  names begin with the directory asked for, in the order of the archive, each to the target directory with
  a slash and the rest of its name; the path buffer is never overrun.  A dry run gives each of these paths
  to the callback and does nothing else.
\<close>

theorem mzExtractRecursive_entries:
  assumes "mzOpenZipArchive lib pMap = Some (Some ar)" "\<not> prefix ''/'' zipDir" "prefix ''/'' targetDir"
    "CHR 0x00 \<notin> set zipDir" "CHR 0x00 \<notin> set targetDir"
  shows "mzExtractRecursive il za oldOff ar zipDir targetDir flags timestamp callback cookie w
    = extract_list il za oldOff flags timestamp callback (with_paths zipDir targetDir (selected ar zipDir)) cookie w
   \<and> (flag_set flags MZ_EXTRACT_DRY_RUN \<longrightarrow>
       mzExtractRecursive il za oldOff ar zipDir targetDir flags timestamp callback cookie w
       = Some (True, fold (call_back callback) (map snd (with_paths zipDir targetDir (selected ar zipDir))) cookie, w))"
proof -
  have "extract_list il za oldOff flags timestamp callback eps cookie w
      = Some (True, fold (call_back callback) (map snd eps) cookie, w)"
    if "flag_set flags MZ_EXTRACT_DRY_RUN" for eps
    using that by (induction eps arbitrary: cookie) auto
  then show ?thesis by (simp add: mzExtractRecursive_list [OF assms])
qed


text \<open>
  C12. Extraction succeeds: on a system on which no call fails, when the selected entries are files whose
  compressed data lies in the archive and decodes with the declared size, and their paths do not collide
  with each other or with what is there, then \<open>mzExtractRecursive\<close> with \<open>MZ_EXTRACT_FILES_ONLY\<close> returns
  true, the callback has had every path, and at the end every path is a file with the contents of its entry.
\<close>

theorem mzExtractRecursive_quiet:
  assumes "mzOpenZipArchive lib pMap = Some (Some ar)" "\<not> prefix ''/'' zipDir" "prefix ''/'' targetDir"
    "CHR 0x00 \<notin> set zipDir" "CHR 0x00 \<notin> set targetDir"
    and "inflater_ok il dec" "inflater_live il dec held" "fst (inflateInit2 il) = Z_OK"
    and "flag_set flags MZ_EXTRACT_FILES_ONLY" "\<not> flag_set flags MZ_EXTRACT_DRY_RUN"
    and "eps = with_paths zipDir targetDir (selected ar zipDir)"
    and "\<forall>(e, p) \<in> set eps. (\<exists>d. sound_entry il dec za e d) \<and> plain_name e \<and> room_for w p"
    and "laid_out (map snd eps)" "tape w = []"
  shows "\<exists>w'. mzExtractRecursive il za oldOff ar zipDir targetDir flags timestamp callback cookie w
      = Some (True, fold (call_back callback) (map snd eps) cookie, w')
    \<and> (\<forall>(e, p) \<in> set eps. \<exists>f. lookup_path w' p = Some f \<and> entry_data il dec za e = Some (content f))"
proof -
  have "p \<noteq> []" if "(e, p) \<in> set eps" for e p
    using that by (auto simp: assms(11) with_paths_def entry_path_def)
  with assms(12) have "\<forall>(e, p) \<in> set eps. (\<exists>d. sound_entry il dec za e d) \<and> plain_name e \<and> p \<noteq> [] \<and> room_for w p"
    by blast
  from extract_list_quiet [OF assms(6-10) this assms(13,14), of oldOff timestamp callback cookie]
  show ?thesis unfolding mzExtractRecursive_list [OF assms(1-5)] assms(11) [symmetric] by blast
qed


text \<open>The demo archive: two stored files of one byte.\<close>

lemma demo_fields:
  "map_option (map_sum id (map (\<lambda>e. (fileName e, compLen e, offset e, uncompLen e, compression e))))
     (directory demo_lib demo_map 2 32)
   = Some (Inr [([0x62], 1, 31, 1, 0), ([0x61], 1, 31, 1, 0)])"
  by code_simp

lemma demo_entries:
  obtains ar e1 e2 where "mzOpenZipArchive demo_lib demo_map = Some (Some ar)" "zipEntries ar = [e1, e2]"
    "fileName e1 = [0x61]" "fileName e2 = [0x62]"
    "\<forall>e \<in> set [e1, e2]. compLen e = 1 \<and> offset e = 31 \<and> uncompLen e = 1 \<and> compression e = 0"
proof -
  from map_result_Inr [OF demo_fields] obtain ds where "directory demo_lib demo_map 2 32 = Some (Inr ds)
    \<and> map (\<lambda>e. (fileName e, compLen e, offset e, uncompLen e, compression e)) ds
     = [([0x62], 1, 31, 1, 0), ([0x61], 1, 31, 1, 0)]" ..
  note ds = this [THEN conjunct1] this [THEN conjunct2]
  from ds(2) obtain d1 d2 where d12: "ds = [d1, d2]" "fileName d1 = [0x62]" "fileName d2 = [0x61]"
    "compLen d1 = 1 \<and> offset d1 = 31 \<and> uncompLen d1 = 1 \<and> compression d1 = 0"
    "compLen d2 = 1 \<and> offset d2 = 31 \<and> uncompLen d2 = 1 \<and> compression d2 = 0"
    by (auto simp: map_eq_Cons_conv)
  then have fields: "\<forall>e \<in> set ds. compLen e = 1 \<and> offset e = 31 \<and> uncompLen e = 1 \<and> compression e = 0"
    and ns: "names ds = [[0x62], [0x61]]" by simp_all
  have "unat (2 :: 16 word) = 2" "unat (32 :: 32 word) = 32" by simp_all
  with ds(1) have d: "directory demo_lib demo_map (unat (2 :: 16 word)) (unat (32 :: 32 word)) = Some (Inr ds)"
    by simp
  obtain ar where ar: "mzOpenZipArchive demo_lib demo_map = Some (Some ar)" "set (zipEntries ar) = set ds"
    "names (zipEntries ar) = sort (names ds)"
    by (rule open_from_directory [OF _ demo_scan(1-4) _ _ _ d]) (simp_all add: demo_map_def demo_scan(5))
  have "names (zipEntries ar) = [[0x61], [0x62]]" using ar(3) ns by simp
  then obtain e1 e2 where e: "zipEntries ar = [e1, e2]" "fileName e1 = [0x61]" "fileName e2 = [0x62]"
    unfolding map_eq_Cons_conv by blast
  have "set [e1, e2] = set ds" using ar(2) e(1) by simp
  with fields have "\<forall>e \<in> set [e1, e2]. compLen e = 1 \<and> offset e = 31 \<and> uncompLen e = 1 \<and> compression e = 0"
    by simp
  then show thesis by (rule that [OF ar(1) e])
qed

definition empty_fs :: world where
  "empty_fs = \<lparr>files = [], devices = [], mtd = [], proc = None, tape = [], history = [], short = False\<rparr>"

lemma demo_text: "text_of [0x61] = ''a''" "text_of [0x62] = ''b''"
  by code_simp+

lemma demo_selected:
  assumes "zipEntries ar = [e1, e2]" "fileName e1 = [0x61]" "fileName e2 = [0x62]"
  shows "with_paths [] ''/t'' (selected ar []) = [(e1, ''/t/a''), (e2, ''/t/b'')]"
  using assms demo_text
  by (simp add: with_paths_def selected_def zip_path_def bytes_of_def entry_path_def base_dir_def)

theorem mzExtractRecursive_entries_witness:
  "\<exists>ar. mzOpenZipArchive demo_lib demo_map = Some (Some ar)
    \<and> mzExtractRecursive demo_inflater demo_zip 0 ar [] ''/t'' 2 True (Some (\<lambda>p ps. ps @ [p])) [] demo_fs
      = Some (True, [''/t/a'', ''/t/b''], demo_fs)"
proof -
  obtain ar e1 e2 where ar: "mzOpenZipArchive demo_lib demo_map = Some (Some ar)" "zipEntries ar = [e1, e2]"
    "fileName e1 = [0x61]" "fileName e2 = [0x62]" by (rule demo_entries)
  from mzExtractRecursive_entries [OF ar(1), of "[]" "''/t''" demo_inflater demo_zip 0 2 True
      "Some (\<lambda>p ps. ps @ [p])" "[]" demo_fs] demo_selected [OF ar(2-4)] ar(1)
  show ?thesis by (simp add: flag_set_def MZ_EXTRACT_DRY_RUN_def call_back_def)
qed


lemma demo_paths: "node_path ''/t/a'' = ''/t/a''" "node_path ''/t/b'' = ''/t/b''"
  "dir_part True ''/t/a'' = Some ''/t/''" "dir_part True ''/t/b'' = Some ''/t/''"
  by (simp_all add: node_path_def dir_part_def)

lemma on_way_set: "on_way p q \<longleftrightarrow> q \<in> node_path ` set (prefixes p)"
  by (auto simp: on_way_def)

lemma demo_room: "room_for empty_fs ''/t/a''" "room_for empty_fs ''/t/b''"
  "laid_out [''/t/a'', ''/t/b'']"
  by (simp_all add: room_for_def demo_paths is_dir_def lookup_path_def lookup_def empty_fs_def way_free_def
      laid_out_def dirs_of_def on_way_set node_path_def)

lemma demo_sound:
  assumes "compLen e = 1 \<and> offset e = 31 \<and> uncompLen e = 1 \<and> compression e = 0"
  shows "sound_entry demo_inflater demo_dec demo_zip e [120]"
  using assms by (simp add: sound_entry_def entry_data_def entry_source_def demo_zip_def STORED_def DEFLATED_def)

lemma demo_inflater_init: "fst (inflateInit2 demo_inflater) = Z_OK"
  by (simp add: demo_inflater_def Z_OK_def)

lemma demo_flags: "flag_set 1 MZ_EXTRACT_FILES_ONLY" "\<not> flag_set 1 MZ_EXTRACT_DRY_RUN"
  by (simp_all add: flag_set_def MZ_EXTRACT_FILES_ONLY_def MZ_EXTRACT_DRY_RUN_def)


theorem mzExtractRecursive_quiet_witness:
  "\<exists>ar w'. mzOpenZipArchive demo_lib demo_map = Some (Some ar)
    \<and> mzExtractRecursive demo_inflater demo_zip 0 ar [] ''/t'' 1 True (Some (\<lambda>p ps. ps @ [p])) [] empty_fs
      = Some (True, [''/t/a'', ''/t/b''], w')
    \<and> map_option content (lookup_path w' ''/t/b'') = Some [120]"
proof -
  obtain ar e1 e2 where ar: "mzOpenZipArchive demo_lib demo_map = Some (Some ar)" "zipEntries ar = [e1, e2]"
    "fileName e1 = [0x61]" "fileName e2 = [0x62]"
    "\<forall>e \<in> set [e1, e2]. compLen e = 1 \<and> offset e = 31 \<and> uncompLen e = 1 \<and> compression e = 0"
    by (rule demo_entries)
  have fine: "\<forall>(e, p) \<in> set [(e1, ''/t/a''), (e2, ''/t/b'')].
      (\<exists>d. sound_entry demo_inflater demo_dec demo_zip e d) \<and> plain_name e \<and> room_for empty_fs p"
    using ar(3-5) demo_sound demo_room by (auto simp: plain_name_def)
  have d2: "entry_data demo_inflater demo_dec demo_zip e2 = Some [120]"
    using demo_sound [of e2] ar(5) by (simp add: sound_entry_def)
  from mzExtractRecursive_quiet [OF ar(1), of "[]" "''/t''" demo_inflater demo_dec id 1
      "[(e1, ''/t/a''), (e2, ''/t/b'')]" demo_zip empty_fs 0 True "Some (\<lambda>p ps. ps @ [p])" "[]"]
    demo_inflater_ok demo_inflater_init demo_flags demo_selected [OF ar(2-4)] fine demo_room(3)
  obtain w' where "mzExtractRecursive demo_inflater demo_zip 0 ar [] ''/t'' 1 True (Some (\<lambda>p ps. ps @ [p])) []
      empty_fs = Some (True, [''/t/a'', ''/t/b''], w')"
    "\<exists>f. lookup_path w' ''/t/b'' = Some f \<and> Some [120] = Some (content f)"
    unfolding d2 [symmetric] by (auto simp: empty_fs_def call_back_def)
  with ar(1) show ?thesis by auto
qed

definition dir_fs :: world where
  "dir_fs = empty_fs\<lparr>files := [(''/t'', \<lparr>content = [], st_mode = 16384, st_uid = 0, st_gid = 0\<rparr>)]\<rparr>"


end
