(* ===== verification/Mounts.thy ===== *)
theory Mounts
  imports World
begin

text \<open>
  \<open>mtdutils/mounts.c\<close>: the table of mounted volumes, filled from the text of \<open>/proc/mounts\<close>.

  The table is an array of 32 volumes; a volume that was unmounted is zeroed (\<open>None\<close>).  A text has no
  NUL in it.
\<close>

section \<open>The table\<close>

record MountedVolume =
  mv_device :: string
  mv_mount_point :: string
  mv_filesystem :: string
  mv_flags :: string

record MountsState =
  volumes :: "MountedVolume option list option"
  volume_count :: nat

definition no_mounts :: MountsState where
  "no_mounts = \<lparr>volumes = None, volume_count = 0\<rparr>"

text \<open>The conversion \<open>%ns\<close> of \<open>sscanf\<close>: white space is skipped, at most \<open>n\<close> characters are read.\<close>

definition sscanf_string :: "nat \<Rightarrow> string \<Rightarrow> (string \<times> string) option" where
  "sscanf_string n s = (let s = dropWhile isspace s; f = take n (takeWhile (\<lambda>c. \<not> isspace c) s) in
     if s = [] then None else Some (f, drop (length f) s))"

definition sscanf_volume :: "string \<Rightarrow> MountedVolume option" where
  "sscanf_volume s = do {
     (device, s) \<leftarrow> sscanf_string 63 s;
     (mount_point, s) \<leftarrow> sscanf_string 63 s;
     (filesystem, s) \<leftarrow> sscanf_string 63 s;
     (flags, s) \<leftarrow> sscanf_string 127 s;
     Some \<lparr>mv_device = device, mv_mount_point = mount_point, mv_filesystem = filesystem, mv_flags = flags\<rparr>
   }"

lemma line_shorter: "bufp \<noteq> [] \<Longrightarrow> length (drop 1 (dropWhile P bufp)) < length bufp"
  using length_dropWhile_le [of P bufp] by (cases bufp) auto

text \<open>The lines: nothing stops the count at the end of the array.\<close>

function scan_lines :: "string \<Rightarrow> MountedVolume option list \<Rightarrow> nat \<Rightarrow> MountsState ub" where
  "scan_lines bufp vols n =
     (if bufp = [] then Some \<lparr>volumes = Some vols, volume_count = n\<rparr>
      else
        let rest = drop 1 (dropWhile (\<lambda>c. c \<noteq> CHR 0x0A) bufp) in
        (case sscanf_volume bufp of
           None \<Rightarrow> scan_lines rest vols n
         | Some v \<Rightarrow>
             if n < length vols then scan_lines rest (vols[n := Some v]) (n + 1) else None))"
  by pat_completeness auto

termination
  by (relation "measure (\<lambda>(bufp, vols, n). length bufp)")
    (use line_shorter in \<open>auto simp del: drop_Suc\<close>)

declare scan_lines.simps [simp del]

text \<open>\<open>None\<close> stands for a file that cannot be read.\<close>

definition scan_mounted_volumes :: "string option \<Rightarrow> MountsState \<Rightarrow> (int \<times> MountsState) ub" where
  "scan_mounted_volumes proc_mounts st =
     (let vols = (case volumes st of
            None \<Rightarrow> replicate 32 None
          | Some vols \<Rightarrow> replicate (volume_count st) None @ drop (volume_count st) vols)
      in case proc_mounts of
           None \<Rightarrow> Some (- 1, \<lparr>volumes = Some vols, volume_count = 0\<rparr>)
         | Some t \<Rightarrow> do {
             st \<leftarrow> scan_lines (take 2047 t) vols 0;
             Some (0, st)
           })"

definition find_mounted_volume :: "(MountedVolume \<Rightarrow> bool) \<Rightarrow> MountsState \<Rightarrow> nat option" where
  "find_mounted_volume P st = (case volumes st of
     None \<Rightarrow> None
   | Some vols \<Rightarrow> find (\<lambda>i. case vols ! i of None \<Rightarrow> False | Some v \<Rightarrow> P v) [0..<volume_count st])"

definition find_mounted_volume_by_device :: "string \<Rightarrow> MountsState \<Rightarrow> nat option" where
  "find_mounted_volume_by_device device = find_mounted_volume (\<lambda>v. mv_device v = device)"

definition find_mounted_volume_by_mount_point :: "string \<Rightarrow> MountsState \<Rightarrow> nat option" where
  "find_mounted_volume_by_mount_point mount_point = find_mounted_volume (\<lambda>v. mv_mount_point v = mount_point)"

text \<open>\<open>umount\<close> of a zeroed volume gets a null pointer and fails.\<close>

definition unmount_mounted_volume :: "nat \<Rightarrow> MountsState \<Rightarrow> world \<Rightarrow> (int \<times> MountsState \<times> world) ub" where
  "unmount_mounted_volume i st w = do {
     vols \<leftarrow> volumes st;
     v \<leftarrow> array_get vols i;
     (case draw w of (e, w) \<Rightarrow>
        if e = Fail \<or> v = None then Some (- 1, st, w)
        else Some (0, st\<lparr>volumes := Some (vols[i := None])\<rparr>, w))
   }"

definition remount_read_only :: "nat \<Rightarrow> MountsState \<Rightarrow> world \<Rightarrow> (int \<times> world) ub" where
  "remount_read_only i st w = do {
     vols \<leftarrow> volumes st;
     v \<leftarrow> array_get vols i;
     (case draw w of (e, w) \<Rightarrow> Some (if e = Fail \<or> v = None then - 1 else 0, w))
   }"

section \<open>Reading back what was printed\<close>

definition word_ok :: "nat \<Rightarrow> string \<Rightarrow> bool" where
  "word_ok n s \<longleftrightarrow> s \<noteq> [] \<and> length s \<le> n \<and> list_all (\<lambda>c. \<not> isspace c) s"

definition volume_ok :: "MountedVolume \<Rightarrow> bool" where
  "volume_ok v \<longleftrightarrow> word_ok 63 (mv_device v) \<and> word_ok 63 (mv_mount_point v) \<and> word_ok 63 (mv_filesystem v)
     \<and> word_ok 127 (mv_flags v)"

text \<open>A line of \<open>/proc/mounts\<close>.\<close>

definition volume_line :: "MountedVolume \<Rightarrow> string" where
  "volume_line v = mv_device v @ '' '' @ mv_mount_point v @ '' '' @ mv_filesystem v @ '' '' @ mv_flags v
     @ '' 0 0'' @ [CHR 0x0A]"

definition mounts_text :: "MountedVolume list \<Rightarrow> string" where
  "mounts_text vs = concat (map volume_line vs)"

lemma isspace_cases: "isspace (CHR '' '')" "\<not> isspace (CHR ''0'')" "isspace (CHR 0x0A)"
  by (simp_all add: isspace_def)

lemma sscanf_word:
  assumes "word_ok n f" "isspace c"
  shows "sscanf_string n (f @ c # s) = Some (f, c # s)"
proof -
  have f: "\<forall>x \<in> set f. \<not> isspace x" "f \<noteq> []" "length f \<le> n" using assms(1) by (auto simp: word_ok_def list_all_iff)
  then have d: "dropWhile isspace (f @ c # s) = f @ c # s" by (cases f) auto
  have t: "takeWhile (\<lambda>c. \<not> isspace c) (f @ c # s) = f" using f assms(2) by (simp add: takeWhile_append2)
  show ?thesis using f by (simp only: sscanf_string_def Let_def d t) simp
qed

lemma sscanf_skip: "isspace c \<Longrightarrow> sscanf_string n (c # s) = sscanf_string n s"
  by (simp add: sscanf_string_def)

lemma sscanf_volume_line: "volume_ok v \<Longrightarrow> sscanf_volume (volume_line v @ s) = Some v"
  by (simp add: volume_ok_def sscanf_volume_def volume_line_def sscanf_word sscanf_skip isspace_cases)

lemma line_end:
  assumes "volume_ok v"
  shows "drop 1 (dropWhile (\<lambda>c. c \<noteq> CHR 0x0A) (volume_line v @ s)) = s"
proof -
  let ?l = "mv_device v @ '' '' @ mv_mount_point v @ '' '' @ mv_filesystem v @ '' '' @ mv_flags v @ '' 0 0''"
  have "CHR 0x0A \<notin> set (mv_device v)" "CHR 0x0A \<notin> set (mv_mount_point v)"
    "CHR 0x0A \<notin> set (mv_filesystem v)" "CHR 0x0A \<notin> set (mv_flags v)"
    using assms isspace_cases(3) unfolding volume_ok_def word_ok_def list_all_iff by blast+
  then have "CHR 0x0A \<notin> set ?l" by simp
  then have all: "\<forall>c \<in> set ?l. c \<noteq> CHR 0x0A" by metis
  have "dropWhile (\<lambda>c. c \<noteq> CHR 0x0A) (?l @ CHR 0x0A # s) = dropWhile (\<lambda>c. c \<noteq> CHR 0x0A) (CHR 0x0A # s)"
    by (rule dropWhile_append2) (use all in blast)
  then show ?thesis by (simp add: volume_line_def)
qed

lemma scan_lines_text:
  assumes "list_all volume_ok vs" "n \<le> length vols"
  shows "scan_lines (mounts_text vs) vols n =
    (if n + length vs \<le> length vols
     then Some \<lparr>volumes = Some (take n vols @ map Some vs @ drop (n + length vs) vols), volume_count = n + length vs\<rparr>
     else None)"
  using assms
proof (induction vs arbitrary: vols n)
  case Nil
  then show ?case by (simp add: mounts_text_def scan_lines.simps)
next
  case (Cons v vs)
  then have v: "volume_ok v" by simp
  have ne: "volume_line v \<noteq> []" by (simp add: volume_line_def)
  have t: "mounts_text (v # vs) = volume_line v @ mounts_text vs" by (simp add: mounts_text_def)
  have step: "scan_lines (mounts_text (v # vs)) vols n =
      (if n < length vols then scan_lines (mounts_text vs) (vols[n := Some v]) (n + 1) else None)"
    using ne line_end [OF v] sscanf_volume_line [OF v]
    by (subst scan_lines.simps) (simp add: t Let_def)
  show ?case
  proof (cases "n < length vols")
    case True
    have "take (Suc n) (vols[n := Some v]) @ map Some vs @ drop (Suc n + length vs) (vols[n := Some v])
      = take n vols @ map Some (v # vs) @ drop (n + length (v # vs)) vols"
      using True by (simp add: take_Suc_conv_app_nth)
    with step Cons True show ?thesis by simp
  qed (use step Cons.prems in auto)
qed

definition mounts_ok :: "MountsState \<Rightarrow> bool" where
  "mounts_ok st \<longleftrightarrow> (case volumes st of None \<Rightarrow> True | Some vols \<Rightarrow> length vols = 32 \<and> volume_count st \<le> 32)"

lemma find_upt: "find Q [0..<n] = Some i \<longleftrightarrow> i < n \<and> Q i \<and> (\<forall>j < i. \<not> Q j)"
  by (auto simp: find_Some_iff)

section \<open>Properties\<close>

text \<open>
  C23. The mount table is the text of the kernel: scanning a text of at most 2047 characters, one line for
  each of at most 32 volumes, fills the table with exactly these volumes in their order, and the search for
  a mount point then finds the first volume mounted there, and nothing exactly when there is none.  With
  more than 32 volumes the scan writes past the end of its array.
\<close>

theorem scan_mounted_volumes_reads:
  assumes "list_all volume_ok vs" "length (mounts_text vs) \<le> 2047" "mounts_ok st"
  shows "if length vs \<le> 32
    then \<exists>vols st'. scan_mounted_volumes (Some (mounts_text vs)) st = Some (0, st')
      \<and> volumes st' = Some vols \<and> take (length vs) vols = map Some vs \<and> volume_count st' = length vs \<and> mounts_ok st'
      \<and> (case find_mounted_volume_by_mount_point p st' of
           None \<Rightarrow> p \<notin> mv_mount_point ` set vs
         | Some i \<Rightarrow> i < length vs \<and> mv_mount_point (vs ! i) = p \<and> p \<notin> mv_mount_point ` set (take i vs))
    else scan_mounted_volumes (Some (mounts_text vs)) st = None"
proof -
  define vols where "vols = (case volumes st of None \<Rightarrow> replicate 32 None
    | Some vols \<Rightarrow> replicate (volume_count st) None @ drop (volume_count st) vols)"
  have len: "length vols = 32" using assms(3) by (auto simp: vols_def mounts_ok_def split: option.splits)
  have t: "take 2047 (mounts_text vs) = mounts_text vs" using assms(2) by simp
  note scan = scan_lines_text [OF assms(1), of 0 vols]
  show ?thesis
  proof (cases "length vs \<le> 32")
    case True
    define st' where "st' = \<lparr>volumes = Some (map Some vs @ drop (length vs) vols), volume_count = length vs\<rparr>"
    have run: "scan_mounted_volumes (Some (mounts_text vs)) st = Some (0, st')"
      using True scan len by (simp add: scan_mounted_volumes_def Let_def vols_def [symmetric] t st'_def)
    have entry: "(map Some vs @ drop (length vs) vols) ! i = Some (vs ! i)" if "i < length vs" for i
      using that by (simp add: nth_append)
    have at: "(case (map Some vs @ drop (length vs) vols) ! i of None \<Rightarrow> False | Some v \<Rightarrow> mv_mount_point v = p)
        \<longleftrightarrow> mv_mount_point (vs ! i) = p" if "i < length vs" for i
      using entry [OF that] by simp
    have "case find_mounted_volume_by_mount_point p st' of
        None \<Rightarrow> p \<notin> mv_mount_point ` set vs
      | Some i \<Rightarrow> i < length vs \<and> mv_mount_point (vs ! i) = p \<and> p \<notin> mv_mount_point ` set (take i vs)"
    proof (cases "find_mounted_volume_by_mount_point p st'")
      case None
      then have "\<forall>i < length vs. mv_mount_point (vs ! i) \<noteq> p"
        using at by (auto simp: find_mounted_volume_by_mount_point_def find_mounted_volume_def st'_def find_None_iff)
      with None show ?thesis by (auto simp: in_set_conv_nth)
    next
      case (Some i)
      then have "i < length vs" "mv_mount_point (vs ! i) = p" "\<forall>j < i. mv_mount_point (vs ! j) \<noteq> p"
        using at by (auto simp: find_mounted_volume_by_mount_point_def find_mounted_volume_def st'_def find_upt)
      moreover from this have "p \<notin> mv_mount_point ` set (take i vs)"
        unfolding in_set_conv_nth image_iff Bex_def by (metis length_take min_less_iff_conj nth_take)
      ultimately show ?thesis using Some by simp
    qed
    with run True len show ?thesis by (auto simp: st'_def mounts_ok_def)
  next
    case False
    with scan len show ?thesis by (simp add: scan_mounted_volumes_def Let_def vols_def [symmetric] t)
  qed
qed

definition system_volume :: MountedVolume where
  "system_volume = \<lparr>mv_device = ''/dev/block/mtdblock4'', mv_mount_point = ''/system'', mv_filesystem = ''yaffs2'',
     mv_flags = ''rw,nodev''\<rparr>"

lemma system_volume_ok: "volume_ok system_volume"
  by code_simp

theorem scan_mounted_volumes_reads_witness:
  "(\<exists>st. scan_mounted_volumes (Some (mounts_text [system_volume])) no_mounts = Some (0, st)
     \<and> find_mounted_volume_by_mount_point ''/system'' st = Some 0)
   \<and> scan_mounted_volumes (Some (mounts_text (replicate 33 system_volume))) no_mounts = None"
proof -
  have l: "length (mounts_text (replicate n system_volume)) = 49 * n" for n
    by (induction n) (simp_all add: mounts_text_def volume_line_def system_volume_def)
  have st: "mounts_ok no_mounts" by (simp add: mounts_ok_def no_mounts_def)
  have "scan_mounted_volumes (Some (mounts_text (replicate 33 system_volume))) no_mounts = None"
    using scan_mounted_volumes_reads [of "replicate 33 system_volume" no_mounts] l [of 33] st system_volume_ok
    by (simp add: list_all_iff)
  moreover obtain st where "scan_mounted_volumes (Some (mounts_text [system_volume])) no_mounts = Some (0, st)"
    "find_mounted_volume_by_mount_point ''/system'' st = Some 0"
    using scan_mounted_volumes_reads [of "[system_volume]" no_mounts "''/system''"] l [of 1] st system_volume_ok
    by (auto split: option.splits simp: system_volume_def)
  ultimately show ?thesis by blast
qed

end
