(* ===== verification/Updater.thy ===== *)
theory Updater
  imports Edify_Builtins Edify_Table ApplyPatch ZipExtract Mounts
begin

text \<open>
  \<open>updater/install.c\<close>: the edify functions of an update script, on the interpreter of Edify, the
  archive of Zip, the files of World and the patcher of ApplyPatch; and \<open>main\<close> of \<open>updater/updater.c\<close>.

  The state of the interpreter is extended by the system: its files and devices, the text written to the
  command pipe, the table of mounted volumes, and what the next scans of \<open>/proc/mounts\<close> will read.
  \<open>updater_env\<close> holds what the functions get from elsewhere: zlib, bzip2, SHA-1, the property service, the
  text of \<open>strerror\<close>, programs that are run, the result of writing a raw partition, the text that
  \<open>strtod\<close> and \<open>%f\<close> make of a number; and the package, which does not change while a script runs.
  Messages on \<open>stderr\<close> and SELinux contexts are not modelled.
\<close>

section \<open>State\<close>

record updater_state = State +
  up_world :: world
  cmd_pipe :: string
  mount_table :: MountsState
  proc_mounts :: "string option list"

datatype flash_type = UNSUPPORTED | FLASH_MTD | FLASH_MMC | FLASH_BML

record ('s, 'z, 'i) updater_env =
  env_bz :: "'s bz2"
  env_zl :: "'z zlib"
  env_il :: "'i inflater"
  env_sha :: "byte list \<Rightarrow> byte list"
  env_property :: "string \<Rightarrow> string"
  env_strerror :: string
  env_float :: "string \<Rightarrow> string"
  env_program :: "string list \<Rightarrow> world \<Rightarrow> int \<times> world"
  env_restore :: "flash_type \<Rightarrow> string \<Rightarrow> string \<Rightarrow> world \<Rightarrow> int \<times> world"
  env_flash_type :: flash_type
  env_zip :: ZipArchive
  env_za :: "byte list"
  env_pos :: nat

type_synonym ufun = "updater_state Function"
type_synonym uresult = "(Value option \<times> updater_state) ub"

section \<open>Arguments, messages, and effects on the system\<close>

definition arg_error :: "string \<Rightarrow> string \<Rightarrow> nat \<Rightarrow> updater_state \<Rightarrow> uresult" where
  "arg_error name expects argc st =
     Some (None, ErrorAbort (name @ ''() expects '' @ expects @ '', got '' @ show_nat argc) st)"

definition abort_with :: "string \<Rightarrow> updater_state \<Rightarrow> uresult" where
  "abort_with msg st = Some (None, ErrorAbort msg st)"

definition return_string :: "string \<Rightarrow> updater_state \<Rightarrow> uresult" where
  "return_string s st = Some (StringValue (Some s), st)"

text \<open>\<open>if (ReadArgs(state, argv, n, ...) < 0) return NULL;\<close> and its variants.\<close>

definition with_args ::
  "nat \<Rightarrow> updater_state arg list \<Rightarrow> updater_state \<Rightarrow> (string list \<Rightarrow> updater_state \<Rightarrow> uresult) \<Rightarrow> uresult" where
  "with_args n as st k = do {
     (r, st) \<leftarrow> ReadArgs as n st;
     (case r of None \<Rightarrow> Some (None, st) | Some args \<Rightarrow> k args st)
   }"

definition with_var_args ::
  "updater_state arg list \<Rightarrow> updater_state \<Rightarrow> (string list \<Rightarrow> updater_state \<Rightarrow> uresult) \<Rightarrow> uresult" where
  "with_var_args as st k = do {
     (r, st) \<leftarrow> ReadVarArgs as st;
     (case r of None \<Rightarrow> Some (None, st) | Some args \<Rightarrow> k args st)
   }"

definition with_values ::
  "updater_state arg list \<Rightarrow> updater_state \<Rightarrow> (Value list \<Rightarrow> updater_state \<Rightarrow> uresult) \<Rightarrow> uresult" where
  "with_values as st k = do {
     (r, st) \<leftarrow> ReadValueVarArgs as st;
     (case r of None \<Rightarrow> Some (None, st) | Some args \<Rightarrow> k args st)
   }"

definition on_world :: "(world \<Rightarrow> 'b \<times> world) \<Rightarrow> updater_state \<Rightarrow> 'b \<times> updater_state" where
  "on_world f st = (case f (up_world st) of (r, w) \<Rightarrow> (r, st\<lparr>up_world := w\<rparr>))"

definition on_world_ub :: "(world \<Rightarrow> ('b \<times> world) ub) \<Rightarrow> updater_state \<Rightarrow> ('b \<times> updater_state) ub" where
  "on_world_ub f st = do { (r, w) \<leftarrow> f (up_world st); Some (r, st\<lparr>up_world := w\<rparr>) }"

definition to_pipe :: "string \<Rightarrow> updater_state \<Rightarrow> updater_state" where
  "to_pipe s st = st\<lparr>cmd_pipe := cmd_pipe st @ s\<rparr>"

abbreviation newline :: string where "newline \<equiv> [CHR 0x0A]"

text \<open>The first argument of a list that is empty, of those that must not be.\<close>

fun first_empty :: "(string \<times> string) list \<Rightarrow> string option" where
  "first_empty [] = None"
| "first_empty ((what, s) # xs) = (if s = [] then Some what else first_empty xs)"

section \<open>Mounting\<close>

definition mount_call :: "world \<Rightarrow> int \<times> world" where
  "mount_call w = (case draw w of (e, w) \<Rightarrow> (if e = Fail then - 1 else 0, w))"

text \<open>\<open>mtd_mount_partition\<close> of \<open>mtdutils/mtdutils.c\<close>, for writing: a second attempt is read-only.\<close>

definition mtd_mount_partition :: "string \<Rightarrow> world \<Rightarrow> int \<times> world" where
  "mtd_mount_partition mount_point w = (case mount_call w of (rv, w) \<Rightarrow>
     (case (if rv < 0 then mount_call w else (rv, w)) of (rv, w) \<Rightarrow>
        if rv \<ge> 0 then
          (case stat (node_path mount_point) w of
             (None, w) \<Rightarrow> (- 1, w)
           | (Some f, w) \<Rightarrow>
               let new_mode = or (st_mode f) 73 in
               if new_mode \<noteq> st_mode f then chmod (node_path mount_point) new_mode w else (0, w))
        else (rv, w)))"

definition mtd_found :: "string \<Rightarrow> updater_state \<Rightarrow> bool" where
  "mtd_found location st \<longleftrightarrow> map_of (mtd (up_world st)) location \<noteq> None"

definition MountFn :: "ufun" where
  "MountFn name as st =
     (if length as \<noteq> 4 then arg_error name ''4 args'' (length as) st
      else with_args 4 as st (\<lambda>args st.
        let fs_type = args ! 0; partition_type = args ! 1; location = args ! 2; mount_point = args ! 3 in
        case first_empty [(''fs_type'', fs_type), (''partition_type'', partition_type),
            (''location'', location), (''mount_point'', mount_point)] of
          Some what \<Rightarrow> abort_with (what @ '' argument to '' @ name @ ''() can't be empty'') st
        | None \<Rightarrow>
            (case on_world (mkdir mount_point 493) st of (_, st) \<Rightarrow>
               if partition_type = ''MTD'' then
                 (if \<not> mtd_found location st then return_string [] st
                  else (case on_world (mtd_mount_partition mount_point) st of (r, st) \<Rightarrow>
                    return_string (if r \<noteq> 0 then [] else mount_point) st))
               else (case on_world mount_call st of (r, st) \<Rightarrow>
                 return_string (if r < 0 then [] else mount_point) st))))"

text \<open>A scan reads the next text of \<open>/proc/mounts\<close>; the last one is read again.\<close>

definition next_mounts :: "updater_state \<Rightarrow> string option \<times> updater_state" where
  "next_mounts st = (case proc_mounts st of
     [] \<Rightarrow> (None, st)
   | [t] \<Rightarrow> (t, st)
   | t # ts \<Rightarrow> (t, st\<lparr>proc_mounts := ts\<rparr>))"

definition scan_volumes :: "updater_state \<Rightarrow> updater_state ub" where
  "scan_volumes st = (case next_mounts st of (t, st) \<Rightarrow> do {
     (_, mt) \<leftarrow> scan_mounted_volumes t (mount_table st);
     Some (st\<lparr>mount_table := mt\<rparr>)
   })"

definition IsMountedFn :: "ufun" where
  "IsMountedFn name as st =
     (if length as \<noteq> 1 then arg_error name ''1 arg'' (length as) st
      else with_args 1 as st (\<lambda>args st.
        let mount_point = args ! 0 in
        if mount_point = [] then abort_with ''mount_point argument to unmount() can't be empty'' st
        else do {
          st \<leftarrow> scan_volumes st;
          return_string (if find_mounted_volume_by_mount_point mount_point (mount_table st) = None then []
                         else mount_point) st
        }))"

definition UnmountFn :: "ufun" where
  "UnmountFn name as st =
     (if length as \<noteq> 1 then arg_error name ''1 arg'' (length as) st
      else with_args 1 as st (\<lambda>args st.
        let mount_point = args ! 0 in
        if mount_point = [] then abort_with ''mount_point argument to unmount() can't be empty'' st
        else do {
          st \<leftarrow> scan_volumes st;
          (case find_mounted_volume_by_mount_point mount_point (mount_table st) of
             None \<Rightarrow> return_string [] st
           | Some i \<Rightarrow> do {
               (_, mt, w) \<leftarrow> unmount_mounted_volume i (mount_table st) (up_world st);
               return_string mount_point (st\<lparr>mount_table := mt, up_world := w\<rparr>)
             })
        }))"

text \<open>
  Erasing an MTD partition: the blocks are set to ones.  Without ext4 support a partition of another
  type is refused with no error message.
\<close>

definition erase_mtd :: "string \<Rightarrow> world \<Rightarrow> bool \<times> world" where
  "erase_mtd location w = (case draw w of (e, w) \<Rightarrow>
     if e = Fail then (False, w)
     else (case mtd_erase_rest location 0 w of (ok, w) \<Rightarrow>
       if \<not> ok then (False, snd (draw w))
       else (case draw w of (e, w) \<Rightarrow> (e \<noteq> Fail, w))))"

definition FormatFn :: "ufun" where
  "FormatFn name as st =
     (if length as \<noteq> 5 then arg_error name ''5 args'' (length as) st
      else with_args 5 as st (\<lambda>args st.
        let fs_type = args ! 0; partition_type = args ! 1; location = args ! 2; mount_point = args ! 4 in
        case first_empty [(''fs_type'', fs_type), (''partition_type'', partition_type),
            (''location'', location), (''mount_point'', mount_point)] of
          Some what \<Rightarrow> abort_with (what @ '' argument to '' @ name @ ''() can't be empty'') st
        | None \<Rightarrow>
            if partition_type = ''MTD'' then
              (if \<not> mtd_found location st then return_string [] st
               else (case on_world (erase_mtd location) st of (ok, st) \<Rightarrow>
                 return_string (if ok then location else []) st))
            else Some (StringValue None, st)))"


section \<open>Deleting, progress\<close>

text \<open>\<open>unlink\<close> does not remove a directory.  What a failure leaves in \<open>errno\<close> matters to \<open>symlink\<close>.\<close>

datatype unlinked = Unlinked | Enoent | Unlink_failed

definition unlink_path :: "path \<Rightarrow> world \<Rightarrow> unlinked \<times> world" where
  "unlink_path p w = (case lookup_path w p of
     None \<Rightarrow> (Enoent, snd (draw w))
   | Some f \<Rightarrow> if S_ISDIR (st_mode f) then (Unlink_failed, snd (draw w))
       else (case unlink (node_path p) w of (r, w) \<Rightarrow> (if r = 0 then Unlinked else Unlink_failed, w)))"

text \<open>
  Reading the paths.  When a path behind the first is NULL, the loop that frees the others counts the
  wrong variable and frees the first one again and again.
\<close>

fun DeleteFn_read :: "bool \<Rightarrow> updater_state arg list \<Rightarrow> updater_state \<Rightarrow> (string list option \<times> updater_state) ub" where
  "DeleteFn_read is_first [] st = Some (Some [], st)"
| "DeleteFn_read is_first (a # as) st = do {
     (v, st) \<leftarrow> Evaluate a st;
     (case v of
        None \<Rightarrow> if is_first then Some (None, st) else None
      | Some p \<Rightarrow> do {
          (r, st) \<leftarrow> DeleteFn_read False as st;
          Some (map_option ((#) p) r, st)
        })
   }"

fun delete_paths :: "bool \<Rightarrow> path list \<Rightarrow> world \<Rightarrow> int \<times> world" where
  "delete_paths recursive [] w = (0, w)"
| "delete_paths recursive (p # ps) w =
     (case (if recursive then dirUnlinkHierarchy 4096 p w
            else (case unlink_path p w of (r, w) \<Rightarrow> (if r = Unlinked then 0 else - 1, w))) of (r, w) \<Rightarrow>
        case delete_paths recursive ps w of (n, w) \<Rightarrow> ((if r = 0 then n + 1 else n), w))"

definition DeleteFn :: "ufun" where
  "DeleteFn name as st = do {
     (paths, st) \<leftarrow> DeleteFn_read True as st;
     (case paths of
        None \<Rightarrow> Some (None, st)
      | Some paths \<Rightarrow>
          (case on_world (delete_paths (name = ''delete_recursive'') paths) st of (success, st) \<Rightarrow>
             return_string (show_int success) st))
   }"

definition ShowProgressFn :: "('s, 'z, 'i) updater_env \<Rightarrow> ufun" where
  "ShowProgressFn env name as st =
     (if length as \<noteq> 2 then arg_error name ''2 args'' (length as) st
      else with_args 2 as st (\<lambda>args st.
        return_string (args ! 0) (to_pipe (''progress '' @ env_float env (args ! 0) @ '' ''
          @ show_int (fst (strtol10 (args ! 1))) @ newline) st)))"

definition SetProgressFn :: "('s, 'z, 'i) updater_env \<Rightarrow> ufun" where
  "SetProgressFn env name as st =
     (if length as \<noteq> 1 then arg_error name ''1 arg'' (length as) st
      else with_args 1 as st (\<lambda>args st.
        return_string (args ! 0) (to_pipe (''set_progress '' @ env_float env (args ! 0) @ newline) st)))"

section \<open>Extracting from the package\<close>

definition PackageExtractDirFn :: "('s, 'z, 'i) updater_env \<Rightarrow> ufun" where
  "PackageExtractDirFn env name as st =
     (if length as \<noteq> 2 then arg_error name ''2 args'' (length as) st
      else with_args 2 as st (\<lambda>args st. do {
        (success, st) \<leftarrow> on_world_ub (\<lambda>w. do {
          (ok, _, w) \<leftarrow> mzExtractRecursive (env_il env) (env_za env) (env_pos env) (env_zip env) (args ! 0) (args ! 1)
            MZ_EXTRACT_FILES_ONLY True None () w;
          Some (ok, w)
        }) st;
        return_string (if success then ''t'' else []) st
      }))"

definition find_entry :: "('s, 'z, 'i) updater_env \<Rightarrow> string \<Rightarrow> ZipEntry option ub" where
  "find_entry env zpath = do {
     (r, _) \<leftarrow> mzFindZipEntry (env_zip env) (bytes_of zpath);
     (case r of
        None \<Rightarrow> Some None
      | Some i \<Rightarrow> do { e \<leftarrow> array_get (zipEntries (env_zip env)) i; Some (Some e) })
   }"

definition extract_to_file :: "('s, 'z, 'i) updater_env \<Rightarrow> string \<Rightarrow> path \<Rightarrow> world \<Rightarrow> (bool \<times> world) ub" where
  "extract_to_file env zpath dest_path w = do {
     entry \<leftarrow> find_entry env zpath;
     (case entry of
        None \<Rightarrow> Some (False, w)
      | Some e \<Rightarrow>
          (case creat dest_path 438 w of (opened, w) \<Rightarrow>
             if \<not> opened then Some (False, w)
             else mzExtractZipEntryToFile (env_il env) (env_za env) (env_pos env) e (node_path dest_path) w))
   }"

text \<open>The blob has no data when the entry is not there or cannot be read; a negative size is refused by \<open>malloc\<close>.\<close>

definition extract_to_blob :: "('s, 'z, 'i) updater_env \<Rightarrow> string \<Rightarrow> world \<Rightarrow> (byte list option \<times> world) ub" where
  "extract_to_blob env zpath w = do {
     entry \<leftarrow> find_entry env zpath;
     (case entry of
        None \<Rightarrow> Some (None, w)
      | Some e \<Rightarrow>
          if sint (uncompLen e) < 0 then Some (None, w)
          else do {
            (success, buf, w) \<leftarrow> mzExtractZipEntryToBuffer (env_il env) (env_za env) (env_pos env) e
              (nat (sint (uncompLen e))) w;
            Some (if success then Some buf else None, w)
          })
   }"

definition PackageExtractFileFn :: "('s, 'z, 'i) updater_env \<Rightarrow> ufun" where
  "PackageExtractFileFn env name as st =
     (if length as \<noteq> 1 \<and> length as \<noteq> 2 then arg_error name ''1 or 2 args'' (length as) st
      else if length as = 2 then with_args 2 as st (\<lambda>args st. do {
        (success, st) \<leftarrow> on_world_ub (extract_to_file env (args ! 0) (args ! 1)) st;
        return_string (if success then ''t'' else []) st
      })
      else with_args 1 as st (\<lambda>args st. do {
        (blob, st) \<leftarrow> on_world_ub (extract_to_blob env (args ! 0)) st;
        Some (Some (VAL_BLOB blob), st)
      }))"

section \<open>Links and permissions\<close>

text \<open>
  \<open>make_parents\<close>: the part before the last slash, unless that is the first character, is made after its
  own parents; an existing node is fine.
\<close>

definition parent_of :: "path \<Rightarrow> path" where
  "parent_of p = (let q = dropWhile (\<lambda>c. c \<noteq> CHR ''/'') (rev p) in rev (drop 1 q))"

lemma parent_shorter: "parent_of p \<noteq> [] \<Longrightarrow> length (parent_of p) < length p"
  using length_dropWhile_le [of "\<lambda>c. c \<noteq> CHR ''/''" "rev p"] by (auto simp: parent_of_def Let_def)

function make_parents :: "path \<Rightarrow> world \<Rightarrow> int \<times> world" where
  "make_parents name w =
     (let dir = parent_of name in
      if dir = [] then (0, w)
      else (case make_parents dir w of (r, w) \<Rightarrow>
        if r < 0 then (- 1, w)
        else (case mkdir dir 448 w of (result, w') \<Rightarrow>
          if result = 0 \<or> fst (draw w) \<noteq> Fail then (0, w') else (- 1, w'))))"
  by pat_completeness auto

termination
  by (relation "measure (\<lambda>(name, w). length name)") (use parent_shorter in auto)

declare make_parents.simps [simp del]

fun make_links :: "string \<Rightarrow> path list \<Rightarrow> world \<Rightarrow> int \<times> world" where
  "make_links target [] w = (0, w)"
| "make_links target (src # srcs) w =
     (case unlink_path src w of (u, w) \<Rightarrow>
        case make_parents src w of (r, w) \<Rightarrow>
          case symlink (bytes_of target) src w of (l, w) \<Rightarrow>
            case make_links target srcs w of (bad, w) \<Rightarrow>
              (bad + (if u = Unlink_failed then 1 else 0) + (if r \<noteq> 0 then 1 else 0) + (if l < 0 then 1 else 0), w))"

definition SymlinkFn :: "ufun" where
  "SymlinkFn name as st =
     (case as of
        [] \<Rightarrow> arg_error name ''1+ args'' 0 st
      | a # as \<Rightarrow> do {
          (target, st) \<leftarrow> Evaluate a st;
          (case target of
             None \<Rightarrow> Some (None, st)
           | Some target \<Rightarrow> with_var_args as st (\<lambda>srcs st.
               (case on_world (make_links target srcs) st of (bad, st) \<Rightarrow>
                  if bad \<noteq> 0 then abort_with (name @ '': some symlinks failed'') st
                  else return_string [] st)))
        })"

text \<open>
  \<open>strtoul(s, &end, 0)\<close> where all of a string that is not empty must be read: white space, a sign, then
  a hexadecimal number after \<open>0x\<close>, an octal one after 0, or a decimal one.  A value that is too large
  becomes \<open>ULONG_MAX\<close>, a negative one is negated modulo \<open>2 ^ 32\<close>.
\<close>

definition digits_in :: "nat \<Rightarrow> string \<Rightarrow> nat list option" where
  "digits_in base s = (let ds = map hex_digit s in
     if s = [] \<or> \<not> list_all (\<lambda>d. case d of None \<Rightarrow> False | Some d \<Rightarrow> d < base) ds then None else Some (map the ds))"

definition parse_magnitude :: "string \<Rightarrow> nat option" where
  "parse_magnitude s =
     (let number = (\<lambda>base s. map_option (foldl (\<lambda>n d. n * base + d) 0) (digits_in base s)) in
      case s of
        CHR ''0'' # x # s' \<Rightarrow> if x = CHR ''x'' \<or> x = CHR ''X'' then number 16 s' else number 8 s
      | _ \<Rightarrow> number 10 s)"

definition parse_ulong :: "string \<Rightarrow> 32 word option" where
  "parse_ulong s =
     (let s = dropWhile isspace s;
          neg = (s \<noteq> [] \<and> hd s = CHR ''-'');
          s = (if s \<noteq> [] \<and> (hd s = CHR ''-'' \<or> hd s = CHR ''+'') then tl s else s)
      in map_option (\<lambda>n. if n \<ge> 2 ^ 32 then - 1 else if neg then - word_of_nat n else word_of_nat n)
           (parse_magnitude s))"

fun set_perms :: "32 word \<Rightarrow> 32 word \<Rightarrow> 32 word \<Rightarrow> path list \<Rightarrow> world \<Rightarrow> int \<times> world" where
  "set_perms uid gid mode [] w = (0, w)"
| "set_perms uid gid mode (p # ps) w =
     (case chown_node p uid gid w of (r1, w) \<Rightarrow>
        case chmod_node p mode w of (r2, w) \<Rightarrow>
          case set_perms uid gid mode ps w of (bad, w) \<Rightarrow>
            (bad + (if r1 < 0 then 1 else 0) + (if r2 < 0 then 1 else 0), w))"

fun set_perms_recursive ::
  "32 word \<Rightarrow> 32 word \<Rightarrow> 32 word \<Rightarrow> 32 word \<Rightarrow> path list \<Rightarrow> world \<Rightarrow> unit \<times> world" where
  "set_perms_recursive uid gid dir_mode file_mode [] w = ((), w)"
| "set_perms_recursive uid gid dir_mode file_mode (p # ps) w =
     set_perms_recursive uid gid dir_mode file_mode ps
       (snd (dirSetHierarchyPermissions 4096 uid gid dir_mode file_mode p w))"

definition not_valid :: "string \<Rightarrow> string \<Rightarrow> string \<Rightarrow> updater_state \<Rightarrow> uresult" where
  "not_valid name arg what st = abort_with (name @ '': \"'' @ arg @ ''\" not a valid '' @ what) st"

definition SetPermFn :: "ufun" where
  "SetPermFn name as st =
     (let recursive = (name = ''set_perm_recursive''); min_args = 4 + (if recursive then 1 else 0) in
      if length as < min_args then arg_error name (show_nat min_args @ ''+ args'') (length as) st
      else with_var_args as st (\<lambda>args st.
        case parse_ulong (args ! 0) of None \<Rightarrow> not_valid name (args ! 0) ''uid'' st | Some uid \<Rightarrow>
        case parse_ulong (args ! 1) of None \<Rightarrow> not_valid name (args ! 1) ''gid'' st | Some gid \<Rightarrow>
        if recursive then
          (case parse_ulong (args ! 2) of None \<Rightarrow> not_valid name (args ! 2) ''dirmode'' st | Some dir_mode \<Rightarrow>
           case parse_ulong (args ! 3) of None \<Rightarrow> not_valid name (args ! 3) ''filemode'' st | Some file_mode \<Rightarrow>
           case on_world (set_perms_recursive uid gid dir_mode file_mode (drop 4 args)) st of (_, st) \<Rightarrow>
             return_string [] st)
        else
          (case parse_ulong (args ! 2) of None \<Rightarrow> not_valid name (args ! 2) ''mode'' st | Some mode \<Rightarrow>
           case on_world (set_perms uid gid mode (drop 3 args)) st of (bad, st) \<Rightarrow>
             if bad \<noteq> 0 then abort_with (name @ '': some changes failed'') st
             else return_string [] st)))"

section \<open>Properties and files\<close>

definition GetPropFn :: "('s, 'z, 'i) updater_env \<Rightarrow> ufun" where
  "GetPropFn env name as st =
     (if length as \<noteq> 1 then arg_error name ''1 arg'' (length as) st
      else do {
        a \<leftarrow> array_get as 0;
        (key, st) \<leftarrow> Evaluate a st;
        (case key of
           None \<Rightarrow> Some (None, st)
         | Some key \<Rightarrow> return_string (env_property env key) st)
      })"

definition trim_end :: "string \<Rightarrow> string" where
  "trim_end s = rev (dropWhile isspace (rev s))"

text \<open>The lines of a property file: a malformed line is the error \<open>Inl\<close>.\<close>

fun find_prop :: "string \<Rightarrow> string list \<Rightarrow> string + string" where
  "find_prop key [] = Inr []"
| "find_prop key (l # ls) =
     (let line = dropWhile isspace l in
      if line = [] \<or> hd line = CHR ''#'' then find_prop key ls
      else if CHR ''='' \<notin> set line then Inl line
      else
        let lhs = takeWhile (\<lambda>c. c \<noteq> CHR ''='') line; rhs = drop 1 (dropWhile (\<lambda>c. c \<noteq> CHR ''='') line) in
        if trim_end lhs \<noteq> key then find_prop key ls
        else Inr (trim_end (dropWhile isspace rhs)))"

definition MAX_FILE_GETPROP_SIZE :: nat where "MAX_FILE_GETPROP_SIZE = 65536"

text \<open>
  Reading the file, \<open>Inl\<close> for an error message.  The number of arguments is not looked at, and a file
  without a line that is not empty makes \<open>strtok\<close> return a null pointer that is read.
\<close>

definition read_prop_file :: "('s, 'z, 'i) updater_env \<Rightarrow> string \<Rightarrow> path \<Rightarrow> world \<Rightarrow> (string + byte list) \<times> world"
where
  "read_prop_file env name p w = (case stat (node_path p) w of
     (None, w) \<Rightarrow> (Inl (name @ '': failed to stat \"'' @ p @ ''\": '' @ env_strerror env), w)
   | (Some f, w) \<Rightarrow>
       let n = length (content f) in
       if n > MAX_FILE_GETPROP_SIZE
       then (Inl (p @ '' too large for '' @ name @ '' (max '' @ show_nat MAX_FILE_GETPROP_SIZE @ '')''), w)
       else (case draw w of (e, w) \<Rightarrow>
         if e = Fail then (Inl (name @ '': failed to open '' @ p @ '': '' @ env_strerror env), w)
         else (case read_file (node_path p) n w of (bs, w) \<Rightarrow>
           if length bs \<noteq> n
           then (Inl (name @ '': failed to read '' @ show_nat (n + 1) @ '' bytes from '' @ p), w)
           else (Inr bs, w))))"

definition FileGetPropFn :: "('s, 'z, 'i) updater_env \<Rightarrow> ufun" where
  "FileGetPropFn env name as st = with_args 2 as st (\<lambda>args st.
     let filename = args ! 0; key = args ! 1 in
     case on_world (read_prop_file env name filename) st of (r, st) \<Rightarrow>
       (case r of
          Inl msg \<Rightarrow> abort_with msg st
        | Inr bs \<Rightarrow>
            (case strtok_all (CHR 0x0A) (c_string (text_of bs)) of
               [] \<Rightarrow> None
             | lines \<Rightarrow>
                 (case find_prop key lines of
                    Inl line \<Rightarrow> abort_with (name @ '': malformed line \"'' @ line @ ''\": '' @ filename
                                           @ '' not a prop file?'') st
                  | Inr v \<Rightarrow> return_string v st))))"

text \<open>
  \<open>restore_raw_partition\<close> of \<open>flashutils/flashutils.c\<close> with its null partition type:
  \<open>detect_partition\<close> looks for a device name in the partition, then compares the null pointer.
\<close>

definition get_flash_type :: "string \<Rightarrow> flash_type" where
  "get_flash_type partitionType =
     (if partitionType = ''mtd'' then FLASH_MTD else if partitionType = ''emmc'' then FLASH_MMC
      else if partitionType = ''bml'' then FLASH_BML else UNSUPPORTED)"

definition detect_partition :: "flash_type \<Rightarrow> string option \<Rightarrow> string \<Rightarrow> flash_type ub" where
  "detect_partition device partitionType part = do {
     type \<leftarrow>
       (if strstr_found part ''/dev/block/mtd'' then Some FLASH_MTD
        else if strstr_found part ''/dev/block/mmc'' then Some FLASH_MMC
        else if strstr_found part ''/dev/block/bml'' then Some FLASH_BML
        else map_option (\<lambda>t. if t = ''emmc'' then FLASH_MMC else if t = ''bml'' then FLASH_BML
                              else if t = ''mtd'' then FLASH_MTD else device) partitionType);
     Some (case partitionType of None \<Rightarrow> type | Some t \<Rightarrow> get_flash_type t)
   }"

definition restore_raw_partition ::
  "('s, 'z, 'i) updater_env \<Rightarrow> string option \<Rightarrow> string \<Rightarrow> string \<Rightarrow> world \<Rightarrow> (int \<times> world) ub" where
  "restore_raw_partition env partitionType part filename w = do {
     type \<leftarrow> detect_partition (env_flash_type env) partitionType part;
     Some (if type = UNSUPPORTED then (- 1, w) else env_restore env type part filename w)
   }"

text \<open>The data of a blob is used as a file name as well; a blob without data is a null pointer.\<close>

definition WriteRawImageFn :: "('s, 'z, 'i) updater_env \<Rightarrow> ufun" where
  "WriteRawImageFn env name as st = do {
     (r, st) \<leftarrow> ReadValueArgs as 2 st;
     (case r of
        None \<Rightarrow> Some (None, st)
      | Some vs \<Rightarrow>
          (case vs ! 1 of
             VAL_BLOB _ \<Rightarrow> abort_with (''partition argument to '' @ name @ '' must be string'') st
           | VAL_STRING part \<Rightarrow>
               if part = [] then abort_with (''partition argument to '' @ name @ '' can't be empty'') st
               else if vs ! 0 = VAL_STRING [] then abort_with (''file argument to '' @ name @ '' can't be empty'') st
               else do {
                 filename \<leftarrow> (case vs ! 0 of VAL_STRING s \<Rightarrow> Some s | VAL_BLOB b \<Rightarrow> map_option (\<lambda>b. c_string (text_of b)) b);
                 (r, st) \<leftarrow> on_world_ub (restore_raw_partition env None part filename) st;
                 return_string (if r = 0 then part else []) st
               }))
   }"

section \<open>Patching\<close>

text \<open>The string arguments that \<open>strtol\<close> must read something of.\<close>

definition byte_count :: "string \<Rightarrow> 32 word option" where
  "byte_count s = (case strtol10 s of (v, rest) \<Rightarrow>
     let bytes = word_of_int v in if bytes = 0 \<and> rest = s then None else Some bytes)"

definition ApplyPatchSpaceFn :: "ufun" where
  "ApplyPatchSpaceFn name as st = with_args 1 as st (\<lambda>args st.
     (case byte_count (args ! 0) of
        None \<Rightarrow> abort_with (name @ ''(): can't parse \"'' @ args ! 0 @ ''\" as byte count'' @ newline @ newline) st
      | Some bytes \<Rightarrow>
          (case on_world (CacheSizeCheck (unat bytes)) st of (r, st) \<Rightarrow>
             return_string (if r \<noteq> 0 then [] else ''t'') st)))"

text \<open>The pairs of a digest and a patch, \<open>Inl\<close> for the error message of the first that has a wrong type.\<close>

fun patch_pairs :: "string \<Rightarrow> nat \<Rightarrow> Value list \<Rightarrow> string + (string \<times> Value) list" where
  "patch_pairs name i (s # p # vs) =
     (case (s, p) of
        (VAL_STRING d, VAL_BLOB b) \<Rightarrow> map_sum id ((#) (d, p)) (patch_pairs name (i + 1) vs)
      | (VAL_STRING d, _) \<Rightarrow> Inl (name @ ''(): patch #'' @ show_nat i @ '' is not blob'')
      | _ \<Rightarrow> Inl (name @ ''(): sha-1 #'' @ show_nat i @ '' is not string''))"
| "patch_pairs name i vs = Inr []"

text \<open>A patch that evaluates to NULL leaves the array \<open>patches\<close> null, which is then read.\<close>

definition ApplyPatchFn :: "('s, 'z, 'i) updater_env \<Rightarrow> ufun" where
  "ApplyPatchFn env name as st =
     (if length as < 6 \<or> length as mod 2 = 1
      then Some (None, ErrorAbort (name @ ''(): expected at least 6 args and an even number, got ''
             @ show_nat (length as)) st)
      else with_args 4 (take 4 as) st (\<lambda>args st.
        case byte_count (args ! 3) of
          None \<Rightarrow> abort_with (name @ ''(): can't parse \"'' @ args ! 3 @ ''\" as byte count'') st
        | Some tgt_size \<Rightarrow> do {
            (r, st) \<leftarrow> ReadValueVarArgs (drop 4 as) st;
            patches \<leftarrow> r;
            (case patch_pairs name 0 patches of
               Inl msg \<Rightarrow> abort_with msg st
             | Inr pairs \<Rightarrow> do {
                 (result, st) \<leftarrow> on_world_ub (applypatch (env_bz env) (env_zl env) (env_sha env) (args ! 0) (args ! 1)
                   (args ! 2) (unat tgt_size) (map fst pairs) (map (Some \<circ> snd) pairs) None) st;
                 return_string (if result = 0 then ''t'' else []) st
               })
          }))"

text \<open>A digest that evaluates to NULL leaves \<open>sha1s\<close> null, and its elements are freed.\<close>

definition ApplyPatchCheckFn :: "('s, 'z, 'i) updater_env \<Rightarrow> ufun" where
  "ApplyPatchCheckFn env name as st =
     (if length as < 1
      then Some (None, ErrorAbort (name @ ''(): expected at least 1 arg, got '' @ show_nat (length as)) st)
      else with_args 1 (take 1 as) st (\<lambda>args st. do {
        (r, st) \<leftarrow> ReadVarArgs (drop 1 as) st;
        sha1s \<leftarrow> r;
        (result, st) \<leftarrow> on_world_ub (applypatch_check (env_sha env) (args ! 0) sha1s) st;
        return_string (if result = 0 then ''t'' else []) st
      }))"

section \<open>The screen, programs, digests\<close>

text \<open>
  The text is cut into lines by \<open>strtok\<close>, which ends the buffer behind the first line: that is the
  result.
\<close>

definition UIPrintFn :: "ufun" where
  "UIPrintFn name as st = with_var_args as st (\<lambda>args st.
     let buffer = concat args; nl = CHR 0x0A in
     return_string (takeWhile (\<lambda>c. c = nl) buffer @ takeWhile (\<lambda>c. c \<noteq> nl) (dropWhile (\<lambda>c. c = nl) buffer))
       (to_pipe (concat (map (\<lambda>l. ''ui_print '' @ l @ newline) (strtok_all nl buffer)) @ ''ui_print'' @ newline) st))"

definition WipeCacheFn :: "ufun" where
  "WipeCacheFn name as st =
     (if as \<noteq> [] then arg_error name ''no args'' (length as) st
      else return_string ''t'' (to_pipe (''wipe_cache'' @ newline) st))"

definition RunProgramFn :: "('s, 'z, 'i) updater_env \<Rightarrow> ufun" where
  "RunProgramFn env name as st =
     (if length as < 1 then abort_with (name @ ''() expects at least 1 arg'') st
      else with_var_args as st (\<lambda>args st.
        (case on_world (env_program env args) st of (status, st) \<Rightarrow> return_string (show_int status) st)))"

definition PrintSha1 :: "byte list \<Rightarrow> string" where
  "PrintSha1 digest = hex_string digest"

text \<open>The first argument that is the digest; an argument that is no digest is skipped.\<close>

fun matching_digest :: "byte list \<Rightarrow> Value list \<Rightarrow> Value option" where
  "matching_digest digest [] = None"
| "matching_digest digest (v # vs) =
     (case v of
        VAL_BLOB _ \<Rightarrow> matching_digest digest vs
      | VAL_STRING s \<Rightarrow>
          (case ParseSha1 s of
             None \<Rightarrow> matching_digest digest vs
           | Some d \<Rightarrow> if memcmp digest d SHA_DIGEST_SIZE = 0 then Some v else matching_digest digest vs))"

definition value_data :: "Value \<Rightarrow> byte list option" where
  "value_data v = (case v of VAL_STRING s \<Rightarrow> Some (bytes_of s) | VAL_BLOB b \<Rightarrow> b)"

definition Sha1CheckFn :: "('s, 'z, 'i) updater_env \<Rightarrow> ufun" where
  "Sha1CheckFn env name as st =
     (if length as < 1 then abort_with (name @ ''() expects at least 1 arg'') st
      else with_values as st (\<lambda>vs st.
        (case value_data (vs ! 0) of
           None \<Rightarrow> return_string [] st
         | Some bs \<Rightarrow>
             let digest = env_sha env bs in
             if length as = 1 then return_string (PrintSha1 digest) st
             else (case matching_digest digest (drop 1 vs) of
                 None \<Rightarrow> return_string [] st
               | Some v \<Rightarrow> Some (Some v, st)))))"

definition ReadFileFn :: "('s, 'z, 'i) updater_env \<Rightarrow> ufun" where
  "ReadFileFn env name as st =
     (if length as \<noteq> 1 then arg_error name ''1 arg'' (length as) st
      else with_args 1 as st (\<lambda>args st. do {
        (fc, st) \<leftarrow> on_world_ub (\<lambda>w. do {
          (r, fc, w) \<leftarrow> LoadFileContents (env_sha env) (args ! 0) no_contents False w;
          Some (if r \<noteq> 0 then None else Some fc, w)
        }) st;
        (case fc of
           None \<Rightarrow> abort_with (name @ ''() loading \"'' @ args ! 0 @ ''\" failed: '' @ env_strerror env) st
         | Some fc \<Rightarrow> Some (Some (VAL_BLOB (fc_data fc)), st))
      }))"

section \<open>The function table of the updater\<close>

datatype updater_fn = Builtin builtin | MountFn_p | IsMountedFn_p | UnmountFn_p | FormatFn_p | ShowProgressFn_p
  | SetProgressFn_p | DeleteFn_p | PackageExtractDirFn_p | PackageExtractFileFn_p | SymlinkFn_p | SetPermFn_p
  | GetPropFn_p | FileGetPropFn_p | WriteRawImageFn_p | ApplyPatchFn_p | ApplyPatchCheckFn_p | ApplyPatchSpaceFn_p
  | ReadFileFn_p | Sha1CheckFn_p | WipeCacheFn_p | UIPrintFn_p | RunProgramFn_p

fun updater_call :: "('s, 'z, 'i) updater_env \<Rightarrow> updater_fn \<Rightarrow> ufun" where
  "updater_call env (Builtin b) = builtin_call b"
| "updater_call env MountFn_p = MountFn"
| "updater_call env IsMountedFn_p = IsMountedFn"
| "updater_call env UnmountFn_p = UnmountFn"
| "updater_call env FormatFn_p = FormatFn"
| "updater_call env ShowProgressFn_p = ShowProgressFn env"
| "updater_call env SetProgressFn_p = SetProgressFn env"
| "updater_call env DeleteFn_p = DeleteFn"
| "updater_call env PackageExtractDirFn_p = PackageExtractDirFn env"
| "updater_call env PackageExtractFileFn_p = PackageExtractFileFn env"
| "updater_call env SymlinkFn_p = SymlinkFn"
| "updater_call env SetPermFn_p = SetPermFn"
| "updater_call env GetPropFn_p = GetPropFn env"
| "updater_call env FileGetPropFn_p = FileGetPropFn env"
| "updater_call env WriteRawImageFn_p = WriteRawImageFn env"
| "updater_call env ApplyPatchFn_p = ApplyPatchFn env"
| "updater_call env ApplyPatchCheckFn_p = ApplyPatchCheckFn env"
| "updater_call env ApplyPatchSpaceFn_p = ApplyPatchSpaceFn"
| "updater_call env ReadFileFn_p = ReadFileFn env"
| "updater_call env Sha1CheckFn_p = Sha1CheckFn env"
| "updater_call env WipeCacheFn_p = WipeCacheFn"
| "updater_call env UIPrintFn_p = UIPrintFn"
| "updater_call env RunProgramFn_p = RunProgramFn env"

definition install_functions :: "(string \<times> updater_fn) list" where
  "install_functions =
     [(''mount'', MountFn_p), (''is_mounted'', IsMountedFn_p), (''unmount'', UnmountFn_p), (''format'', FormatFn_p),
      (''show_progress'', ShowProgressFn_p), (''set_progress'', SetProgressFn_p), (''delete'', DeleteFn_p),
      (''delete_recursive'', DeleteFn_p), (''package_extract_dir'', PackageExtractDirFn_p),
      (''package_extract_file'', PackageExtractFileFn_p), (''symlink'', SymlinkFn_p), (''set_perm'', SetPermFn_p),
      (''set_perm_recursive'', SetPermFn_p), (''getprop'', GetPropFn_p), (''file_getprop'', FileGetPropFn_p),
      (''write_raw_image'', WriteRawImageFn_p), (''apply_patch'', ApplyPatchFn_p),
      (''apply_patch_check'', ApplyPatchCheckFn_p), (''apply_patch_space'', ApplyPatchSpaceFn_p),
      (''read_file'', ReadFileFn_p), (''sha1_check'', Sha1CheckFn_p), (''wipe_cache'', WipeCacheFn_p),
      (''ui_print'', UIPrintFn_p), (''run_program'', RunProgramFn_p)]"

definition RegisterInstallFunctions :: "updater_fn Table \<Rightarrow> updater_fn Table" where
  "RegisterInstallFunctions t = fold (\<lambda>(n, f). RegisterFunction n f) install_functions t"

end
