(* ===== verification/ZipEnds.thy ===== *)
theory ZipEnds
  imports ZipExtract
begin

text \<open>
  Streaming and extracting always returns: what has to be known of the archive and of \<open>inflate\<close> for every
  call of \<open>mzProcessZipEntryContents\<close>, \<open>dirCreateHierarchy\<close>, \<open>targetEntryPath\<close> and
  \<open>mzExtractRecursive\<close> to be defined, on every system.
\<close>

section \<open>The inflate loop ends\<close>

text \<open>
  A call with room for output that asks to be called again has consumed input or taken from what the
  stream holds back.
\<close>

definition inflate_ends :: "'z inflater \<Rightarrow> ('z \<Rightarrow> nat) \<Rightarrow> bool" where
  "inflate_ends il held \<longleftrightarrow> (\<forall>z avail n used out z'. 0 < n \<longrightarrow> inflate il z avail n = (Z_OK, used, out, z') \<longrightarrow>
     length out \<le> n \<and> used \<le> length avail \<and> held z' + (length avail - used) < held z + length avail)"

definition total_process :: "'k process \<Rightarrow> bool" where
  "total_process pf \<longleftrightarrow> (\<forall>bs k w. pf bs k w \<noteq> None)"

lemma total_processE:
  assumes "total_process pf"
  obtains r k' w' where "pf bs k w = Some (r, k', w')"
  using assms unfolding total_process_def by (metis not_Some_eq prod_cases3)

lemma refill_total:
  assumes "0 \<le> c"
  obtains w' where "refill za avail c pos w = Some (None, w')"
    | avail' c' pos' w' where "refill za avail c pos w = Some (Some (avail', c', pos'), w')" "0 \<le> c'"
      "length avail' + nat c' = length avail + nat c"
proof (cases "avail = []")
  case False
  then show thesis using assms that(2) [of avail c pos w] by (simp add: refill_def)
next
  case True
  define g where "g = (if c > int CHUNK then int CHUNK else c)"
  have g: "0 \<le> g" "g \<le> c" using assms by (auto simp: g_def)
  obtain r w1 where rd: "read_fd za pos (nat g) w = (r, w1)" by (cases "read_fd za pos (nat g) w")
  show thesis
  proof (cases "\<exists>bs. r = Some bs \<and> int (length bs) = g")
    case True
    then obtain bs where bs: "r = Some bs" "int (length bs) = g" by blast
    show thesis
      by (rule that(2) [of bs "c - g" "pos + length bs" w1])
        (use \<open>avail = []\<close> rd bs g in \<open>simp_all add: refill_def Let_def g_def [symmetric]\<close>)
  next
    case False
    with \<open>avail = []\<close> rd g have "refill za avail c pos w = Some (None, w1)"
      by (auto simp: refill_def Let_def g_def [symmetric] split: option.splits)
    then show thesis by (rule that(1))
  qed
qed

lemma flush_output_total:
  assumes "total_process pf"
  obtains r buf k' w' where "flush_output pf at_end out k w = Some (r, buf, k', w')"
    "length out \<le> CHUNK \<Longrightarrow> length buf < CHUNK"
proof -
  obtain r k' w' where "pf out k w = Some (r, k', w')" by (rule total_processE [OF assms])
  with that show thesis
    by (cases "length out = CHUNK \<or> at_end \<and> out \<noteq> []") (auto simp: flush_output_def)
qed

lemma inflate_loop_ends:
  assumes "inflate_ends il held" "total_process pf" "0 \<le> compRemaining st" "length (procBuf st) < CHUNK"
  shows "inflate_loop il za pf st \<noteq> None"
  using assms(3,4)
proof (induction "held (strm st) + length (avail_in st) + nat (compRemaining st)" arbitrary: st rule: less_induct)
  case less
  let ?k = "pf_cookie st"
  show ?case
  proof (cases rule: refill_total [OF less.prems(1), of za "avail_in st" "fd_pos st" "fd_world st"])
    case (1 w')
    then have "inflate_step il za pf st = Some (Inl (- 1, ?k, w'))" by (simp add: inflate_step_def)
    then show ?thesis by (subst inflate_loop.simps) simp
  next
    case (2 avail c pos w1)
    define n where "n = CHUNK - length (procBuf st)"
    obtain zerr used out z where inf: "inflate il (strm st) avail n = (zerr, used, out, z)"
      by (cases "inflate il (strm st) avail n")
    obtain r buf k' w2 where fl: "flush_output pf (zerr = Z_STREAM_END) (procBuf st @ out) ?k w1 = Some (r, buf, k', w2)"
      "length (procBuf st @ out) \<le> CHUNK \<Longrightarrow> length buf < CHUNK"
      using flush_output_total [OF assms(2), of "zerr = Z_STREAM_END" "procBuf st @ out" ?k w1] by metis
    note step = inflate_step_def [of il za pf st, unfolded Let_def 2(1) Option.bind.simps prod.case option.case
        n_def [symmetric] inf]
    show ?thesis
    proof (cases "zerr = Z_OK \<and> r")
      case False
      with fl(1) have "\<exists>y. inflate_step il za pf st = Some (Inl y)"
        by (cases "zerr = Z_OK"; cases "zerr = Z_STREAM_END"; simp add: step)
      then obtain y where "inflate_step il za pf st = Some (Inl y)" ..
      then show ?thesis by (subst inflate_loop.simps) simp
    next
      case True
      define st' where "st' = \<lparr>strm = z, avail_in = drop used avail, procBuf = buf,
        total_out = total_out st + word_of_nat (length out), compRemaining = c, fd_pos = pos,
        pf_cookie = k', fd_world = w2\<rparr>"
      have go: "inflate_step il za pf st = Some (Inr st')" using True fl(1) by (simp add: step st'_def)
      have "0 < n" using less.prems(2) by (simp add: n_def)
      with inf True assms(1) have b: "length out \<le> n" "used \<le> length avail"
        "held z + (length avail - used) < held (strm st) + length avail" unfolding inflate_ends_def by blast+
      then have "length (procBuf st @ out) \<le> CHUNK" using less.prems(2) by (simp add: n_def)
      then have "length (procBuf st') < CHUNK" using fl(2) by (simp add: st'_def)
      moreover have "held (strm st') + length (avail_in st') + nat (compRemaining st')
        < held (strm st) + length (avail_in st) + nat (compRemaining st)"
        using b 2(3) by (simp add: st'_def)
      ultimately have "inflate_loop il za pf st' \<noteq> None"
        using less.hyps [of st'] 2(2) by (simp add: st'_def)
      with go show ?thesis by (subst inflate_loop.simps) simp
    qed
  qed
qed

lemma processStoredEntry_ends:
  "total_process pf \<Longrightarrow> processStoredEntry za pos n pf k w \<noteq> None"
proof (induction n arbitrary: pos k w rule: less_induct)
  case (less n)
  show ?case
  proof (cases "n = 0")
    case True
    then show ?thesis by (simp add: processStoredEntry.simps)
  next
    case False
    obtain b w1 where rd: "read_fd za pos (min n CHUNK) w = (b, w1)" by (cases "read_fd za pos (min n CHUNK) w")
    have rec: "processStoredEntry za (pos + min n CHUNK) (n - min n CHUNK) pf k w \<noteq> None" for k w
      using less.IH [OF _ less.prems, of "n - min n CHUNK"] False by simp
    show ?thesis
    proof (cases b)
      case None
      with False rd show ?thesis by (subst processStoredEntry.simps) (simp add: Let_def)
    next
      case (Some buf)
      obtain r k' w' where "pf buf k w1 = Some (r, k', w')" by (rule total_processE [OF less.prems])
      with Some False rd rec show ?thesis by (subst processStoredEntry.simps) (auto simp: Let_def)
    qed
  qed
qed

lemma mzProcessZipEntryContents_ends:
  assumes "inflate_ends il held" "total_process pf" "0 \<le> sint (compLen e)"
  shows "mzProcessZipEntryContents il za oldOff e pf k w \<noteq> None"
proof -
  have "processDeflatedEntry il za e pos pf k w \<noteq> None" for pos
  proof (cases "fst (inflateInit2 il) = Z_OK")
    case True
    then obtain z where z: "inflateInit2 il = (Z_OK, z)" by (cases "inflateInit2 il") auto
    from inflate_loop_ends [OF assms(1,2), of "\<lparr>strm = z, avail_in = [], procBuf = [], total_out = 0,
      compRemaining = sint (compLen e), fd_pos = pos, pf_cookie = k, fd_world = w\<rparr>" za] assms(3)
    show ?thesis by (auto simp: processDeflatedEntry_def z)
  qed (auto simp: processDeflatedEntry_def split: prod.splits)
  with processStoredEntry_ends [OF assms(2)] show ?thesis
    by (auto simp: mzProcessZipEntryContents_def Let_def)
qed

lemma mzExtractZipEntryToFile_ends:
  assumes "inflate_ends il held" "0 \<le> sint (compLen e)"
  shows "\<exists>r w'. mzExtractZipEntryToFile il za oldOff e fd w = Some (r, w')"
proof -
  have "total_process writeProcessFunction"
    by (auto simp: total_process_def writeProcessFunction_def split: prod.splits)
  from mzProcessZipEntryContents_ends [OF assms(1) this assms(2), of za oldOff fd w]
  show ?thesis by (auto simp: mzExtractZipEntryToFile_def)
qed

section \<open>Extraction is defined\<close>

lemma create_levels_defined:
  "rest = [] \<or> last rest = CHR ''/'' \<Longrightarrow> create_levels mode timestamp before rest w \<noteq> None"
proof (induction "length rest" arbitrary: before rest w rule: less_induct)
  case less
  define d where "d = dropWhile (\<lambda>c. c = CHR ''/'') rest"
  define c where "c = before @ takeWhile (\<lambda>c. c = CHR ''/'') rest @ takeWhile (\<lambda>c. c \<noteq> CHR ''/'') d"
  define e where "e = dropWhile (\<lambda>c. c \<noteq> CHR ''/'') d"
  note step = create_levels.simps [of mode timestamp before rest, unfolded Let_def, folded d_def,
      folded e_def, folded c_def]
  show ?case
  proof (cases "d = []")
    case True
    then show ?thesis by (subst step) simp
  next
    case False
    note e = level_ends [OF less.prems, folded d_def, OF False, folded e_def]
    have shorter: "length e < length rest" using False level_shorter [of rest] by (simp add: d_def e_def)
    have "create_levels mode timestamp c e w \<noteq> None" for w using less.hyps [OF shorter] e by blast
    with False e(1) show ?thesis by (subst step) (auto split: prod.splits DirStatus.splits)
  qed
qed

lemma dirCreateHierarchy_defined: "\<exists>r w'. dirCreateHierarchy p mode timestamp strip w = Some (r, w')"
proof -
  have "create_levels mode timestamp [] c w1 \<noteq> None" if "dir_part strip p = Some c" for c w1
    by (rule create_levels_defined [OF dir_part_slash [OF that]])
  then have "dirCreateHierarchy p mode timestamp strip w \<noteq> None"
    by (auto simp: dirCreateHierarchy_def split: option.splits prod.splits DirStatus.splits)
  then show ?thesis by auto
qed

text \<open>The path buffer is large enough whatever the bytes are.\<close>

lemma memcpy_at_fits: "i + length xs \<le> length buf \<Longrightarrow>
    \<exists>buf'. memcpy_at i xs buf = Some buf' \<and> length buf' = length buf"
  by (auto simp: memcpy_at_def)

definition helper_fits :: "nat \<Rightarrow> MzPathHelper \<Rightarrow> bool" where
  "helper_fits n h \<longleftrightarrow> zipDirLen h = n
     \<and> (case mz_buf h of
          None \<Rightarrow> targetDirLen h = length (mz_targetDir h) \<and> mz_bufLen h = 0
        | Some b \<Rightarrow> length b = mz_bufLen h)"

lemma targetEntryPath_defined:
  assumes "helper_fits n h" "n \<le> length (fileName e)"
  shows "\<exists>p h'. targetEntryPath h e = Some (p, h') \<and> helper_fits n h'"
proof -
  let ?t = "text_of (drop n (fileName e))"
  have finish: "\<exists>b' b''. memcpy_at i ?t b = Some b' \<and> memcpy_at (i + (length (fileName e) - n)) [CHR 0x00] b' = Some b''
      \<and> length b'' = length b" if "i + length ?t + 1 \<le> length b" for i b
  proof -
    from memcpy_at_fits [of i ?t b] that obtain b' where b': "memcpy_at i ?t b = Some b'" "length b' = length b" by auto
    from memcpy_at_fits [of "i + (length (fileName e) - n)" "[CHR 0x00]" b'] that b' show ?thesis by auto
  qed
  define need where "need = targetDirLen h + 1 + (length (fileName e) - n) + 1"
  show ?thesis
  proof (cases "mz_buf h")
    case None
    with assms(1) have h: "zipDirLen h = n" "targetDirLen h = length (mz_targetDir h)" "mz_bufLen h = 0"
      by (auto simp: helper_fits_def)
    define b where "b = grow_buf (need * 2) None"
    have lb: "length b = need * 2" by (simp add: b_def grow_buf_def)
    obtain b1 where b1: "memcpy_at 0 (mz_targetDir h) b = Some b1" "length b1 = length b"
      using memcpy_at_fits [of 0 "mz_targetDir h" b] lb h by (auto simp: need_def)
    obtain b2 where b2: "memcpy_at (length (mz_targetDir h)) ''/'' b1 = Some b2" "length b2 = length b"
      using memcpy_at_fits [of "length (mz_targetDir h)" "''/''" b1] lb h b1 by (auto simp: need_def)
    have lt: "0 < need" by (simp add: need_def)
    show ?thesis
    proof (cases "length (mz_targetDir h) = 0 \<or> b1 ! (length (mz_targetDir h) - 1) \<noteq> CHR ''/''")
      case True
      from finish [of "length (mz_targetDir h) + 1" b2] b2(2) lb h obtain b3 b4 where
        "memcpy_at (length (mz_targetDir h) + 1) ?t b2 = Some b3"
        "memcpy_at (length (mz_targetDir h) + 1 + (length (fileName e) - n)) [CHR 0x00] b3 = Some b4"
        "length b4 = length b" by (auto simp: need_def)
      then have "\<exists>h'. targetEntryPath h e = Some (c_string b4, h') \<and> mz_buf h' = Some b4 \<and> mz_bufLen h' = length b4
          \<and> zipDirLen h' = n"
        unfolding targetEntryPath_def Let_def need_def [symmetric] h(1,3) None
        using lt h b1 b2 True lb by (simp add: b_def [symmetric] need_def [symmetric])
      then show ?thesis by (auto simp: helper_fits_def)
    next
      case False
      from finish [of "length (mz_targetDir h)" b1] b1(2) lb h obtain b3 b4 where
        "memcpy_at (length (mz_targetDir h)) ?t b1 = Some b3"
        "memcpy_at (length (mz_targetDir h) + (length (fileName e) - n)) [CHR 0x00] b3 = Some b4"
        "length b4 = length b" by (auto simp: need_def)
      then have "\<exists>h'. targetEntryPath h e = Some (c_string b4, h') \<and> mz_buf h' = Some b4 \<and> mz_bufLen h' = length b4
          \<and> zipDirLen h' = n"
        unfolding targetEntryPath_def Let_def need_def [symmetric] h(1,3) None
        using lt h b1 False lb by (simp add: b_def [symmetric] need_def [symmetric])
      then show ?thesis by (auto simp: helper_fits_def)
    qed
  next
    case (Some b)
    with assms(1) have h: "zipDirLen h = n" "mz_bufLen h = length b" by (auto simp: helper_fits_def)
    define b1 where "b1 = (if need > length b then grow_buf (need * 2) (Some b) else b)"
    have lb1: "length b1 = (if need > length b then need * 2 else length b)"
      by (simp add: b1_def grow_buf_def)
    from finish [of "targetDirLen h" b1] lb1 obtain b3 b4 where
      f: "memcpy_at (targetDirLen h) ?t b1 = Some b3"
      "memcpy_at (targetDirLen h + (length (fileName e) - n)) [CHR 0x00] b3 = Some b4" "length b4 = length b1"
      by (auto simp: need_def split: if_splits)
    have "\<exists>h'. targetEntryPath h e = Some (c_string b4, h') \<and> mz_buf h' = Some b4 \<and> mz_bufLen h' = length b1
      \<and> zipDirLen h' = n"
      unfolding targetEntryPath_def Let_def h Some need_def [symmetric]
      using f lb1 h Some by (cases "need > length b") (simp_all add: b1_def)
    with f(3) show ?thesis by (auto simp: helper_fits_def)
  qed
qed

text \<open>
  Entries that can be extracted as files: they have a name, and a length that \<open>long\<close> holds as a
  non-negative number.
\<close>

definition entry_fine :: "ZipEntry \<Rightarrow> bool" where
  "entry_fine e \<longleftrightarrow> fileName e \<noteq> [] \<and> 0 \<le> sint (compLen e)"

lemma extract_entry_defined:
  assumes "inflate_ends il held" "entry_fine e" "flag_set flags MZ_EXTRACT_FILES_ONLY"
  shows "\<exists>r w'. extract_entry il za oldOff flags timestamp e p w = Some (r, w')"
proof -
  have regular: "\<exists>r w'. extract_regular il za oldOff timestamp e p w = Some (r, w')" for w
  proof -
    obtain opened w1 where cr: "creat p UNZIP_FILEMODE w = (opened, w1)" by (cases "creat p UNZIP_FILEMODE w")
    obtain ok w2 where ex: "mzExtractZipEntryToFile il za oldOff e (node_path p) w1 = Some (ok, w2)"
      using mzExtractZipEntryToFile_ends [OF assms(1), of e za oldOff "node_path p" w1] assms(2)
      by (auto simp: entry_fine_def)
    show ?thesis using cr ex by (auto simp: extract_regular_def split: prod.splits)
  qed
  obtain r w1 where dir: "dirCreateHierarchy p UNZIP_DIRMODE timestamp True w = Some (r, w1)"
    using dirCreateHierarchy_defined by blast
  with regular [of w1] assms(2,3) show ?thesis by (auto simp: extract_entry_def entry_fine_def)
qed

lemma extract_entries_defined:
  assumes "inflate_ends il held" "\<forall>e \<in> set es. entry_fine e" "flag_set flags MZ_EXTRACT_FILES_ONLY"
    "helper_fits (length z) h"
  shows "\<exists>r k' w'. extract_entries il za oldOff flags timestamp callback z es seen h k w = Some (r, k', w')"
  using assms(2,4)
proof (induction es arbitrary: seen h k w)
  case (Cons e es)
  show ?case
  proof (cases "length (fileName e) < length z \<or> strncmp (fileName e) z (length z) \<noteq> 0")
    case True
    with Cons show ?thesis by (cases seen) auto
  next
    case False
    with Cons.prems obtain p h' where h': "targetEntryPath h e = Some (p, h')" "helper_fits (length z) h'"
      using targetEntryPath_defined [of "length z" h e] by auto
    obtain r w1 where r: "extract_entry il za oldOff flags timestamp e p w = Some (r, w1)"
      using extract_entry_defined [OF assms(1) _ assms(3)] Cons.prems(1) by fastforce
    have rec: "\<exists>r k' w'. extract_entries il za oldOff flags timestamp callback z es True h' k w = Some (r, k', w')"
      for k w using Cons.IH Cons.prems(1) h'(2) by simp
    from False h'(1) r rec show ?thesis by (cases r) auto
  qed
qed auto

lemma mzExtractRecursive_defined:
  assumes "inflate_ends il held" "\<forall>e \<in> set (zipEntries ar). entry_fine e" "flag_set flags MZ_EXTRACT_FILES_ONLY"
  shows "\<exists>r k' w'. mzExtractRecursive il za oldOff ar zipDir targetDir flags timestamp callback k w = Some (r, k', w')"
proof -
  let ?z = "if zipDir \<noteq> [] \<and> last zipDir \<noteq> CHR ''/'' then zipDir @ ''/'' else zipDir"
  let ?h = "\<lparr>mz_targetDir = targetDir, mz_buf = None, targetDirLen = length targetDir, zipDirLen = length ?z, mz_bufLen = 0\<rparr>"
  have "helper_fits (length (bytes_of ?z)) ?h" by (simp add: helper_fits_def)
  from extract_entries_defined [OF assms this, of za oldOff timestamp callback False k w]
  show ?thesis unfolding mzExtractRecursive_def Let_def by auto
qed

end
