(* ===== verification/UpdaterLaws.thy ===== *)
theory UpdaterLaws
  imports Updater ZipEnds
begin

text \<open>
  The functions of the updater and the contract of the interpreter: which calls are always defined and
  leave a message behind a NULL, and what scripts do.
\<close>

section \<open>The readers of arguments\<close>

named_theorems sound_intros "rules that reduce the contract of a function to that of its parts"

lemma return_string_sound [sound_intros]: "script st = src \<Longrightarrow> res_sound src (return_string s st)"
  by (simp add: return_string_def)

lemma abort_with_sound [sound_intros]: "script st = src \<Longrightarrow> res_sound src (abort_with msg st)"
  by (simp add: abort_with_def)

lemma arg_error_sound [sound_intros]: "script st = src \<Longrightarrow> res_sound src (arg_error nm ex n st)"
  by (simp add: arg_error_def)

lemma with_var_args_sound [sound_intros]:
  assumes "args_sound src as" "script st = src"
    "\<And>args st. length args = length as \<Longrightarrow> script st = src \<Longrightarrow> res_sound src (k args st)"
  shows "res_sound src (with_var_args as st k)"
proof -
  from ReadVarArgs_sound [of as src st] assms(1,2) obtain r st' where
    r: "ReadVarArgs as st = Some (r, st')" "script st' = src" "r = None \<longrightarrow> errmsg st' \<noteq> None"
    "\<forall>strs. r = Some strs \<longrightarrow> length strs = length as" by (auto simp: args_sound_def)
  with assms(3) show ?thesis by (cases r) (auto simp: with_var_args_def)
qed

lemma args_sound_take: "args_sound src as \<Longrightarrow> args_sound src (take n as)"
  by (auto simp: args_sound_def dest: in_set_takeD)

lemma args_sound_drop: "args_sound src as \<Longrightarrow> args_sound src (drop n as)"
  by (auto simp: args_sound_def dest: in_set_dropD)

lemma with_args_sound [sound_intros]:
  assumes "args_sound src as" "script st = src" "n \<le> length as"
    "\<And>args st. length args = n \<Longrightarrow> script st = src \<Longrightarrow> res_sound src (k args st)"
  shows "res_sound src (with_args n as st k)"
proof -
  have "with_args n as st k = with_var_args (take n as) st k"
    using assms(3) by (simp add: with_args_def with_var_args_def ReadArgs_def first_args_def)
  with with_var_args_sound [OF args_sound_take [OF assms(1)] assms(2), of n k] assms(3,4) show ?thesis by simp
qed

lemma with_values_sound [sound_intros]:
  assumes "args_sound src as" "script st = src"
    "\<And>args st. length args = length as \<Longrightarrow> script st = src \<Longrightarrow> res_sound src (k args st)"
  shows "res_sound src (with_values as st k)"
proof -
  have "\<exists>r st'. ReadValueVarArgs as st = Some (r, st') \<and> script st' = src \<and> (r = None \<longrightarrow> errmsg st' \<noteq> None)
    \<and> (\<forall>vs. r = Some vs \<longrightarrow> length vs = length as)"
    using assms(1,2)
  proof (induction as arbitrary: st)
    case (Cons a as)
    from Cons.prems have "res_sound src (arg_eval a st)" by (simp add: args_sound_def arg_sound_eval)
    then obtain v st1 where v: "arg_eval a st = Some (v, st1)" "script st1 = src" "v = None \<longrightarrow> errmsg st1 \<noteq> None"
      by (rule res_soundE)
    from Cons.IH [of st1] Cons.prems v(2) obtain r st2 where "ReadValueVarArgs as st1 = Some (r, st2)"
      "script st2 = src" "r = None \<longrightarrow> errmsg st2 \<noteq> None" "\<forall>vs. r = Some vs \<longrightarrow> length vs = length as"
      by (auto simp: args_sound_def)
    with v show ?case by (cases v) auto
  qed simp
  then obtain r st' where "ReadValueVarArgs as st = Some (r, st')" "script st' = src"
    "r = None \<longrightarrow> errmsg st' \<noteq> None" "\<forall>vs. r = Some vs \<longrightarrow> length vs = length as" by blast
  with assms(3) show ?thesis by (cases r) (auto simp: with_values_def)
qed

text \<open>Effects on the system leave the script alone.\<close>

lemma on_world_case [sound_intros]:
  assumes "script st = src" "\<And>r st. script st = src \<Longrightarrow> res_sound src (k r st)"
  shows "res_sound src (case on_world f st of (r, st) \<Rightarrow> k r st)"
  using assms by (auto simp: on_world_def split: prod.splits)

lemma on_world_ub_bind [sound_intros]:
  assumes "script st = src" "f (up_world st) \<noteq> None" "\<And>r st. script st = src \<Longrightarrow> res_sound src (k r st)"
  shows "res_sound src (on_world_ub f st \<bind> (\<lambda>(r, st). k r st))"
  using assms by (auto simp: on_world_ub_def)

lemma to_pipe_script [simp]: "script (to_pipe s st) = script st"
  by (simp add: to_pipe_def)

section \<open>Each function\<close>

lemma MountFn_sound:
  "args_sound src as \<Longrightarrow> script st = src \<Longrightarrow> res_sound src (MountFn nm as st)"
  by (auto simp: MountFn_def Let_def intro!: sound_intros split: option.split)

lemma progress_sound:
  "args_sound src as \<Longrightarrow> script st = src \<Longrightarrow> res_sound src (ShowProgressFn env nm as st)"
  "args_sound src as \<Longrightarrow> script st = src \<Longrightarrow> res_sound src (SetProgressFn env nm as st)"
  by (auto simp: ShowProgressFn_def SetProgressFn_def intro!: sound_intros)

lemma DeleteFn_sound:
  assumes "args_sound src as" "script st = src" "length as \<le> 1"
  shows "res_sound src (DeleteFn nm as st)"
proof -
  have "\<exists>r st'. DeleteFn_read True as st = Some (r, st') \<and> script st' = src \<and> (r = None \<longrightarrow> errmsg st' \<noteq> None)"
  proof (cases as)
    case (Cons a as')
    with assms obtain v st1 where "Evaluate a st = Some (v, st1)" "script st1 = src" "v = None \<longrightarrow> errmsg st1 \<noteq> None"
      using Evaluate_sound [of src a st] by (auto simp: args_sound_def)
    with Cons assms(3) show ?thesis by (cases v) auto
  qed (use assms in auto)
  then obtain r st' where r: "DeleteFn_read True as st = Some (r, st')" "script st' = src"
    "r = None \<longrightarrow> errmsg st' \<noteq> None" by blast
  then show ?thesis by (cases r) (auto simp: DeleteFn_def intro!: sound_intros)
qed

lemma SymlinkFn_sound:
  assumes "args_sound src as" "script st = src"
  shows "res_sound src (SymlinkFn nm as st)"
proof (cases as)
  case (Cons a as')
  with assms obtain v st1 where "Evaluate a st = Some (v, st1)" "script st1 = src" "v = None \<longrightarrow> errmsg st1 \<noteq> None"
    using Evaluate_sound [of src a st] by (auto simp: args_sound_def)
  moreover have "args_sound src as'" using Cons assms(1) by (simp add: args_sound_def)
  ultimately show ?thesis using Cons by (cases v) (auto simp: SymlinkFn_def intro!: sound_intros)
qed (use assms in \<open>auto simp: SymlinkFn_def intro!: sound_intros\<close>)

lemma SetPermFn_sound:
  "args_sound src as \<Longrightarrow> script st = src \<Longrightarrow> res_sound src (SetPermFn nm as st)"
  by (auto simp: SetPermFn_def Let_def not_valid_def intro!: sound_intros split: option.split)

lemma GetPropFn_sound:
  assumes "args_sound src as" "script st = src"
  shows "res_sound src (GetPropFn env nm as st)"
proof (cases "length as = 1")
  case True
  then have len: "0 < length as" by simp
  obtain v st1 where "Evaluate (as ! 0) st = Some (v, st1)" "script st1 = src" "v = None \<longrightarrow> errmsg st1 \<noteq> None"
    using args_sound_Evaluate [OF assms(1) len assms(2)] by blast
  with True show ?thesis by (cases v) (auto simp: GetPropFn_def intro!: sound_intros)
qed (use assms in \<open>auto simp: GetPropFn_def intro!: sound_intros\<close>)

lemma ApplyPatchSpaceFn_sound:
  "args_sound src as \<Longrightarrow> script st = src \<Longrightarrow> 1 \<le> length as \<Longrightarrow> res_sound src (ApplyPatchSpaceFn nm as st)"
  by (auto simp: ApplyPatchSpaceFn_def intro!: sound_intros split: option.split)

lemma screen_sound:
  "args_sound src as \<Longrightarrow> script st = src \<Longrightarrow> res_sound src (UIPrintFn nm as st)"
  "script st = src \<Longrightarrow> res_sound src (WipeCacheFn nm as st)"
  "args_sound src as \<Longrightarrow> script st = src \<Longrightarrow> res_sound src (RunProgramFn env nm as st)"
  by (auto simp: UIPrintFn_def WipeCacheFn_def RunProgramFn_def Let_def intro!: sound_intros)

lemma Sha1CheckFn_sound:
  "args_sound src as \<Longrightarrow> script st = src \<Longrightarrow> res_sound src (Sha1CheckFn env nm as st)"
  by (auto simp: Sha1CheckFn_def Let_def intro!: sound_intros split: option.split)

text \<open>
  A package that was opened, whose entries can be extracted, with a decoder that ends.
\<close>

definition package_fine :: "('s, 'z, 'i) updater_env \<Rightarrow> bool" where
  "package_fine env \<longleftrightarrow> (\<exists>held. inflate_ends (env_il env) held)
     \<and> (\<exists>lib pMap. mzOpenZipArchive lib pMap = Some (Some (env_zip env)))
     \<and> (\<forall>e \<in> set (zipEntries (env_zip env)). entry_fine e)"

lemma package_fineE:
  assumes "package_fine env"
  obtains held lib pMap where "inflate_ends (env_il env) held"
    "mzOpenZipArchive lib pMap = Some (Some (env_zip env))" "\<And>e. e \<in> set (zipEntries (env_zip env)) \<Longrightarrow> entry_fine e"
  using assms unfolding package_fine_def by blast

text \<open>Looking up the entry: the one with that name, and no undefined behaviour.\<close>

lemma find_entry_cases:
  assumes "package_fine env"
  obtains "find_entry env zpath = Some None" "bytes_of zpath \<notin> fileName ` set (zipEntries (env_zip env))"
    | e where "find_entry env zpath = Some (Some e)" "e \<in> set (zipEntries (env_zip env))" "fileName e = bytes_of zpath"
proof -
  obtain lib pMap where "mzOpenZipArchive lib pMap = Some (Some (env_zip env))"
    using package_fineE [OF assms] by metis
  from mzFindZipEntry_finds [OF this, of "bytes_of zpath"] obtain r ht
    where r: "mzFindZipEntry (env_zip env) (bytes_of zpath) = Some (r, ht)"
      "case r of None \<Rightarrow> bytes_of zpath \<notin> fileName ` set (zipEntries (env_zip env))
       | Some i \<Rightarrow> i < length (zipEntries (env_zip env)) \<and> fileName (zipEntries (env_zip env) ! i) = bytes_of zpath
           \<and> (\<forall>j < i. fileName (zipEntries (env_zip env) ! j) \<noteq> bytes_of zpath)" by blast
  show thesis
  proof (cases r)
    case None
    with r show thesis by (intro that(1)) (simp_all add: find_entry_def)
  next
    case (Some i)
    with r show thesis by (intro that(2) [of "zipEntries (env_zip env) ! i"]) (simp_all add: find_entry_def array_get_def)
  qed
qed

lemma extract_to_file_defined:
  assumes "package_fine env"
  shows "extract_to_file env zpath dest_path w \<noteq> None"
proof -
  obtain held where il: "inflate_ends (env_il env) held"
    and fine: "\<And>e. e \<in> set (zipEntries (env_zip env)) \<Longrightarrow> entry_fine e" by (rule package_fineE [OF assms]) blast
  show ?thesis
  proof (rule find_entry_cases [OF assms, of zpath])
    fix e
    assume e: "find_entry env zpath = Some (Some e)" "e \<in> set (zipEntries (env_zip env))"
    have "0 \<le> sint (compLen e)" using fine [OF e(2)] by (simp add: entry_fine_def)
    from mzExtractZipEntryToFile_ends [OF il this]
    have "\<exists>r w'. mzExtractZipEntryToFile (env_il env) (env_za env) (env_pos env) e (node_path dest_path) w1
        = Some (r, w')" for w1 .
    then show ?thesis using e(1) by (cases "creat dest_path 438 w") (auto simp: extract_to_file_def)
  qed (simp add: extract_to_file_def)
qed

lemma PackageExtractDirFn_sound:
  assumes "args_sound src as" "script st = src" "package_fine env"
  shows "res_sound src (PackageExtractDirFn env nm as st)"
proof -
  obtain held where il: "inflate_ends (env_il env) held"
    and fine: "\<And>e. e \<in> set (zipEntries (env_zip env)) \<Longrightarrow> entry_fine e" by (rule package_fineE [OF assms(3)]) blast
  have flag: "flag_set MZ_EXTRACT_FILES_ONLY MZ_EXTRACT_FILES_ONLY"
    by (simp add: flag_set_def MZ_EXTRACT_FILES_ONLY_def)
  have "\<exists>r k' w'. mzExtractRecursive (env_il env) (env_za env) (env_pos env) (env_zip env) z t
      MZ_EXTRACT_FILES_ONLY True None () w = Some (r, k', w')" for z t w
    by (rule mzExtractRecursive_defined [OF il _ flag]) (use fine in blast)
  then have "(do { (ok, _, w) \<leftarrow> mzExtractRecursive (env_il env) (env_za env) (env_pos env) (env_zip env) z t
      MZ_EXTRACT_FILES_ONLY True None () w; Some (ok, w) }) \<noteq> None" for z t w
    by (metis (mono_tags, lifting) bind.bind_lunit case_prod_conv option.distinct(1))
  with assms show ?thesis
    unfolding PackageExtractDirFn_def by (auto intro!: sound_intros simp del: not_None_eq)
qed

lemma PackageExtractFileFn_sound:
  assumes "args_sound src as" "script st = src" "package_fine env" "length as \<noteq> 1"
  shows "res_sound src (PackageExtractFileFn env nm as st)"
  using assms(1,2,4) extract_to_file_defined [OF assms(3)]
  unfolding PackageExtractFileFn_def by (auto intro!: sound_intros simp del: not_None_eq)

lemma creat_empties:
  "creat p mode w = (True, w') \<Longrightarrow> \<exists>f. lookup w' (node_path p) = Some f \<and> content f = []"
  by (auto simp: creat_def lookup_def update_conv' split: prod.splits if_splits option.splits)

section \<open>The contract of the interpreter\<close>

text \<open>
  The calls that are defined and explain a NULL.  The others: the searches of mounted volumes can run over
  their array, \<open>format\<close> of another partition type returns NULL with no message, \<open>file_getprop\<close> and
  \<open>write_raw_image\<close> read null pointers, and partitions named in a wrong way are undefined behaviour of the
  patcher.
\<close>

fun updater_arity :: "('s, 'z, 'i) updater_env \<Rightarrow> updater_fn \<Rightarrow> nat \<Rightarrow> bool" where
  "updater_arity env (Builtin b) n = builtin_arity b n"
| "updater_arity env DeleteFn_p n = (n \<le> 1)"
| "updater_arity env ApplyPatchSpaceFn_p n = (1 \<le> n)"
| "updater_arity env PackageExtractDirFn_p n = package_fine env"
| "updater_arity env PackageExtractFileFn_p n = (package_fine env \<and> n \<noteq> 1)"
| "updater_arity env f n = (f \<notin> {IsMountedFn_p, UnmountFn_p, FormatFn_p, FileGetPropFn_p, WriteRawImageFn_p,
     ApplyPatchFn_p, ApplyPatchCheckFn_p, ReadFileFn_p})"

lemma updater_call_sound:
  assumes "updater_arity env f (length as)" "args_sound src as" "script st = src"
  shows "res_sound src (updater_call env f nm as st)"
  using assms by (cases f) (auto intro: builtin_call_sound MountFn_sound progress_sound DeleteFn_sound SymlinkFn_sound
      SetPermFn_sound GetPropFn_sound ApplyPatchSpaceFn_sound screen_sound Sha1CheckFn_sound PackageExtractDirFn_sound
      PackageExtractFileFn_sound)

interpretation updater: edify_functions "updater_call env" "updater_arity env" for env
  by unfold_locales (auto intro: updater_call_sound simp: args_sound_def)

end
