(* ===== verification/UpdaterMain.thy ===== *)
theory UpdaterMain
  imports UpdaterLaws
begin

text \<open>
  \<open>main\<close> of \<open>updater/updater.c\<close>, and what scripts of an update do: every well-formed script ends with a
  value or an error message, extraction and patching deliver what they report.
\<close>

section \<open>The program\<close>

definition SCRIPT_NAME :: string where "SCRIPT_NAME = ''META-INF/com/google/android/updater-script''"
definition SELINUX_CONTEXTS_ZIP :: string where "SELINUX_CONTEXTS_ZIP = ''file_contexts''"
definition SELINUX_CONTEXTS_TMP :: path where "SELINUX_CONTEXTS_TMP = ''/tmp/file_contexts''"

text \<open>
  Reading the script into a buffer of its declared size; \<open>None\<close> when it cannot be read.  A negative size
  writes the terminator before the buffer, and bytes that were not delivered are not initialised.
\<close>

definition read_script :: "('s, 'z, 'i) updater_env \<Rightarrow> ZipEntry \<Rightarrow> world \<Rightarrow> (string option \<times> world) ub" where
  "read_script env e w = do {
     (ok, buf, w) \<leftarrow> mzReadZipEntry (env_il env) (env_za env) (env_pos env) e (sint (uncompLen e)) w;
     if \<not> ok then Some (None, w)
     else if sint (uncompLen e) < 0 \<or> int (length buf) \<noteq> sint (uncompLen e) \<and> 0 \<notin> set buf then None
     else Some (Some (c_string (text_of buf)), w)
   }"

text \<open>The file contexts of the package, when it has some, go to a temporary file; \<open>False\<close> ends the program.\<close>

definition extract_contexts :: "('s, 'z, 'i) updater_env \<Rightarrow> world \<Rightarrow> (bool \<times> world) ub" where
  "extract_contexts env w = do {
     entry \<leftarrow> find_entry env SELINUX_CONTEXTS_ZIP;
     (case entry of
        None \<Rightarrow> Some (True, w)
      | Some e \<Rightarrow>
          (case creat SELINUX_CONTEXTS_TMP 420 w of (opened, w) \<Rightarrow>
             if \<not> opened then Some (False, w)
             else mzExtractZipEntryToFile (env_il env) (env_za env) (env_pos env) e
                    (node_path SELINUX_CONTEXTS_TMP) w))
   }"

text \<open>The functions of a script: the built-in ones and those of the installer, in one table.\<close>

definition as_updater :: "builtin Table \<Rightarrow> updater_fn Table" where
  "as_updater t = \<lparr>fn_entries = fn_entries t, fn_size = fn_size t,
     fn_table = map (map_option (map_prod id Builtin)) (fn_table t)\<rparr>"

definition registered :: "updater_fn Table" where
  "registered = FinishRegistration (RegisterInstallFunctions (as_updater (RegisterBuiltins empty_table)))"

text \<open>What the parent process is told: the message of the error, line by line.\<close>

definition error_report :: "string option \<Rightarrow> string" where
  "error_report msg = (case msg of
     None \<Rightarrow> ''ui_print script aborted (no error message)'' @ newline
   | Some m \<Rightarrow> concat (map (\<lambda>l. ''ui_print '' @ l @ newline) (strtok_all (CHR 0x0A) m)) @ ''ui_print'' @ newline)"

text \<open>Parsing, evaluation and the exit code.  \<open>yyparse\<close> is given the function table and the script.\<close>

definition run_script ::
  "('s, 'z, 'i) updater_env \<Rightarrow> ((string \<Rightarrow> updater_fn option) \<Rightarrow> string \<Rightarrow> updater_fn Expr option)
    \<Rightarrow> string \<Rightarrow> updater_state \<Rightarrow> (int \<times> updater_state) ub" where
  "run_script env yyparse text st =
     (case yyparse (\<lambda>name. FindFunction name registered) text of
        None \<Rightarrow> Some (6, st)
      | Some root \<Rightarrow> do {
          (result, st) \<leftarrow> Evaluate (Arg (EvaluateValue (updater_call env) root) (expr_start root) (expr_end root))
            (st\<lparr>script := text, errmsg := None\<rparr>);
          Some (if result = None then (7, to_pipe (error_report (errmsg st)) st) else (0, st))
        })"

definition with_world ::
  "updater_state \<Rightarrow> ('b \<times> world) ub \<Rightarrow> ('b \<Rightarrow> updater_state \<Rightarrow> (int \<times> updater_state) ub)
    \<Rightarrow> (int \<times> updater_state) ub" where
  "with_world st f k = do { (r, w) \<leftarrow> f; k r (st\<lparr>up_world := w\<rparr>) }"

text \<open>
  The program: \<open>args\<close> with its name, the package as the file that is mapped (\<open>None\<close> when it cannot be), a
  state whose pipe is open.
\<close>

definition updater_main ::
  "safe_iop \<Rightarrow> ((string \<Rightarrow> updater_fn option) \<Rightarrow> string \<Rightarrow> updater_fn Expr option) \<Rightarrow> ('s, 'z, 'i) updater_env
    \<Rightarrow> string list \<Rightarrow> MemMapping option \<Rightarrow> updater_state \<Rightarrow> (int \<times> updater_state) ub" where
  "updater_main lib yyparse env args package st =
     (if length args \<noteq> 4 then Some (1, st)
      else if args ! 1 \<notin> {''1'', ''2'', ''3''} then Some (2, st)
      else (case package of
        None \<Rightarrow> Some (3, st)
      | Some pMap \<Rightarrow> do {
          opened \<leftarrow> mzOpenZipArchive lib pMap;
          (case opened of
             None \<Rightarrow> Some (3, st)
           | Some za \<Rightarrow>
               let env = env\<lparr>env_zip := za, env_za := mem pMap\<rparr> in do {
               entry \<leftarrow> find_entry env SCRIPT_NAME;
               (case entry of
                  None \<Rightarrow> Some (4, st)
                | Some e \<Rightarrow> with_world st (read_script env e (up_world st)) (\<lambda>text st.
                    (case text of
                       None \<Rightarrow> Some (5, st)
                     | Some text \<Rightarrow> with_world st (extract_contexts env (up_world st)) (\<lambda>ok st.
                         if \<not> ok then Some (3, st) else run_script env yyparse text st))))
             })
        }))"

section \<open>Laws\<close>

lemma as_updater_register:
  "as_updater (RegisterFunction name f t) = RegisterFunction name (Builtin f) (as_updater t)"
  by (simp add: as_updater_def RegisterFunction_def Let_def realloc_table_def map_update take_map)

lemma as_updater_registers:
  "as_updater (fold (\<lambda>(n, f). RegisterFunction n f) regs t)
    = fold (\<lambda>(n, f). RegisterFunction n f) (map (map_prod id Builtin) regs) (as_updater t)"
  by (induction regs arbitrary: t) (auto simp: as_updater_register)

lemma as_updater_empty [simp]: "as_updater empty_table = empty_table"
  by (simp add: as_updater_def empty_table_def)

text \<open>Every name of a script finds its own function.\<close>

definition updater_functions :: "(string \<times> updater_fn) list" where
  "updater_functions = map (map_prod id Builtin) builtin_functions @ install_functions"

lemma registered_finds: "FindFunction name registered = map_of updater_functions name"
proof -
  have d: "distinct (map fst updater_functions)"
    by (simp add: updater_functions_def builtin_functions_def install_functions_def)
  have "registered = FinishRegistration (fold (\<lambda>(n, f). RegisterFunction n f) updater_functions empty_table)"
    by (simp add: registered_def RegisterInstallFunctions_def RegisterBuiltins_def as_updater_registers
        updater_functions_def)
  then show ?thesis using FindFunction_registered [OF d] by simp
qed

section \<open>Scripts\<close>


lemma ReadVarArgs_length: "ReadVarArgs as st = Some (Some args, st') \<Longrightarrow> length args = length as"
  by (induction as arbitrary: args st) (auto split: bind_splits option.splits)

lemma PackageExtractFileFn_extracts:
  assumes "package_fine env" "inflater_ok (env_il env) dec"
    and "\<forall>e \<in> set (zipEntries (env_zip env)). 0 \<le> sint (offset e) \<and> uncompLen e \<noteq> - 1"
    and "ReadVarArgs as st = Some (Some [zpath, dest_path], st1)"
    and "PackageExtractFileFn env nm as st = Some (Some (VAL_STRING ''t''), st')"
  shows "\<exists>e f. e \<in> set (zipEntries (env_zip env)) \<and> fileName e = bytes_of zpath
    \<and> lookup_path (up_world st') dest_path = Some f
    \<and> entry_data (env_il env) dec (env_za env) e = Some (content f)"
proof -
  have two: "length as = 2" using ReadVarArgs_length [OF assms(4)] by simp
  have "ReadArgs as 2 st = Some (Some [zpath, dest_path], st1)"
    using assms(4) two by (simp add: ReadArgs_def first_args_def)
  with assms(5) two have ex: "extract_to_file env zpath dest_path (up_world st1) = Some (True, up_world st')"
    by (auto simp: PackageExtractFileFn_def with_args_def on_world_ub_def return_string_def StringValue_def
        split: bind_splits if_splits)
  show ?thesis
  proof (rule find_entry_cases [OF assms(1), of zpath])
    assume "find_entry env zpath = Some None"
    with ex show ?thesis by (simp add: extract_to_file_def)
  next
    fix e
    assume e: "find_entry env zpath = Some (Some e)" "e \<in> set (zipEntries (env_zip env))"
      "fileName e = bytes_of zpath"
    with ex obtain w1 where cr: "creat dest_path 438 (up_world st1) = (True, w1)"
      and x: "mzExtractZipEntryToFile (env_il env) (env_za env) (env_pos env) e (node_path dest_path) w1
        = Some (True, up_world st')"
      by (auto simp: extract_to_file_def split: prod.splits if_splits)
    obtain f where f: "lookup w1 (node_path dest_path) = Some f" "content f = []"
      using creat_empties [OF cr] by blast
    from readers_deliver(3) [OF assms(2) _ _ x f(1)] assms(3) e(2) obtain d where
      "entry_data (env_il env) dec (env_za env) e = Some d"
      "lookup (up_world st') (node_path dest_path) = Some (f\<lparr>content := content f @ d\<rparr>)" by blast
    with e f(2) show ?thesis by (auto simp: lookup_path_def)
  qed
qed



section \<open>The whole program\<close>

text \<open>
  What the program needs: an archive that can be extracted, whose script has its declared size, and a
  parser that yields well-formed scripts.
\<close>

definition runnable ::
  "((string \<Rightarrow> updater_fn option) \<Rightarrow> string \<Rightarrow> updater_fn Expr option) \<Rightarrow> ('s, 'z, 'i) updater_env \<Rightarrow> bool" where
  "runnable yyparse env \<longleftrightarrow> package_fine env
     \<and> (\<forall>e \<in> set (zipEntries (env_zip env)). \<forall>w buf w'. fileName e = bytes_of SCRIPT_NAME \<longrightarrow>
          mzReadZipEntry (env_il env) (env_za env) (env_pos env) e (sint (uncompLen e)) w = Some (True, buf, w')
          \<longrightarrow> int (length buf) = sint (uncompLen e))
     \<and> (\<forall>text e. yyparse (\<lambda>name. FindFunction name registered) text = Some e
          \<longrightarrow> wf_expr (updater_arity env) text e)"

lemma mzReadZipEntry_defined:
  assumes "inflate_ends il held" "entry_fine e"
  shows "\<exists>r buf w'. mzReadZipEntry il za oldOff e n w = Some (r, buf, w')"
proof -
  have "total_process copyProcessFunction"
    by (simp add: total_process_def copyProcessFunction_def del: not_None_eq)
  from mzProcessZipEntryContents_ends [OF assms(1) this, of e za oldOff "\<lparr>copied = [], bufLen = n\<rparr>" w] assms(2)
  show ?thesis by (auto simp: mzReadZipEntry_def entry_fine_def)
qed

lemma read_script_defined:
  assumes "runnable yyparse env" "e \<in> set (zipEntries (env_zip env))" "fileName e = bytes_of SCRIPT_NAME"
  shows "\<exists>r w'. read_script env e w = Some (r, w')"
proof -
  obtain held where "inflate_ends (env_il env) held" "entry_fine e"
    using assms(1,2) unfolding runnable_def by (metis package_fineE)
  from mzReadZipEntry_defined [OF this] obtain r buf w' where
    r: "mzReadZipEntry (env_il env) (env_za env) (env_pos env) e (sint (uncompLen e)) w = Some (r, buf, w')" by blast
  have "int (length buf) = sint (uncompLen e)" if r
    using assms r that unfolding runnable_def by (metis (full_types))
  with r show ?thesis by (cases r) (auto simp: read_script_def)
qed

lemma extract_contexts_defined:
  assumes "package_fine env"
  shows "\<exists>r w'. extract_contexts env w = Some (r, w')"
proof -
  obtain held where il: "inflate_ends (env_il env) held"
    and fine: "\<And>e. e \<in> set (zipEntries (env_zip env)) \<Longrightarrow> entry_fine e" by (rule package_fineE [OF assms]) blast
  show ?thesis
  proof (rule find_entry_cases [OF assms, of SELINUX_CONTEXTS_ZIP])
    fix e
    assume e: "find_entry env SELINUX_CONTEXTS_ZIP = Some (Some e)" "e \<in> set (zipEntries (env_zip env))"
    have "0 \<le> sint (compLen e)" using fine [OF e(2)] by (simp add: entry_fine_def)
    from mzExtractZipEntryToFile_ends [OF il this]
    have "\<exists>r w'. mzExtractZipEntryToFile (env_il env) (env_za env) (env_pos env) e fd w1
        = Some (r, w')" for fd w1 .
    then show ?thesis
      using e(1) by (cases "creat SELINUX_CONTEXTS_TMP 420 w") (auto simp: extract_contexts_def)
  qed (auto simp: extract_contexts_def intro: exI [of _ True])
qed

definition explained :: "int \<Rightarrow> updater_state \<Rightarrow> bool" where
  "explained r st \<longleftrightarrow> 0 \<le> r \<and> r \<le> 7
     \<and> (r = 7 \<longrightarrow> (\<exists>said msg. cmd_pipe st = said @ error_report (Some msg)))"

lemma early_explained [simp]: "0 \<le> r \<Longrightarrow> r < 7 \<Longrightarrow> explained r st"
  by (simp add: explained_def)

lemma run_script_explained:
  assumes "runnable yyparse env"
  shows "\<exists>r st'. run_script env yyparse text st = Some (r, st') \<and> explained r st'"
proof (cases "yyparse (\<lambda>name. FindFunction name registered) text")
  case (Some root)
  let ?st = "st\<lparr>script := text, errmsg := None\<rparr>"
  have "wf_expr (updater_arity env) text root" using assms Some by (simp add: runnable_def)
  from updater.expr_arg_sound [OF this] have "arg_sound text
    (Arg (EvaluateValue (updater_call env) root) (expr_start root) (expr_end root))" .
  then obtain v st' where
    "Evaluate (Arg (EvaluateValue (updater_call env) root) (expr_start root) (expr_end root)) ?st = Some (v, st')"
    "v = None \<longrightarrow> errmsg st' \<noteq> None" by (rule Evaluate_sound [of _ _ ?st]) simp
  with Some show ?thesis by (auto simp: run_script_def explained_def to_pipe_def) blast
qed (simp add: run_script_def explained_def)

lemma updater_main_explained:
  assumes "safe_iop_ok lib"
    and "\<And>pMap. package = Some pMap \<Longrightarrow> map_fits pMap \<and> no_wrap pMap"
    and "\<And>pMap za. package = Some pMap \<Longrightarrow> mzOpenZipArchive lib pMap = Some (Some za) \<Longrightarrow>
      runnable yyparse (env\<lparr>env_zip := za, env_za := mem pMap\<rparr>)"
  shows "\<exists>r st'. updater_main lib yyparse env args package st = Some (r, st') \<and> explained r st'"
proof (cases package)
  case pk: (Some pMap)
  with mzOpenZipArchive_opens [OF assms(1)] assms(2) obtain opened where
    found: "mzOpenZipArchive lib pMap = Some opened" by blast
  show ?thesis
  proof (cases opened)
    case (Some za)
    let ?env = "env\<lparr>env_zip := za, env_za := mem pMap\<rparr>"
    have ok: "runnable yyparse ?env" using assms(3) pk found Some by simp
    then have fine: "package_fine ?env" by (simp add: runnable_def)
    show ?thesis
    proof (rule find_entry_cases [OF fine, of SCRIPT_NAME])
      fix e
      assume e: "find_entry ?env SCRIPT_NAME = Some (Some e)" "e \<in> set (zipEntries (env_zip ?env))"
        "fileName e = bytes_of SCRIPT_NAME"
      from read_script_defined [OF ok e(2,3)] obtain src w1 where
        t: "read_script ?env e (up_world st) = Some (src, w1)" by blast
      from extract_contexts_defined [OF fine] obtain c w2 where
        c: "extract_contexts ?env w1 = Some (c, w2)" by blast
      from run_script_explained [OF ok] obtain r st' where
        "run_script ?env yyparse (the src) (st\<lparr>up_world := w2\<rparr>) = Some (r, st') \<and> explained r st'" by blast
      with pk found Some e(1) t c show ?thesis
        by (auto simp: updater_main_def Let_def with_world_def split: option.split)
    qed (use pk found Some in \<open>simp add: updater_main_def\<close>)
  qed (use pk found in \<open>simp add: updater_main_def\<close>)
qed (simp add: updater_main_def)


unbundle bit_operations_syntax

section \<open>A package with a script\<close>

text \<open>One stored entry, the script \<open>abort(x)\<close>.\<close>

definition script_zip :: "byte list" where
  "script_zip =
    [80, 75, 3, 4, 0, 0, 0, 0, 0, 0, 0, 0, 0, 0, 0, 0, 0, 0, 0, 0, 0, 0, 0, 0, 0, 0, 42, 0, 0, 0, 77, 69, 84, 65,
    45, 73, 78, 70, 47, 99, 111, 109, 47, 103, 111, 111, 103, 108, 101, 47, 97, 110, 100, 114, 111, 105, 100, 47,
    117, 112, 100, 97, 116, 101, 114, 45, 115, 99, 114, 105, 112, 116, 97, 98, 111, 114, 116, 40, 120, 41, 80, 75,
    1, 2, 20, 3, 20, 0, 0, 0, 0, 0, 0, 0, 0, 0, 0, 0, 0, 0, 8, 0, 0, 0, 8, 0, 0, 0, 42, 0, 0, 0, 0, 0, 0, 0, 0, 0,
    0, 0, 0, 0, 0, 0, 0, 0, 77, 69, 84, 65, 45, 73, 78, 70, 47, 99, 111, 109, 47, 103, 111, 111, 103, 108, 101,
    47, 97, 110, 100, 114, 111, 105, 100, 47, 117, 112, 100, 97, 116, 101, 114, 45, 115, 99, 114, 105, 112, 116,
    80, 75, 5, 6, 0, 0, 0, 0, 1, 0, 1, 0, 88, 0, 0, 0, 80, 0, 0, 0, 0, 0]"

definition script_map :: MemMapping where
  "script_map = \<lparr>addr = 0x40000000, mem = script_zip\<rparr>"

lemma script_scan:
  "get4LE script_zip 0 = Some LOCSIG" "find_eocd script_zip (length script_zip + 1 - 22) = Some (Some 168)"
  "get2LE script_zip (168 + 8) = Some 1" "get4LE script_zip (168 + 16) = Some 80"
  "length script_zip = 190"
  by code_simp+

lemma low_top_byte:
  fixes b0 b1 b2 b3 :: byte
  assumes "b3 < 0x80" 
  shows "uint (ucast b0 OR push_bit 8 (ucast b1) OR push_bit 16 (ucast b2) OR push_bit 24 (ucast b3) :: 32 word) < 2 ^ 31"
proof -
  have shifted: "uint (push_bit n (ucast b) :: 32 word) \<le> 2 ^ n * uint b" for n and b :: "8 word"
  proof -
    have "uint (ucast b :: 32 word) = uint b" using uint_lt2p [of b] by (simp add: unsigned_ucast_eq take_bit_int_eq_self)
    then show ?thesis
      by (subst unsigned_push_bit_eq) (simp add: push_bit_eq_mult take_bit_eq_mod mult.commute zmod_le_nonneg_dividend)
  qed
  have b: "uint b < 256" for b :: "8 word" using uint_lt2p [of b] by simp
  have "uint (push_bit 24 (ucast b3) :: 32 word) < 2 ^ 31"
    using assms shifted [of 24 b3] by (simp add: word_less_def)
  moreover have "uint (ucast b0 :: 32 word) < 2 ^ 31" "uint (push_bit 8 (ucast b1) :: 32 word) < 2 ^ 31"
     "uint (push_bit 16 (ucast b2) :: 32 word) < 2 ^ 31"
    using shifted [of 0 b0] shifted [of 8 b1] shifted [of 16 b2] b [of b0] b [of b1] b [of b2] by simp_all
  ultimately show ?thesis by (simp only: unsigned_or_eq) (intro OR_upper; simp)
qed

text \<open>No offset comes near the end of the address space when no byte is larger than 127.\<close>

lemma low_bytes_no_wrap:
  assumes "list_all (\<lambda>b. b < 0x80) m"
  shows "no_wrap \<lparr>addr = 0x40000000, mem = m\<rparr>"
proof -
  have "uint off < 2 ^ 31" if "get4LE m p = Some off" for p off
  proof -
    from that have g: "p + 3 < length m" "off = ucast (m ! p) OR push_bit 8 (ucast (m ! (p + 1)))
        OR push_bit 16 (ucast (m ! (p + 2))) OR push_bit 24 (ucast (m ! (p + 3)))"
      by (auto simp: get4LE_def array_get_def split: bind_splits if_splits)
    then have "m ! (p + 3) < 0x80" using assms by (simp add: list_all_length)
    with g(2) show ?thesis using low_top_byte by simp
  qed
  then have "uint off + 0x40000000 + 30 < 2 ^ 32" if "get4LE m p = Some off" for p off
    using that by fastforce
  then show ?thesis by (auto simp: no_wrap_def list_all_iff split: option.split)
qed

lemma script_low: "list_all (\<lambda>b. b < 0x80) script_zip"
  by (simp add: script_zip_def)

lemma script_map_fits: "map_fits script_map" "no_wrap script_map"
  by (simp_all add: map_fits_def script_map_def script_scan(5) low_bytes_no_wrap script_low)

lemma script_directory:
  "map_option (map_sum id (map (\<lambda>e. (fileName e = bytes_of SCRIPT_NAME, compLen e, uncompLen e, offset e, compression e))))
     (directory demo_lib script_map 1 80)
   = Some (Inr [(True, 8, 8, 72, 0)])"
  by code_simp

lemma script_open:
  obtains ar e where "mzOpenZipArchive demo_lib script_map = Some (Some ar)" "zipEntries ar = [e]"
    "fileName e = bytes_of SCRIPT_NAME" "compLen e = 8" "uncompLen e = 8" "offset e = 72" "compression e = STORED"
proof -
  from map_result_Inr [OF script_directory] obtain e where
    e: "directory demo_lib script_map 1 80 = Some (Inr [e])" "fileName e = bytes_of SCRIPT_NAME" "compLen e = 8"
      "uncompLen e = 8" "offset e = 72" "compression e = STORED" by (auto simp: STORED_def)
  have "unat (1 :: 16 word) = 1" "unat (80 :: 32 word) = 80" by simp_all
  with e(1) have d: "directory demo_lib script_map (unat (1 :: 16 word)) (unat (80 :: 32 word)) = Some (Inr [e])"
    by simp
  obtain ar where ar: "mzOpenZipArchive demo_lib script_map = Some (Some ar)" "set (zipEntries ar) = set [e]"
    "names (zipEntries ar) = sort (names [e])"
    by (rule open_from_directory [OF _ script_scan(1-4) _ _ _ d]) (simp_all add: script_map_def script_scan(5))
  from arg_cong [OF ar(3), of length] have "length (zipEntries ar) = 1" by simp
  with ar(2) have "zipEntries ar = [e]" by (auto simp: length_Suc_conv)
  with ar(1) e(2-) that show thesis by blast
qed

definition script_env :: "ZipArchive \<Rightarrow> (unit, unit, nat) updater_env" where
  "script_env za = \<lparr>env_bz = no_bz2, env_zl = no_zlib, env_il = demo_inflater, env_sha = toy_sha,
     env_property = (\<lambda>_. []), env_strerror = ''error'', env_float = id, env_program = (\<lambda>_ w. (0, w)),
     env_restore = (\<lambda>_ _ _ w. (- 1, w)), env_flash_type = FLASH_MTD, env_zip = za, env_za = script_zip, env_pos = 0\<rparr>"

definition script_state :: updater_state where
  "script_state = \<lparr>script = [], errmsg = None, stdout_text = [], slept = [], up_world = demo_fs, cmd_pipe = [],
     mount_table = no_mounts, proc_mounts = []\<rparr>"

text \<open>A parser that knows one script.\<close>

definition script_parser :: "(string \<Rightarrow> updater_fn option) \<Rightarrow> string \<Rightarrow> updater_fn Expr option" where
  "script_parser lookup_fn text =
     (if text = ''abort(x)''
      then map_option (\<lambda>f. Expr f ''abort'' [Expr (Builtin Literal_p) ''x'' [] 6 7] 0 8) (lookup_fn ''abort'') else None)"

lemma demo_inflater_ends: "inflate_ends demo_inflater (\<lambda>_. 0)"
  by (auto simp: inflate_ends_def demo_inflater_def Let_def Z_OK_def Z_STREAM_END_def split: if_splits)

lemma script_functions: "FindFunction ''abort'' registered = Some (Builtin AbortFn_p)"
  by (simp add: registered_finds updater_functions_def builtin_functions_def)

lemma script_read:
  assumes "fileName e = bytes_of SCRIPT_NAME" "compLen e = 8" "uncompLen e = 8" "offset e = 72"
    "compression e = STORED"
  shows "read_script (script_env za) e demo_fs = Some (Some ''abort(x)'', demo_fs)"
proof -
  have "take 8 (drop 72 script_zip) = [97, 98, 111, 114, 116, 40, 120, 41]" by (simp add: script_zip_def)
  then have "mzReadZipEntry demo_inflater script_zip 0 e 8 demo_fs
      = Some (True, [97, 98, 111, 114, 116, 40, 120, 41], demo_fs)"
    using assms by (simp add: mzReadZipEntry_def mzProcessZipEntryContents_def seek_entry_def
        processStoredEntry.simps [of script_zip 72 8] processStoredEntry.simps [of script_zip _ 0]
        read_fd_def draw_def demo_fs_def CHUNK_def copyProcessFunction_def Let_def script_scan(5))
  moreover have "c_string (text_of [97, 98, 111, 114, 116, 40, 120, 41]) = ''abort(x)''" by code_simp
  ultimately show ?thesis using assms(3) by (simp add: read_script_def script_env_def)
qed

lemma script_runnable:
  assumes "mzOpenZipArchive demo_lib script_map = Some (Some za)" "zipEntries za = [e]"
    "fileName e = bytes_of SCRIPT_NAME" "compLen e = 8" "uncompLen e = 8" "offset e = 72" "compression e = STORED"
  shows "runnable script_parser (script_env za)"
proof -
  have "package_fine (script_env za)"
    using assms(1,2,4) demo_inflater_ends
    by (auto simp: package_fine_def script_env_def entry_fine_def assms(3) SCRIPT_NAME_def bytes_of_def)
  moreover have "int (length buf) = sint (uncompLen e)"
    if "mzReadZipEntry (env_il (script_env za)) (env_za (script_env za)) (env_pos (script_env za)) e
      (sint (uncompLen e)) w = Some (True, buf, w')" for w buf w'
  proof -
    have "entry_data demo_inflater demo_dec script_zip e = Some buf"
      using readers_deliver(1) [OF demo_inflater_ok(1), of e "sint (uncompLen e)" script_zip 0 w buf w'] that assms(5,6)
      by (simp add: script_env_def)
    with assms(4,5,7) show ?thesis by (auto simp: entry_data_def split: if_splits)
  qed
  moreover have "wf_expr (updater_arity (script_env za)) src root"
    if "script_parser (\<lambda>name. FindFunction name registered) src = Some root" for src root
    using that by (auto simp: script_parser_def script_functions split: if_splits)
  ultimately show ?thesis using assms(2) by (simp add: runnable_def script_env_def)
qed

lemma script_run:
  "run_script (script_env za) script_parser ''abort(x)'' script_state
    = Some (7, script_state\<lparr>script := ''abort(x)'', errmsg := Some ''x'', cmd_pipe := error_report (Some ''x'')\<rparr>)"
  by (simp add: run_script_def script_parser_def script_functions AbortFn_def Evaluate_def Literal_def StringValue_def
      script_state_def to_pipe_def set_errmsg_def)

lemma script_contexts:
  assumes "package_fine (script_env za)" "zipEntries za = [e]" "fileName e = bytes_of SCRIPT_NAME"
  shows "find_entry (script_env za) SCRIPT_NAME = Some (Some e)"
    "extract_contexts (script_env za) w = Some (True, w)"
proof -
  have other: "bytes_of SELINUX_CONTEXTS_ZIP \<noteq> bytes_of SCRIPT_NAME"
    by (simp add: SELINUX_CONTEXTS_ZIP_def SCRIPT_NAME_def bytes_of_def)
  show "find_entry (script_env za) SCRIPT_NAME = Some (Some e)"
    by (rule find_entry_cases [OF assms(1), of SCRIPT_NAME]) (use assms(2,3) in \<open>simp_all add: script_env_def\<close>)
  show "extract_contexts (script_env za) w = Some (True, w)"
    by (rule find_entry_cases [OF assms(1), of SELINUX_CONTEXTS_ZIP])
      (use assms(2,3) other in \<open>auto simp: extract_contexts_def script_env_def\<close>)
qed


text \<open>A script that shows its argument.\<close>

definition shown_script :: "updater_fn Expr" where
  "shown_script = Expr UIPrintFn_p ''ui_print'' [Expr (Builtin Literal_p) ''x'' [] 9 10] 0 11"


text \<open>An argument with a known value.\<close>

definition known :: "Value \<Rightarrow> updater_state arg" where
  "known v = Arg (\<lambda>st. Some (Some v, st)) 0 0"

lemma known_reads [simp]:
  "Evaluate (known (VAL_STRING s)) st = Some (Some s, st)" "arg_eval (known v) st = Some (Some v, st)"
  by (simp_all add: known_def Evaluate_def)


text \<open>The arguments of the patch that is applied in the witness of \<open>applypatch\<close>.\<close>

definition patch_args :: "updater_state arg list" where
  "patch_args = map known [VAL_STRING patched_file, VAL_STRING ''-'', VAL_STRING (hex_string (toy_sha [0xCA, 0xFE])),
     VAL_STRING ''2'', VAL_STRING (hex_string (toy_sha [7, 8])), VAL_BLOB (Some raw_patch)]"

lemma patch_args_parts:
  "length patch_args = 6 + 2 * 0"
  "ReadVarArgs (take 4 patch_args) st
    = Some (Some [patched_file, ''-'', hex_string (toy_sha [0xCA, 0xFE]), ''2''], st)"
  "ReadValueVarArgs (drop 4 patch_args) st
    = Some (Some [VAL_STRING (hex_string (toy_sha [7, 8])), VAL_BLOB (Some raw_patch)], st)"
  "patch_pairs nm 0 [VAL_STRING (hex_string (toy_sha [7, 8])), VAL_BLOB (Some raw_patch)]
    = Inr [(hex_string (toy_sha [7, 8]), VAL_BLOB (Some raw_patch))]"
  by (simp_all add: patch_args_def)


end
