(* ===== verification/Mtd.thy ===== *)
theory Mtd
  imports World
begin

text \<open>
  \<open>mtdutils/mtdutils.c\<close>: the table of flash partitions, and reading and writing them in blocks that are
  erased as a whole, skipping bad blocks.

  A flash partition is the device \<open>/dev/mtd/mtdN\<close>: its bytes, the position of the open file, the number of
  uncorrectable errors the driver has counted, and what \<open>MEMGETBADBLOCK\<close> answers for a position.  What the
  next call does is the head of a list of events, and an empty list means that it works.  \<open>lseek\<close> works, and
  memory is available for every size that is not negative as a \<open>ssize_t\<close>.  A size of 0 for the blocks makes
  the loops run forever, or divides by zero: this is \<open>None\<close>.
\<close>

section \<open>The device\<close>

datatype block_answer = Good_block | Bad_block | Bad_unsupported | Bad_error

datatype flash_event = Works | Fails
  | Stores "byte list" bool  \<comment> \<open>a write leaves these bytes, and says whether it succeeded\<close>
  | Ecc "byte list"          \<comment> \<open>a read delivers these bytes and counts an uncorrectable error\<close>

record flash =
  cells :: "byte list"
  flash_pos :: nat
  ecc_failed :: nat
  bad_answer :: "nat \<Rightarrow> block_answer"
  flash_events :: "flash_event list"

definition next_event :: "flash \<Rightarrow> flash_event \<times> flash" where
  "next_event f = (case flash_events f of [] \<Rightarrow> (Works, f) | e # es \<Rightarrow> (e, f\<lparr>flash_events := es\<rparr>))"

definition put_cells :: "nat \<Rightarrow> byte list \<Rightarrow> flash \<Rightarrow> flash" where
  "put_cells pos bs f = f\<lparr>cells := take pos (cells f) @ take (length (cells f) - pos) bs @ drop (pos + length bs) (cells f)\<rparr>"

definition flash_erase :: "nat \<Rightarrow> nat \<Rightarrow> flash \<Rightarrow> bool \<times> flash" where
  "flash_erase pos n f = (case next_event f of (e, f) \<Rightarrow>
     if e = Fails then (False, f) else (True, put_cells pos (replicate n 0xFF) f))"

definition flash_write :: "byte list \<Rightarrow> flash \<Rightarrow> bool \<times> flash" where
  "flash_write bs f = (case next_event f of (e, f) \<Rightarrow>
     (case e of
        Fails \<Rightarrow> (False, f)
      | Stores bs' ok \<Rightarrow> (ok, (put_cells (flash_pos f) (take (length bs) bs') f)\<lparr>flash_pos := flash_pos f + length bs\<rparr>)
      | _ \<Rightarrow> (True, (put_cells (flash_pos f) bs f)\<lparr>flash_pos := flash_pos f + length bs\<rparr>)))"

text \<open>A read of \<open>n\<close> bytes, \<open>None\<close> when it does not deliver as many.\<close>

definition flash_read :: "nat \<Rightarrow> flash \<Rightarrow> byte list option \<times> flash" where
  "flash_read n f = (case next_event f of (e, f) \<Rightarrow>
     let bs = take n (drop (flash_pos f) (cells f)); f' = f\<lparr>flash_pos := flash_pos f + length bs\<rparr> in
     (case e of
        Fails \<Rightarrow> (None, f)
      | Ecc bs' \<Rightarrow> if length bs = n \<and> length bs' = n then (Some bs', f'\<lparr>ecc_failed := ecc_failed f + 1\<rparr>) else (None, f')
      | _ \<Rightarrow> (if length bs = n then Some bs else None, f')))"

section \<open>The table of partitions\<close>

record MtdPartition =
  device_index :: int
  part_size :: "32 word"
  erase_size :: "32 word"
  part_name :: "string option"

record MtdState =
  partitions :: "MtdPartition list option"
  partition_count :: int

definition no_partition :: MtdPartition where
  "no_partition = \<lparr>device_index = - 1, part_size = 0, erase_size = 0, part_name = None\<rparr>"

definition mtd_start :: MtdState where
  "mtd_start = \<lparr>partitions = None, partition_count = - 1\<rparr>"

text \<open>\<open>sscanf\<close> with the literal text, \<open>%d\<close>, \<open>%x\<close> and \<open>%63[^"]\<close>; a blank of the format skips white space.\<close>

definition scan_lit :: "string \<Rightarrow> string \<Rightarrow> string option" where
  "scan_lit p s = (if take (length p) s = p then Some (drop (length p) s) else None)"

definition scan_dec :: "string \<Rightarrow> (int \<times> string) option" where
  "scan_dec s = (case strtol10 s of (v, rest) \<Rightarrow> if rest = s then None else Some (v, rest))"

definition xdigit :: "char \<Rightarrow> nat option" where
  "xdigit c = (let n = of_char c in
     if 48 \<le> n \<and> n \<le> 57 then Some (n - 48)
     else if 97 \<le> n \<and> n \<le> 102 then Some (n - 87)
     else if 65 \<le> n \<and> n \<le> 70 then Some (n - 55) else None)"

definition is_xdigit :: "char \<Rightarrow> bool" where
  "is_xdigit c \<longleftrightarrow> xdigit c \<noteq> None"

text \<open>White space, a sign and the prefix \<open>0x\<close> are allowed; a value that is too large is the largest one.\<close>

definition scan_hex :: "string \<Rightarrow> (32 word \<times> string) option" where
  "scan_hex s =
     (let s1 = dropWhile isspace s;
          neg = (s1 \<noteq> [] \<and> hd s1 = CHR ''-'');
          s2 = (if s1 \<noteq> [] \<and> (hd s1 = CHR ''-'' \<or> hd s1 = CHR ''+'') then tl s1 else s1);
          s3 = (if take 2 s2 = ''0x'' \<or> take 2 s2 = ''0X'' then drop 2 s2 else s2);
          ds = takeWhile is_xdigit s3;
          n = foldl (\<lambda>n c. n * 16 + the (xdigit c)) 0 ds
      in if ds = [] then None
         else Some (if n \<ge> 2 ^ 32 then - 1 else if neg then - word_of_nat n else word_of_nat n,
                    dropWhile is_xdigit s3))"

definition scan_quoted :: "string \<Rightarrow> string option" where
  "scan_quoted s = do {
     s \<leftarrow> scan_lit [CHR 0x22] (dropWhile isspace s);
     let name = take 63 (takeWhile (\<lambda>c. c \<noteq> CHR 0x22) s);
     if name = [] then None else Some name
   }"

definition sscanf_mtd :: "string \<Rightarrow> (int \<times> 32 word \<times> 32 word \<times> string) option" where
  "sscanf_mtd s = do {
     s \<leftarrow> scan_lit ''mtd'' s;
     (num, s) \<leftarrow> scan_dec s;
     s \<leftarrow> scan_lit '':'' s;
     (sz, s) \<leftarrow> scan_hex s;
     (es, s) \<leftarrow> scan_hex s;
     name \<leftarrow> scan_quoted s;
     Some (num, sz, es, name)
   }"

text \<open>The lines; the number of a partition is an index that is not checked.\<close>

lemma rest_shorter: "bufp \<noteq> [] \<Longrightarrow> length (drop 1 (dropWhile P bufp)) < length bufp"
  using length_dropWhile_le [of P bufp] by (cases bufp) auto

function scan_mtd_lines :: "string \<Rightarrow> MtdPartition list \<Rightarrow> int \<Rightarrow> MtdState ub" where
  "scan_mtd_lines bufp ps n =
     (if bufp = [] then Some \<lparr>partitions = Some ps, partition_count = n\<rparr>
      else
        let rest = drop 1 (dropWhile (\<lambda>c. c \<noteq> CHR 0x0A) bufp) in
        (case sscanf_mtd bufp of
           None \<Rightarrow> scan_mtd_lines rest ps n
         | Some (num, sz, es, name) \<Rightarrow>
             if 0 \<le> num \<and> nat num < length ps
             then scan_mtd_lines rest
                    (ps[nat num := \<lparr>device_index = num, part_size = sz, erase_size = es, part_name = Some name\<rparr>]) (n + 1)
             else None))"
  by pat_completeness auto

termination
  by (relation "measure (\<lambda>(bufp, ps, n). length bufp)")
    (use rest_shorter in \<open>auto simp del: drop_Suc\<close>)

declare scan_mtd_lines.simps [simp del]

text \<open>\<open>None\<close> stands for a \<open>/proc/mtd\<close> that cannot be read; the name and number of old entries are cleared.\<close>

definition mtd_scan_partitions :: "string option \<Rightarrow> MtdState \<Rightarrow> (int \<times> MtdState) ub" where
  "mtd_scan_partitions proc_mtd st =
     (let ps = (case partitions st of None \<Rightarrow> replicate 32 no_partition | Some ps \<Rightarrow> ps);
          ps = map (\<lambda>p. p\<lparr>part_name := None, device_index := - 1\<rparr>) ps
      in case proc_mtd of
           None \<Rightarrow> Some (- 1, \<lparr>partitions = Some ps, partition_count = - 1\<rparr>)
         | Some t \<Rightarrow> do {
             st \<leftarrow> scan_mtd_lines (take 2047 t) ps 0;
             Some (partition_count st, st)
           })"

definition mtd_find_partition_by_name :: "string \<Rightarrow> MtdState \<Rightarrow> MtdPartition option" where
  "mtd_find_partition_by_name name st = (case partitions st of
     None \<Rightarrow> None
   | Some ps \<Rightarrow> find (\<lambda>p. device_index p \<ge> 0 \<and> part_name p = Some name) ps)"

section \<open>Reading\<close>

text \<open>The size of a block, and the size of the partition as the \<open>int\<close> the loops compare with.\<close>

abbreviation block_size :: "MtdPartition \<Rightarrow> nat" where
  "block_size p \<equiv> unat (erase_size p)"

abbreviation end_of :: "MtdPartition \<Rightarrow> int" where
  "end_of p \<equiv> sint (part_size p)"

text \<open>
  The position of the block is tried, then the next one, and so on; \<open>before\<close> is the error count that a read
  is compared with.  A driver that does not know of bad blocks answers with an error too, and its blocks are
  skipped.
\<close>

lemma block_step:
  "int (pos + n) \<le> s \<Longrightarrow> n \<noteq> 0 \<Longrightarrow> nat (s - int (pos + n) + 1) < nat (s - int pos + 1)"
  by linarith

function read_block_at :: "MtdPartition \<Rightarrow> nat \<Rightarrow> nat \<Rightarrow> flash \<Rightarrow> (byte list option \<times> flash) ub" where
  "read_block_at p pos before f =
     (let n = block_size p in
      if int (pos + n) \<le> end_of p then
        if n = 0 then None
        else (case flash_read n (f\<lparr>flash_pos := pos\<rparr>) of
          (None, f) \<Rightarrow> read_block_at p (pos + n) before f
        | (Some bs, f) \<Rightarrow>
            (case next_event f of (e, f) \<Rightarrow>
               if e = Fails then Some (None, f)
               else if ecc_failed f \<noteq> before then read_block_at p (pos + n) (ecc_failed f) f
               else if bad_answer f pos \<noteq> Good_block then read_block_at p (pos + n) before f
               else Some (Some bs, f)))
      else Some (None, f))"
  by pat_completeness auto

termination
  by (relation "measure (\<lambda>(p, pos, _). nat (end_of p - int pos + 1))")
    (auto simp only: in_measure case_prod_conv wf_measure intro!: block_step)

declare read_block_at.simps [simp del]

definition read_block :: "MtdPartition \<Rightarrow> flash \<Rightarrow> (byte list option \<times> flash) ub" where
  "read_block p f = (case next_event f of (e, f) \<Rightarrow>
     if e = Fails then Some (None, f) else read_block_at p (flash_pos f) (ecc_failed f) f)"

record MtdReadContext =
  rd_partition :: MtdPartition
  rd_buffer :: "byte list"
  consumed :: nat

definition mtd_read_partition :: "MtdPartition \<Rightarrow> flash \<Rightarrow> MtdReadContext option \<times> flash" where
  "mtd_read_partition p f =
     (if sint (erase_size p) < 0 then (None, f)
      else (case next_event f of (e, f) \<Rightarrow>
        if e = Fails then (None, f)
        else (Some \<lparr>rd_partition = p, rd_buffer = [], consumed = block_size p\<rparr>, f\<lparr>flash_pos := 0\<rparr>)))"

definition mtd_read_skip_to :: "nat \<Rightarrow> flash \<Rightarrow> flash" where
  "mtd_read_skip_to off f = f\<lparr>flash_pos := off\<rparr>"

text \<open>
  \<open>mtd_read_data\<close>: \<open>len\<close> bytes remain, \<open>out\<close> has been delivered.  Each round takes from the buffer, reads whole
  blocks for as long as they are asked for, and fills the buffer for what remains.
\<close>

function read_whole :: "MtdPartition \<Rightarrow> nat \<Rightarrow> byte list \<Rightarrow> flash \<Rightarrow> ((nat \<times> byte list) option \<times> flash) ub" where
  "read_whole p len out f =
     (if block_size p = 0 then None
      else if block_size p \<le> len then do {
        (r, f) \<leftarrow> read_block p f;
        (case r of
           None \<Rightarrow> Some (None, f)
         | Some bs \<Rightarrow> read_whole p (len - block_size p) (out @ bs) f)
      }
      else Some (Some (len, out), f))"
  by pat_completeness auto

termination
  by (relation "measure (\<lambda>(p, len, _). len)") auto

declare read_whole.simps [simp del]

definition read_buffered ::
  "MtdReadContext \<Rightarrow> nat \<Rightarrow> byte list \<Rightarrow> MtdReadContext \<times> nat \<times> byte list" where
  "read_buffered ctx len out =
     (let copy = min len (block_size (rd_partition ctx) - consumed ctx) in
      (ctx\<lparr>consumed := consumed ctx + copy\<rparr>, len - copy, out @ take copy (drop (consumed ctx) (rd_buffer ctx))))"

text \<open>
  After the round that fills the buffer the next one ends: what remains is shorter than a block.  \<open>None\<close> as a
  result is the code's - 1.
\<close>

definition mtd_read_data ::
  "MtdReadContext \<Rightarrow> nat \<Rightarrow> flash \<Rightarrow> (byte list option \<times> MtdReadContext \<times> flash) ub" where
  "mtd_read_data ctx len f =
     (if len = 0 then Some (Some [], ctx, f)
      else (case read_buffered ctx len [] of (ctx, len, out) \<Rightarrow> do {
        (r, f) \<leftarrow> (if consumed ctx = block_size (rd_partition ctx)
                      then read_whole (rd_partition ctx) len out f else Some (Some (len, out), f));
        (case r of
           None \<Rightarrow> Some (None, ctx, f)
         | Some (len, out) \<Rightarrow>
             if len = 0 then Some (Some out, ctx, f)
             else do {
               (r, f) \<leftarrow> read_block (rd_partition ctx) f;
               (case r of
                  None \<Rightarrow> Some (None, ctx, f)
                | Some bs \<Rightarrow>
                    (case read_buffered (ctx\<lparr>rd_buffer := bs, consumed := 0\<rparr>) len out of (ctx, _, out) \<Rightarrow>
                       Some (Some out, ctx, f)))
             })
      }))"

section \<open>Writing\<close>

record MtdWriteContext =
  wr_partition :: MtdPartition
  wr_stored :: "byte list"
  bad_block_offsets :: "nat list"

definition mtd_write_partition :: "MtdPartition \<Rightarrow> flash \<Rightarrow> MtdWriteContext option \<times> flash" where
  "mtd_write_partition p f =
     (if sint (erase_size p) < 0 then (None, f)
      else (case next_event f of (e, f) \<Rightarrow>
        if e = Fails then (None, f)
        else (Some \<lparr>wr_partition = p, wr_stored = [], bad_block_offsets = []\<rparr>, f\<lparr>flash_pos := 0\<rparr>)))"

text \<open>One attempt: the result of the write is not looked at, what is read back is.\<close>

definition try_block :: "nat \<Rightarrow> byte list \<Rightarrow> flash \<Rightarrow> bool \<times> flash" where
  "try_block pos bs f = (case flash_erase pos (length bs) f of (erased, f) \<Rightarrow>
     if \<not> erased then (False, f)
     else (case flash_write bs (f\<lparr>flash_pos := pos\<rparr>) of (_, f) \<Rightarrow>
       case flash_read (length bs) (f\<lparr>flash_pos := pos\<rparr>) of (r, f) \<Rightarrow> (r = Some bs, f)))"

text \<open>\<open>write_block\<close> from a position: the result is 0 or - 1, with the offsets of the blocks that were given up.\<close>

function write_block_at :: "MtdPartition \<Rightarrow> nat \<Rightarrow> byte list \<Rightarrow> nat list \<Rightarrow> flash \<Rightarrow> (int \<times> nat list \<times> flash) ub" where
  "write_block_at p pos bs bad f =
     (let n = block_size p in
      if int (pos + n) \<le> end_of p then
        if n = 0 then None
        else if bad_answer f pos \<noteq> Good_block \<and> bad_answer f pos \<noteq> Bad_unsupported
        then write_block_at p (pos + n) bs (bad @ [pos]) f
        else (case try_block pos bs f of (ok, f) \<Rightarrow>
          if ok then Some (0, bad, f)
          else (case try_block pos bs f of (ok, f) \<Rightarrow>
            if ok then Some (0, bad, f)
            else write_block_at p (pos + n) bs (bad @ [pos]) (snd (flash_erase pos n f))))
      else Some (- 1, bad, f))"
  by pat_completeness auto

termination
  by (relation "measure (\<lambda>(p, pos, _). nat (end_of p - int pos + 1))")
    (auto simp only: in_measure case_prod_conv wf_measure intro!: block_step)

declare write_block_at.simps [simp del]

definition write_block :: "MtdWriteContext \<Rightarrow> byte list \<Rightarrow> flash \<Rightarrow> (int \<times> MtdWriteContext \<times> flash) ub" where
  "write_block ctx bs f = do {
     (r, bad, f) \<leftarrow> write_block_at (wr_partition ctx) (flash_pos f) bs (bad_block_offsets ctx) f;
     Some (r, ctx\<lparr>bad_block_offsets := bad\<rparr>, f)
   }"

text \<open>The loop that writes whole blocks from the data of the caller; the rest of the data is returned.\<close>

function write_whole ::
  "MtdWriteContext \<Rightarrow> byte list \<Rightarrow> flash \<Rightarrow> (byte list option \<times> MtdWriteContext \<times> flash) ub" where
  "write_whole ctx bs f =
     (let n = block_size (wr_partition ctx) in
      if n = 0 then None
      else if wr_stored ctx = [] \<and> n \<le> length bs then do {
        (r, ctx, f) \<leftarrow> write_block ctx (take n bs) f;
        if r \<noteq> 0 then Some (None, ctx, f) else write_whole ctx (drop n bs) f
      }
      else Some (Some bs, ctx, f))"
  by pat_completeness auto

termination
  by (relation "measure (\<lambda>(ctx, bs, f). length bs)") auto

declare write_whole.simps [simp del]

text \<open>The buffer takes what fits.  A full buffer is written, and emptied when that worked.\<close>

definition fill_stored :: "MtdWriteContext \<Rightarrow> byte list \<Rightarrow> MtdWriteContext \<times> byte list" where
  "fill_stored ctx bs =
     (let copy = block_size (wr_partition ctx) - length (wr_stored ctx) in
      (ctx\<lparr>wr_stored := wr_stored ctx @ take copy bs\<rparr>, drop copy bs))"

definition flush_full :: "MtdWriteContext \<Rightarrow> flash \<Rightarrow> (bool \<times> MtdWriteContext \<times> flash) ub" where
  "flush_full ctx f =
     (if length (wr_stored ctx) = block_size (wr_partition ctx) then do {
        (r, ctx, f) \<leftarrow> write_block ctx (wr_stored ctx) f;
        Some (if r \<noteq> 0 then (False, ctx, f) else (True, ctx\<lparr>wr_stored := []\<rparr>, f))
      }
      else Some (True, ctx, f))"

text \<open>
  A round of \<open>mtd_write_data\<close>: coalesce, write a complete buffer, write whole blocks.  A round that starts
  with an empty buffer leaves less than a block, which a last round puts into the buffer.
\<close>

definition write_round ::
  "MtdWriteContext \<Rightarrow> byte list \<Rightarrow> flash \<Rightarrow> (byte list option \<times> MtdWriteContext \<times> flash) ub" where
  "write_round ctx bs f =
     (case (if wr_stored ctx \<noteq> [] \<or> length bs < block_size (wr_partition ctx) then fill_stored ctx bs
            else (ctx, bs)) of (ctx, bs) \<Rightarrow> do {
        (ok, ctx, f) \<leftarrow> flush_full ctx f;
        if \<not> ok then Some (None, ctx, f) else write_whole ctx bs f
      })"

definition mtd_write_data :: "MtdWriteContext \<Rightarrow> byte list \<Rightarrow> flash \<Rightarrow> (int \<times> MtdWriteContext \<times> flash) ub" where
  "mtd_write_data ctx bs f =
     (if bs = [] then Some (0, ctx, f)
      else do {
        (r, ctx, f) \<leftarrow> write_round ctx bs f;
        (case r of
           None \<Rightarrow> Some (- 1, ctx, f)
         | Some [] \<Rightarrow> Some (int (length bs), ctx, f)
         | Some rest \<Rightarrow> do {
             (r, ctx, f) \<leftarrow> write_round ctx rest f;
             Some (if r = None then (- 1, ctx, f) else (int (length bs), ctx, f))
           })
      })"

text \<open>Erasing block after block; only a block that is known to be bad is left out.\<close>

fun erase_from :: "nat \<Rightarrow> nat \<Rightarrow> nat \<Rightarrow> flash \<Rightarrow> nat \<times> flash" where
  "erase_from n 0 pos f = (pos, f)"
| "erase_from n (Suc k) pos f =
     erase_from n k (pos + n) (if bad_answer f pos = Bad_block then f else snd (flash_erase pos n f))"

text \<open>Pending data is padded with zeros first.  A negative number of blocks stands for all that remain.\<close>

definition mtd_erase_blocks :: "MtdWriteContext \<Rightarrow> int \<Rightarrow> flash \<Rightarrow> (int \<times> MtdWriteContext \<times> flash) ub" where
  "mtd_erase_blocks ctx blocks f =
     (let p = wr_partition ctx; n = block_size p in
      if n = 0 then None
      else do {
        (ok, ctx, f) \<leftarrow>
          (if wr_stored ctx \<noteq> [] then do {
             (r, ctx, f) \<leftarrow> write_block ctx (wr_stored ctx @ replicate (n - length (wr_stored ctx)) 0) f;
             Some (if r \<noteq> 0 then (False, ctx, f) else (True, ctx\<lparr>wr_stored := []\<rparr>, f))
           }
           else Some (True, ctx, f));
        if \<not> ok then Some (- 1, ctx, f)
        else
          let total = sint ((part_size p - word_of_nat (flash_pos f)) div erase_size p);
              blocks = (if blocks < 0 then total else blocks)
          in if blocks > total then Some (- 1, ctx, f)
             else (case erase_from n (nat blocks) (flash_pos f) f of (pos, f) \<Rightarrow> Some (int pos, ctx, f))
      })"

definition mtd_write_close :: "MtdWriteContext \<Rightarrow> flash \<Rightarrow> (int \<times> MtdWriteContext \<times> flash) ub" where
  "mtd_write_close ctx f = do {
     (pos, ctx, f) \<leftarrow> mtd_erase_blocks ctx 0 f;
     (case next_event f of (e, f) \<Rightarrow> Some (if pos = - 1 \<or> e = Fails then - 1 else 0, ctx, f))
   }"

text \<open>The first good block at or after a position, from the blocks that were given up.\<close>

fun find_write_start :: "nat \<Rightarrow> nat list \<Rightarrow> nat \<Rightarrow> nat" where
  "find_write_start n [] pos = pos"
| "find_write_start n (b # bs) pos =
     (if b = pos then find_write_start n bs (pos + n) else if b > pos then pos else find_write_start n bs pos)"

definition mtd_find_write_start :: "MtdWriteContext \<Rightarrow> nat \<Rightarrow> nat" where
  "mtd_find_write_start ctx pos = find_write_start (block_size (wr_partition ctx)) (bad_block_offsets ctx) pos"

section \<open>The commands\<close>

text \<open>
  The state of the commands: the table, the text of \<open>/proc/mtd\<close> (\<open>None\<close> when it cannot be read), and the
  devices by their numbers.
\<close>

record mtd_system =
  mtd_table :: MtdState
  proc_mtd :: "string option"
  mtd_device :: "int \<Rightarrow> flash"

definition put_device :: "MtdPartition \<Rightarrow> flash \<Rightarrow> mtd_system \<Rightarrow> mtd_system" where
  "put_device p f sys = sys\<lparr>mtd_device := (mtd_device sys)(device_index p := f)\<rparr>"

text \<open>Scanning, then looking for a name; the partition is \<open>None\<close> when the scan or the search fails.\<close>

definition open_partition :: "string \<Rightarrow> mtd_system \<Rightarrow> (MtdPartition option \<times> mtd_system) ub" where
  "open_partition name sys = do {
     (n, st) \<leftarrow> mtd_scan_partitions (proc_mtd sys) (mtd_table sys);
     Some (if n \<le> 0 then None else mtd_find_partition_by_name name st, sys\<lparr>mtd_table := st\<rparr>)
   }"

text \<open>The file is what \<open>fread\<close> delivers in pieces that are not empty.\<close>

fun restore_loop :: "MtdWriteContext \<Rightarrow> byte list list \<Rightarrow> flash \<Rightarrow> (bool \<times> MtdWriteContext \<times> flash) ub" where
  "restore_loop ctx [] f = Some (True, ctx, f)"
| "restore_loop ctx (bs # bss) f = do {
     (wrote, ctx, f) \<leftarrow> mtd_write_data ctx bs f;
     if wrote \<noteq> int (length bs) then Some (False, ctx, f) else restore_loop ctx bss f
   }"

text \<open>
  \<open>file\<close> is \<open>None\<close> when it cannot be opened; it is opened a second time, to no use.  Errors of the final erasing
  and closing are printed only.
\<close>

definition cmd_mtd_restore_raw_partition ::
  "string \<Rightarrow> byte list list option \<Rightarrow> bool \<Rightarrow> mtd_system \<Rightarrow> (int \<times> mtd_system) ub" where
  "cmd_mtd_restore_raw_partition name data_file reopened sys = (case data_file of
     None \<Rightarrow> Some (- 1, sys)
   | Some pieces \<Rightarrow> do {
       (found, sys) \<leftarrow> open_partition name sys;
       (case found of
          None \<Rightarrow> Some (- 1, sys)
        | Some p \<Rightarrow>
            if \<not> reopened then Some (- 1, sys)
            else (case mtd_write_partition p (mtd_device sys (device_index p)) of
              (None, f) \<Rightarrow> Some (- 1, put_device p f sys)
            | (Some ctx, f) \<Rightarrow> do {
                (success, ctx, f) \<leftarrow> restore_loop ctx pieces f;
                if \<not> success then Some (- 1, put_device p f sys)
                else do {
                  (_, ctx, f) \<leftarrow> mtd_erase_blocks ctx (- 1) f;
                  (_, _, f) \<leftarrow> mtd_write_close ctx f;
                  Some (0, put_device p f sys)
                }
              }))
     })"

definition mtd_partition_info :: "MtdPartition \<Rightarrow> flash \<Rightarrow> int \<times> flash" where
  "mtd_partition_info p f = (case next_event f of (e, f) \<Rightarrow>
     if e = Fails then (- 1, f)
     else (case next_event f of (e, f) \<Rightarrow> (if e = Fails then - 1 else 0, f)))"

definition BLOCK_SIZE :: nat where "BLOCK_SIZE = 2048"

text \<open>
  The loop of a backup ends when nothing more can be read, whatever the reason.  \<open>writes\<close> says for each
  piece whether it is written (and an empty list that all are); the output is \<open>None\<close> when the file is removed.
\<close>

partial_function (option) backup_loop ::
  "MtdReadContext \<Rightarrow> bool list \<Rightarrow> byte list \<Rightarrow> flash \<Rightarrow> (byte list option \<times> bool list \<times> flash) ub" where
  "backup_loop ctx writes out f = do {
     (r, ctx, f) \<leftarrow> mtd_read_data ctx BLOCK_SIZE f;
     (case r of
        None \<Rightarrow> Some (Some out, writes, f)
      | Some bs \<Rightarrow>
          if writes \<noteq> [] \<and> \<not> hd writes then Some (None, tl writes, f)
          else backup_loop ctx (tl writes) (out @ bs) f)
   }"

definition cmd_mtd_backup_raw_partition ::
  "string \<Rightarrow> bool \<Rightarrow> bool list \<Rightarrow> mtd_system \<Rightarrow> (int \<times> byte list option \<times> mtd_system) ub" where
  "cmd_mtd_backup_raw_partition name opens writes sys = do {
     (found, sys) \<leftarrow> open_partition name sys;
     (case found of
        None \<Rightarrow> Some (- 1, None, sys)
      | Some p \<Rightarrow>
          (case mtd_partition_info p (mtd_device sys (device_index p)) of (r, f) \<Rightarrow>
             if r \<noteq> 0 \<or> \<not> opens then Some (- 1, None, put_device p f sys)
             else (case mtd_read_partition p f of
               (None, f) \<Rightarrow> Some (- 1, None, put_device p f sys)
             | (Some ctx, f) \<Rightarrow> do {
                 (out, writes, f) \<leftarrow> backup_loop ctx writes [] f;
                 Some (if out = None \<or> writes \<noteq> [] \<and> \<not> hd writes then (- 1, None, put_device p f sys)
                       else (0, out, put_device p f sys))
               })))
   }"

text \<open>Erasing: the error - 1 is not 0, so it counts as erased.  The context is not closed.\<close>

definition cmd_mtd_erase_raw_partition :: "string \<Rightarrow> mtd_system \<Rightarrow> (int \<times> mtd_system) ub" where
  "cmd_mtd_erase_raw_partition name sys = do {
     (found, sys) \<leftarrow> open_partition name sys;
     (case found of
        None \<Rightarrow> Some (- 1, sys)
      | Some p \<Rightarrow>
          (case mtd_write_partition p (mtd_device sys (device_index p)) of
             (None, f) \<Rightarrow> Some (- 1, put_device p f sys)
           | (Some ctx, f) \<Rightarrow> do {
               (erased, _, f) \<leftarrow> mtd_erase_blocks ctx (- 1) f;
               Some (if erased = 0 then - 1 else 0, put_device p f sys)
             }))
   }"

definition cmd_mtd_erase_partition :: "string \<Rightarrow> string \<Rightarrow> mtd_system \<Rightarrow> (int \<times> mtd_system) ub" where
  "cmd_mtd_erase_partition part filesystem sys = cmd_mtd_erase_raw_partition part sys"

definition cmd_mtd_get_partition_device :: "string \<Rightarrow> mtd_system \<Rightarrow> (int \<times> string option \<times> mtd_system) ub" where
  "cmd_mtd_get_partition_device part sys = do {
     (_, st) \<leftarrow> mtd_scan_partitions (proc_mtd sys) (mtd_table sys);
     Some (case mtd_find_partition_by_name part st of
         None \<Rightarrow> (- 1, None, sys\<lparr>mtd_table := st\<rparr>)
       | Some p \<Rightarrow> (0, Some (''/dev/block/mtdblock'' @ show_int (device_index p)), sys\<lparr>mtd_table := st\<rparr>))
   }"

end
