(* ===== verification/MtdLaws.thy ===== *)
theory MtdLaws
  imports Mtd
begin

text \<open>
  What is written to a flash partition can be read back: every block that is reported as written was read
  back and compared, blocks are skipped in order, and a reader that skips the same blocks gets the data.
\<close>

section \<open>Blocks\<close>

named_theorems flash_simps "what the calls of the device leave alone"

definition truthful :: "flash \<Rightarrow> bool" where
  "truthful f \<longleftrightarrow> (\<forall>bs. Ecc bs \<notin> set (flash_events f))"

definition block :: "nat \<Rightarrow> flash \<Rightarrow> nat \<Rightarrow> byte list" where
  "block n f k = take n (drop (k * n) (cells f))"

text \<open>The bytes that a reader finds in the blocks from \<open>i\<close> to \<open>j\<close>.\<close>

definition readable :: "nat \<Rightarrow> flash \<Rightarrow> nat \<Rightarrow> nat \<Rightarrow> byte list" where
  "readable n f i j = concat (map (block n f) (filter (\<lambda>k. bad_answer f (k * n) = Good_block) [i..<j]))"

lemma readable_split:
  assumes "i \<le> j" "j \<le> k"
  shows "readable n f i k = readable n f i j @ readable n f j k"
proof -
  have "[i..<k] = [i..<j] @ [j..<k]" using assms upt_add_eq_append [of i j "k - j"] by simp
  then show ?thesis by (simp only: readable_def filter_append map_append concat_append)
qed

lemma readable_pos [simp]: "readable n (f\<lparr>flash_pos := q\<rparr>) i j = readable n f i j"
  "block n (f\<lparr>flash_pos := q\<rparr>) k = block n f k"
proof -
  have "block n (f\<lparr>flash_pos := q\<rparr>) = block n f" by (simp add: block_def fun_eq_iff)
  then show "readable n (f\<lparr>flash_pos := q\<rparr>) i j = readable n f i j"
    "block n (f\<lparr>flash_pos := q\<rparr>) k = block n f k" by (simp_all add: readable_def)
qed

lemma readable_one: "readable n f i (Suc i) = (if bad_answer f (i * n) = Good_block then block n f i else [])"
  by (simp add: readable_def)

lemma readable_none: "\<forall>k \<in> {i..<j}. bad_answer f (k * n) \<noteq> Good_block \<Longrightarrow> readable n f i j = []"
  by (simp add: readable_def filter_empty_conv)

lemma readable_cong:
  assumes "bad_answer g = bad_answer f" "\<forall>k \<in> {i..<j}. block n g k = block n f k"
  shows "readable n g i j = readable n f i j"
proof -
  have "map (block n g) (filter P [i..<j]) = map (block n f) (filter P [i..<j])" for P
    using assms(2) by (intro map_cong) auto
  with assms(1) show ?thesis by (simp only: readable_def)
qed

text \<open>From \<open>f\<close> to \<open>g\<close> only the bytes from \<open>a\<close> to \<open>b\<close> change.\<close>

definition only_bytes :: "nat \<Rightarrow> nat \<Rightarrow> flash \<Rightarrow> flash \<Rightarrow> bool" where
  "only_bytes a b f g \<longleftrightarrow> length (cells g) = length (cells f) \<and> bad_answer g = bad_answer f
     \<and> (\<forall>i < length (cells f). i < a \<or> b \<le> i \<longrightarrow> cells g ! i = cells f ! i) \<and> (truthful f \<longrightarrow> truthful g)
     \<and> (flash_events f = [] \<longrightarrow> flash_events g = [])"

lemma only_bytes_refl: "only_bytes a b f f"
  by (simp add: only_bytes_def)

lemma only_bytes_trans: "only_bytes a b f g \<Longrightarrow> only_bytes a b g h \<Longrightarrow> only_bytes a b f h"
  by (simp add: only_bytes_def)

lemma only_bytes_mono: "only_bytes a b f g \<Longrightarrow> a' \<le> a \<Longrightarrow> b \<le> b' \<Longrightarrow> only_bytes a' b' f g"
  by (auto simp: only_bytes_def)

lemma only_bytes_pos [simp]: "only_bytes a b (f\<lparr>flash_pos := p\<rparr>) g = only_bytes a b f g"
  "only_bytes a b f (g\<lparr>flash_pos := p\<rparr>) = only_bytes a b f g"
  by (simp_all add: only_bytes_def truthful_def)

lemma only_bytes_block:
  assumes "only_bytes a b f g" "(k + 1) * n \<le> a \<or> b \<le> k * n"
  shows "block n g k = block n f k"
proof -
  have "cells g ! i = cells f ! i" if "k * n \<le> i" "i < k * n + n" "i < length (cells f)" for i
    using assms that by (auto simp: only_bytes_def)
  moreover have "length (cells g) = length (cells f)" using assms(1) by (simp add: only_bytes_def)
  ultimately show ?thesis unfolding block_def by (intro nth_equalityI) auto
qed

lemma next_event_only [flash_simps]: "next_event f = (e, g) \<Longrightarrow> only_bytes a b f g \<and> cells g = cells f
    \<and> flash_pos g = flash_pos f \<and> ecc_failed g = ecc_failed f \<and> (truthful f \<longrightarrow> (\<forall>bs. e \<noteq> Ecc bs))
    \<and> (flash_events f = [] \<longrightarrow> e = Works \<and> g = f)"
  by (auto simp: next_event_def only_bytes_def truthful_def split: list.splits)

lemma put_cells_only:
  "only_bytes pos (pos + length bs) f (put_cells pos bs f)"
  "pos + length bs \<le> length (cells f) \<Longrightarrow> take (length bs) (drop pos (cells (put_cells pos bs f))) = bs"
  "flash_pos (put_cells pos bs f) = flash_pos f" "ecc_failed (put_cells pos bs f) = ecc_failed f"
proof -
  have "cells (put_cells pos bs f) ! i = cells f ! i" if "i < pos \<or> pos + length bs \<le> i" "i < length (cells f)" for i
    using that by (auto simp: put_cells_def nth_append min_def)
  moreover have "length (cells (put_cells pos bs f)) = length (cells f)"
    by (simp add: put_cells_def min_def)
  ultimately show "only_bytes pos (pos + length bs) f (put_cells pos bs f)"
    by (auto simp: only_bytes_def truthful_def put_cells_def not_le)
  show "take (length bs) (drop pos (cells (put_cells pos bs f))) = bs" if "pos + length bs \<le> length (cells f)"
    using that by (simp add: put_cells_def)
qed (simp_all add: put_cells_def)

lemma flash_erase_only:
  assumes "flash_erase pos n f = (ok, g)"
  shows "only_bytes pos (pos + n) f g \<and> flash_pos g = flash_pos f \<and> (flash_events f = [] \<longrightarrow> ok)"
proof -
  obtain e f1 where e: "next_event f = (e, f1)" by (cases "next_event f")
  note n = next_event_only [OF e, of pos "pos + n"]
  from n have "only_bytes pos (pos + n) f1 (put_cells pos (replicate n 0xFF) f1)"
    using put_cells_only(1) [of pos "replicate n 0xFF" f1] by simp
  from only_bytes_trans [OF conjunct1 [OF n] this] n assms e show ?thesis
    using put_cells_only(3) [of pos "replicate n 0xFF" f1]
    by (auto simp: flash_erase_def split: if_splits)
qed

lemma flash_write_only:
  assumes "flash_write bs f = (ok, g)" "flash_pos f + length bs \<le> length (cells f)"
  shows "only_bytes (flash_pos f) (flash_pos f + length bs) f g \<and> (flash_events f = [] \<longrightarrow>
    take (length bs) (drop (flash_pos f) (cells g)) = bs)"
proof -
  obtain e f1 where e: "next_event f = (e, f1)" by (cases "next_event f")
  let ?a = "flash_pos f" and ?b = "flash_pos f + length bs"
  note n = next_event_only [OF e, of ?a ?b]
  have put: "only_bytes ?a ?b f (put_cells ?a bs' f1)" if "length bs' \<le> length bs" for bs'
  proof -
    have "only_bytes ?a (?a + length bs') f1 (put_cells ?a bs' f1)"
      using put_cells_only(1) [of ?a bs' f1] by simp
    then have "only_bytes ?a ?b f1 (put_cells ?a bs' f1)" by (rule only_bytes_mono) (use that in simp_all)
    with n show ?thesis using only_bytes_trans by blast
  qed
  have "only_bytes ?a ?b f (put_cells ?a (take (length bs) bs') f1)" for bs'
    by (rule put) simp
  then have "only_bytes ?a ?b f g"
    using assms(1) e n put [of bs]
    by (cases e) (auto simp: flash_write_def simp del: length_take)
  moreover have "take (length bs) (drop ?a (cells g)) = bs" if "flash_events f = []"
    using assms e n that put_cells_only(2) [of ?a bs f1] by (auto simp: flash_write_def)
  ultimately show ?thesis by simp
qed

lemma flash_read_only:
  assumes "flash_read k f = (r, g)"
  shows "only_bytes a b f g \<and> cells g = cells f
    \<and> (r \<noteq> None \<longrightarrow> flash_pos g = flash_pos f + k)
    \<and> (truthful f \<longrightarrow> r \<noteq> None \<longrightarrow> r = Some (take k (drop (flash_pos f) (cells f))) \<and> ecc_failed g = ecc_failed f)
    \<and> (flash_events f = [] \<longrightarrow> flash_pos f + k \<le> length (cells f) \<longrightarrow> r \<noteq> None)"
proof -
  obtain e f1 where e: "next_event f = (e, f1)" by (cases "next_event f")
  note n = next_event_only [OF e, of a b]
  show ?thesis
    using assms e n by (cases e) (auto simp: flash_read_def Let_def only_bytes_def truthful_def split: if_splits)
qed

section \<open>Writing a block\<close>

lemma try_block_only:
  assumes "try_block pos bs f = (ok, g)" "pos + length bs \<le> length (cells f)"
  shows "only_bytes pos (pos + length bs) f g"
    "truthful f \<Longrightarrow> ok \<Longrightarrow> take (length bs) (drop pos (cells g)) = bs \<and> flash_pos g = pos + length bs"
    "flash_events f = [] \<Longrightarrow> ok"
proof -
  let ?b = "pos + length bs"
  obtain er f1 where er: "flash_erase pos (length bs) f = (er, f1)" by fastforce
  note e = flash_erase_only [OF er]
  obtain wr f2 where wr: "flash_write bs (f1\<lparr>flash_pos := pos\<rparr>) = (wr, f2)" by fastforce
  have len: "length (cells f1) = length (cells f)" using e by (simp add: only_bytes_def)
  have "flash_pos (f1\<lparr>flash_pos := pos\<rparr>) + length bs \<le> length (cells (f1\<lparr>flash_pos := pos\<rparr>))"
    using assms(2) len by simp
  note w = flash_write_only [OF wr this]
  obtain r f3 where r: "flash_read (length bs) (f2\<lparr>flash_pos := pos\<rparr>) = (r, f3)" by fastforce
  note v = flash_read_only [OF r, of pos ?b]
  have o1: "only_bytes pos ?b f f1" using e by blast
  have o2: "only_bytes pos ?b f f2" using only_bytes_trans [OF o1, of f2] w by simp
  have o3: "only_bytes pos ?b f f3" using only_bytes_trans [OF o2, of f3] v by simp
  have g: "g = (if er then f3 else f1)" "ok \<longleftrightarrow> er \<and> r = Some bs"
    using assms(1) by (simp_all add: try_block_def er wr r split: if_splits)
  show "only_bytes pos ?b f g" using g(1) o1 o3 by simp
  show "take (length bs) (drop pos (cells g)) = bs \<and> flash_pos g = pos + length bs" if "truthful f" "ok"
  proof -
    have "truthful (f2\<lparr>flash_pos := pos\<rparr>)" using o2 that(1) by (simp add: only_bytes_def truthful_def)
    with v g that(2) show ?thesis by simp
  qed
  show ok if "flash_events f = []"
  proof -
    have t: "flash_events f1 = []" "flash_events f2 = []" using o1 o2 that by (auto simp: only_bytes_def)
    have tr: "truthful (f2\<lparr>flash_pos := pos\<rparr>)" using t(2) by (simp add: truthful_def)
    have "r \<noteq> None" using v t(2) o2 assms(2) by (simp add: only_bytes_def)
    with v tr have "r = Some (take (length bs) (drop pos (cells f2)))" by simp
    with w t(1) g(2) e that show ok by simp
  qed
qed

text \<open>
  A block is written at the first position that is neither bad nor given up; what was passed over is noted.
\<close>

definition offers :: "MtdPartition \<Rightarrow> flash \<Rightarrow> bool" where
  "offers p f \<longleftrightarrow> block_size p \<noteq> 0 \<and> end_of p \<le> int (length (cells f))"

abbreviation blocks_of :: "MtdPartition \<Rightarrow> nat" where
  "blocks_of p \<equiv> nat (end_of p) div block_size p"

lemma block_fits: "block_size p \<noteq> 0 \<Longrightarrow> int (k * block_size p + block_size p) \<le> end_of p \<longleftrightarrow> k < blocks_of p"
proof -
  assume n: "block_size p \<noteq> 0"
  have "int m \<le> e \<longleftrightarrow> m \<le> nat e" if "0 < m" for m e using that by linarith
  from this [of "k * block_size p + block_size p"] n
  have "int (k * block_size p + block_size p) \<le> end_of p \<longleftrightarrow> (k + 1) * block_size p \<le> nat (end_of p)"
    by (simp add: add.commute)
  also have "\<dots> \<longleftrightarrow> k + 1 \<le> blocks_of p" using n by (simp add: less_eq_div_iff_mult_less_eq)
  finally show ?thesis by (simp only: Suc_eq_plus1 [symmetric] Suc_le_eq)
qed

definition usable :: "MtdPartition \<Rightarrow> flash \<Rightarrow> nat \<Rightarrow> bool" where
  "usable p f k \<longleftrightarrow> bad_answer f (k * block_size p) \<in> {Good_block, Bad_unsupported}"

definition block_written ::
  "MtdPartition \<Rightarrow> nat \<Rightarrow> byte list \<Rightarrow> nat list \<Rightarrow> flash \<Rightarrow> int \<Rightarrow> nat list \<Rightarrow> flash \<Rightarrow> bool" where
  "block_written p i bs bad f r bad' g \<longleftrightarrow> (\<exists>j \<ge> i. bad' = bad @ map (\<lambda>k. k * block_size p) [i..<j]
     \<and> only_bytes (i * block_size p) ((if r = 0 then Suc j else j) * block_size p) f g
     \<and> (flash_events f = [] \<longrightarrow> (\<forall>k \<in> {i..<j}. \<not> usable p f k))
     \<and> (if r = 0 then j < blocks_of p \<and> usable p f j
            \<and> (truthful f \<longrightarrow> block (block_size p) g j = bs \<and> flash_pos g = Suc j * block_size p)
        else r = - 1 \<and> j = max i (blocks_of p)))"

lemma block_written_skip:
  assumes "block_written p (Suc i) bs (bad @ [i * block_size p]) f1 r bad' g"
    and "only_bytes (i * block_size p) (Suc i * block_size p) f f1" "i < blocks_of p"
    and "flash_events f = [] \<Longrightarrow> \<not> usable p f i"
  shows "block_written p i bs bad f r bad' g"
proof -
  let ?n = "block_size p"
  from assms(1) obtain j where j: "Suc i \<le> j" "bad' = bad @ [i * ?n] @ map (\<lambda>k. k * ?n) [Suc i..<j]"
    "only_bytes (Suc i * ?n) ((if r = 0 then Suc j else j) * ?n) f1 g"
    "flash_events f1 = [] \<longrightarrow> (\<forall>k \<in> {Suc i..<j}. \<not> usable p f1 k)"
    "if r = 0 then j < blocks_of p \<and> usable p f1 j
       \<and> (truthful f1 \<longrightarrow> block ?n g j = bs \<and> flash_pos g = Suc j * ?n)
     else r = - 1 \<and> j = max (Suc i) (blocks_of p)"
    unfolding block_written_def by auto
  have same: "usable p f1 k = usable p f k" for k using assms(2) by (simp add: usable_def only_bytes_def)
  have ev: "flash_events f = [] \<longrightarrow> flash_events f1 = []" "truthful f \<longrightarrow> truthful f1"
    using assms(2) by (simp_all add: only_bytes_def)
  have o1: "only_bytes (i * ?n) ((if r = 0 then Suc j else j) * ?n) f f1"
    by (rule only_bytes_mono [OF assms(2)]) (use j(1) in \<open>simp_all add: mult_le_mono1 del: mult_Suc\<close>)
  have o2: "only_bytes (i * ?n) ((if r = 0 then Suc j else j) * ?n) f1 g"
    by (rule only_bytes_mono [OF j(3)]) simp_all
  have skipped: "[i..<j] = i # [Suc i..<j]" using j(1) by (simp add: upt_conv_Cons)
  have "\<forall>k \<in> {i..<j}. \<not> usable p f k" if "flash_events f = []"
    using j(4) ev that same assms(4) by (metis Suc_leI atLeastLessThan_iff le_neq_implies_less)
  with j(1,2,5) only_bytes_trans [OF o1 o2] same ev assms(3) skipped show ?thesis
    unfolding block_written_def by (intro exI [of _ j]) (auto simp: max_def split: if_splits)
qed

lemma write_block_at_spec:
  assumes "block_size p \<noteq> 0" "end_of p \<le> int (length (cells f))" "length bs = block_size p"
  shows "\<exists>r bad' g. write_block_at p (i * block_size p) bs bad f = Some (r, bad', g) \<and> block_written p i bs bad f r bad' g"
  using assms(2)
proof (induction "blocks_of p - i" arbitrary: i bad f)
  case 0
  then have "\<not> int (i * block_size p + block_size p) \<le> end_of p" using block_fits [OF assms(1), of i] by simp
  with 0 show ?case
    by (subst write_block_at.simps) (auto simp: block_written_def only_bytes_refl Let_def intro!: exI [of _ i])
next
  case (Suc m)
  let ?n = "block_size p"
  have i: "i < blocks_of p" using Suc.hyps(2) by simp
  then have fits: "int (i * ?n + ?n) \<le> end_of p" using block_fits [OF assms(1)] by blast
  then have inside: "i * ?n + ?n \<le> length (cells f)" using Suc.prems by linarith
  note step = write_block_at.simps [of p "i * ?n" bs bad f, unfolded Let_def]
  have next_pos: "i * ?n + ?n = Suc i * ?n" by simp
  have go_on: "\<exists>r bad' g. write_block_at p (i * ?n + ?n) bs (bad @ [i * ?n]) f1 = Some (r, bad', g)
      \<and> block_written p i bs bad f r bad' g"
    if "only_bytes (i * ?n) (Suc i * ?n) f f1" "flash_events f = [] \<Longrightarrow> \<not> usable p f i" for f1
  proof -
    have "end_of p \<le> int (length (cells f1))" using Suc.prems that(1) by (simp add: only_bytes_def)
    have m: "m = blocks_of p - Suc i" using Suc.hyps(2) by simp
    from Suc.hyps(1) [OF m \<open>end_of p \<le> int (length (cells f1))\<close>, of "bad @ [i * ?n]"] obtain r bad' g where
      "write_block_at p (Suc i * ?n) bs (bad @ [i * ?n]) f1 = Some (r, bad', g)"
      "block_written p (Suc i) bs (bad @ [i * ?n]) f1 r bad' g" by blast
    with block_written_skip [OF this(2) that(1) i that(2)] next_pos show ?thesis by metis
  qed
  show ?case
  proof (cases "usable p f i")
    case False
    then show ?thesis using step fits assms(1) go_on [OF only_bytes_refl] by (simp add: usable_def)
  next
    case True
    obtain ok1 f1 where t1: "try_block (i * ?n) bs f = (ok1, f1)" by fastforce
    obtain ok2 f2 where t2: "try_block (i * ?n) bs f1 = (ok2, f2)" by fastforce
    have in1: "i * ?n + length bs \<le> length (cells f)" using inside assms(3) by simp
    note a = try_block_only [OF t1 in1]
    have in2: "i * ?n + length bs \<le> length (cells f1)" using in1 a(1) by (simp add: only_bytes_def)
    note b = try_block_only [OF t2 in2]
    have e: "i * ?n + length bs = Suc i * ?n" using assms(3) by simp
    have o1: "only_bytes (i * ?n) (Suc i * ?n) f f1" using a(1) e by simp
    have o2: "only_bytes (i * ?n) (Suc i * ?n) f f2" using only_bytes_trans [OF a(1) b(1)] e by simp
    have tr: "truthful f \<longrightarrow> truthful f1" using a(1) by (simp add: only_bytes_def)
    have good: "block_written p i bs bad f 0 bad g"
      if "only_bytes (i * ?n) (Suc i * ?n) f g"
        "truthful f \<longrightarrow> take ?n (drop (i * ?n) (cells g)) = bs \<and> flash_pos g = i * ?n + ?n" for g
      using that True i by (auto simp: block_written_def block_def intro!: exI [of _ i])
    show ?thesis
    proof (cases "ok1 \<or> ok2")
      case ok: True
      have "block_written p i bs bad f 0 bad (if ok1 then f1 else f2)"
        by (rule good) (use ok o1 o2 a(2) b(2) tr assms(3) in auto)
      with ok True step fits assms(1) t1 t2 show ?thesis by (auto simp: usable_def)
    next
      case given_up: False
      obtain er f3 where er: "flash_erase (i * ?n) ?n f2 = (er, f3)" by fastforce
      from flash_erase_only [OF er] next_pos have "only_bytes (i * ?n) (Suc i * ?n) f2 f3" by metis
      from go_on [OF only_bytes_trans [OF o2 this]] a(3) given_up have
        "\<exists>r bad' g. write_block_at p (i * ?n + ?n) bs (bad @ [i * ?n]) f3 = Some (r, bad', g)
          \<and> block_written p i bs bad f r bad' g" by blast
      with given_up True step fits assms(1) t1 t2 er show ?thesis by (auto simp: usable_def)
    qed
  qed
qed

section \<open>Writing data\<close>

text \<open>No block was given up: the ones that were passed over are known to be bad.\<close>

definition none_given_up :: "MtdWriteContext \<Rightarrow> flash \<Rightarrow> bool" where
  "none_given_up ctx f \<longleftrightarrow> (\<forall>b \<in> set (bad_block_offsets ctx). bad_answer f b \<noteq> Good_block)"

text \<open>How many bytes the good blocks hold.\<close>

definition capacity :: "MtdPartition \<Rightarrow> flash \<Rightarrow> nat" where
  "capacity p f = length (readable (block_size p) f 0 (blocks_of p))"

lemma length_readable_only:
  assumes "only_bytes a b f g"
  shows "length (readable n g i j) = length (readable n f i j)"
proof -
  have "length (block n g k) = length (block n f k)" for k using assms by (simp add: block_def only_bytes_def)
  then show ?thesis using assms by (simp add: readable_def length_concat only_bytes_def comp_def)
qed

lemma capacity_only: "only_bytes a b f g \<Longrightarrow> capacity p g = capacity p f"
  using length_readable_only by (simp add: capacity_def)

text \<open>
  The file is at the end of some blocks, and when no block was given up a reader of these blocks gets \<open>S\<close>.
  \<open>q\<close> is the capacity of the device when it works without failures.
\<close>

definition placed :: "nat option \<Rightarrow> MtdPartition \<Rightarrow> MtdWriteContext \<Rightarrow> flash \<Rightarrow> byte list \<Rightarrow> bool" where
  "placed q p ctx f S \<longleftrightarrow> wr_partition ctx = p \<and> block_size p \<noteq> 0 \<and> 0 \<le> end_of p \<and> end_of p \<le> int (length (cells f))
     \<and> truthful f \<and> (\<forall>k. bad_answer f k \<noteq> Bad_unsupported)
     \<and> (\<forall>C. q = Some C \<longrightarrow> flash_events f = [] \<and> none_given_up ctx f \<and> capacity p f = C)
     \<and> (\<exists>i \<le> blocks_of p. flash_pos f = i * block_size p
          \<and> (none_given_up ctx f \<longrightarrow> readable (block_size p) f 0 i = S))"

definition too_long :: "nat option \<Rightarrow> nat \<Rightarrow> bool" where
  "too_long q len \<longleftrightarrow> (\<forall>C. q = Some C \<longrightarrow> C < len)"

lemma too_long_mono: "too_long q k \<Longrightarrow> k \<le> k' \<Longrightarrow> too_long q k'"
  unfolding too_long_def using less_le_trans by blast

lemma write_block_placed:
  assumes "placed q p ctx f S" "length bs = block_size p" "write_block ctx bs f = Some (r, ctx', f')"
  shows "r = 0 \<and> placed q p ctx' f' (S @ bs) \<and> wr_stored ctx' = wr_stored ctx
    \<or> r \<noteq> 0 \<and> too_long q (length S + block_size p)"
proof -
  let ?n = "block_size p"
  from assms(1) obtain i where i: "wr_partition ctx = p" "?n \<noteq> 0" "end_of p \<le> int (length (cells f))" "truthful f"
    "\<forall>k. bad_answer f k \<noteq> Bad_unsupported" "i \<le> blocks_of p" "flash_pos f = i * ?n"
    "none_given_up ctx f \<longrightarrow> readable ?n f 0 i = S" "0 \<le> end_of p"
    "\<forall>C. q = Some C \<longrightarrow> flash_events f = [] \<and> none_given_up ctx f \<and> capacity p f = C" by (auto simp: placed_def)
  from assms(3) i(1,7) obtain bad where w: "write_block_at p (i * ?n) bs (bad_block_offsets ctx) f = Some (r, bad, f')"
    "ctx' = ctx\<lparr>bad_block_offsets := bad\<rparr>" by (auto simp: write_block_def split: bind_splits)
  from write_block_at_spec [OF i(2,3) assms(2), of i "bad_block_offsets ctx"] w(1)
  have spec: "block_written p i bs (bad_block_offsets ctx) f r bad f'" by simp
  show ?thesis
  proof (cases "r = 0")
    case True
    with spec i(4) obtain j where j: "i \<le> j" "bad = bad_block_offsets ctx @ map (\<lambda>k. k * ?n) [i..<j]"
      "only_bytes (i * ?n) (Suc j * ?n) f f'" "j < blocks_of p" "usable p f j" "block ?n f' j = bs"
      "flash_pos f' = Suc j * ?n" "flash_events f = [] \<longrightarrow> (\<forall>k \<in> {i..<j}. \<not> usable p f k)"
      by (auto simp: block_written_def)
    have same: "bad_answer f' = bad_answer f" using j(3) by (simp add: only_bytes_def)
    have "readable ?n f' 0 (Suc j) = S @ bs" if "none_given_up ctx' f'"
    proof -
      have kept: "none_given_up ctx f" "\<forall>k \<in> {i..<j}. bad_answer f' (k * ?n) \<noteq> Good_block"
        using that j(2) w(2) same by (auto simp: none_given_up_def)
      have before: "\<forall>k \<in> {0..<i}. block ?n f' k = block ?n f k"
      proof
        fix k assume "k \<in> {0..<i}"
        then have "(k + 1) * ?n \<le> i * ?n" by (intro mult_le_mono1) simp
        then show "block ?n f' k = block ?n f k" by (intro only_bytes_block [OF j(3)] disjI1)
      qed
      have "bad_answer f' (j * ?n) = Good_block" using j(5) i(5) same by (auto simp: usable_def)
      then have "readable ?n f' j (Suc j) = bs" using j(6) by (simp add: readable_one)
      moreover have "readable ?n f' i j = []" by (rule readable_none [OF kept(2)])
      moreover have "readable ?n f' 0 i = S" using readable_cong [OF same before] i(8) kept(1) by simp
      ultimately show ?thesis
        using readable_split [of 0 i "Suc j" ?n f'] readable_split [of i j "Suc j" ?n f'] j(1) by simp
    qed
    moreover have "end_of p \<le> int (length (cells f'))" "truthful f'" "\<forall>k. bad_answer f' k \<noteq> Bad_unsupported"
      using j(3) i(3,4,5) by (simp_all add: only_bytes_def)
    moreover have "flash_events f' = [] \<and> none_given_up ctx' f' \<and> capacity p f' = C" if "q = Some C" for C
      using i(10) that j(2,3,8) w(2) same capacity_only [OF j(3), of p]
      by (auto simp: none_given_up_def usable_def only_bytes_def)
    ultimately have "placed q p ctx' f' (S @ bs)"
      unfolding placed_def using i(1,2,9) w(2) j(4,7) by (intro conjI exI [of _ "Suc j"]) simp_all
    with w(2) True show ?thesis by simp
  next
    case False
    have "C < length S + ?n" if "q = Some C" for C
    proof -
      from spec False i(6,10) that have "\<forall>k \<in> {i..<blocks_of p}. \<not> usable p f k"
        by (auto simp: block_written_def max_def split: if_splits)
      then have "readable ?n f i (blocks_of p) = []" by (intro readable_none) (auto simp: usable_def)
      with i(6,8,10) that have "C = length S"
        using readable_split [of 0 i "blocks_of p" ?n f] by (simp add: capacity_def)
      with i(2) show ?thesis by simp
    qed
    with False show ?thesis by (simp add: too_long_def)
  qed
qed

lemma write_block_defined:
  assumes "placed q p ctx f S" "length bs = block_size p"
  shows "\<exists>r ctx' f'. write_block ctx bs f = Some (r, ctx', f')"
proof -
  from assms(1) obtain i where i: "wr_partition ctx = p" "block_size p \<noteq> 0" "end_of p \<le> int (length (cells f))"
    "flash_pos f = i * block_size p" by (auto simp: placed_def)
  from write_block_at_spec [OF i(2,3) assms(2), of i "bad_block_offsets ctx"] i(1,4) show ?thesis
    by (auto simp: write_block_def)
qed

lemma write_whole_placed:
  "placed q p ctx f S \<Longrightarrow> \<exists>r ctx' f'. write_whole ctx bs f = Some (r, ctx', f') \<and> wr_stored ctx' = wr_stored ctx
    \<and> (r = None \<longrightarrow> too_long q (length S + length bs))
    \<and> (\<forall>rest. r = Some rest \<longrightarrow> (\<exists>sent. bs = sent @ rest \<and> placed q p ctx' f' (S @ sent)
          \<and> (wr_stored ctx \<noteq> [] \<longrightarrow> sent = []) \<and> (wr_stored ctx = [] \<longrightarrow> length rest < block_size p)))"
proof (induction "length bs" arbitrary: bs ctx f S rule: less_induct)
  case less
  let ?n = "block_size p"
  from less.prems have p: "wr_partition ctx = p" "?n \<noteq> 0" by (auto simp: placed_def)
  note step = write_whole.simps [of ctx bs f, unfolded Let_def p(1)]
  show ?case
  proof (cases "wr_stored ctx = [] \<and> ?n \<le> length bs")
    case False
    with step p(2) less.prems show ?thesis by auto
  next
    case True
    then have len: "length (take ?n bs) = ?n" by simp
    from write_block_defined [OF less.prems len] obtain r ctx1 f1 where
      w: "write_block ctx (take ?n bs) f = Some (r, ctx1, f1)" by blast
    from w have st: "wr_stored ctx1 = wr_stored ctx" by (auto simp: write_block_def split: bind_splits)
    show ?thesis
    proof (cases "r = 0")
      case False
      with write_block_placed [OF less.prems len w] have "too_long q (length S + ?n)" by simp
      then have "too_long q (length S + length bs)" by (rule too_long_mono) (use True in simp)
      with False step True p(2) w st show ?thesis by simp
    next
      case ok: True
      from write_block_placed [OF less.prems len w] ok have pl: "placed q p ctx1 f1 (S @ take ?n bs)" by simp
      have "length (drop ?n bs) < length bs" using True p(2) by auto
      from less.hyps [OF this pl] obtain r' ctx' f' where
        IH: "write_whole ctx1 (drop ?n bs) f1 = Some (r', ctx', f')" "wr_stored ctx' = wr_stored ctx1"
          "r' = None \<longrightarrow> too_long q (length (S @ take ?n bs) + length (drop ?n bs))"
          "\<forall>rest. r' = Some rest \<longrightarrow> (\<exists>sent. drop ?n bs = sent @ rest \<and> placed q p ctx' f' ((S @ take ?n bs) @ sent)
            \<and> (wr_stored ctx1 \<noteq> [] \<longrightarrow> sent = []) \<and> (wr_stored ctx1 = [] \<longrightarrow> length rest < ?n))" by blast
      have "\<exists>sent. bs = sent @ rest \<and> placed q p ctx' f' (S @ sent)" if "r' = Some rest" for rest
      proof -
        from IH(4) that obtain sent where "drop ?n bs = sent @ rest" "placed q p ctx' f' ((S @ take ?n bs) @ sent)" by blast
        then show ?thesis by (intro exI [of _ "take ?n bs @ sent"]) (metis append_assoc append_take_drop_id)
      qed
      with step True p(2) w ok IH st show ?thesis by auto
    qed
  qed
qed

text \<open>A session of writes: what was sent is in the blocks, and the rest in the buffer.\<close>

definition session :: "nat option \<Rightarrow> MtdPartition \<Rightarrow> MtdWriteContext \<Rightarrow> flash \<Rightarrow> byte list \<Rightarrow> bool" where
  "session q p ctx f D \<longleftrightarrow> length (wr_stored ctx) < block_size p \<and> (\<exists>S. placed q p ctx f S \<and> D = S @ wr_stored ctx)"

lemma placed_stored [simp]: "placed q p (ctx\<lparr>wr_stored := x\<rparr>) f S = placed q p ctx f S"
  by (simp add: placed_def none_given_up_def)

lemma flush_full_placed:
  assumes "placed q p ctx f S" "length (wr_stored ctx) \<le> block_size p"
  shows "\<exists>ok ctx' f'. flush_full ctx f = Some (ok, ctx', f')
    \<and> (\<not> ok \<longrightarrow> too_long q (length S + length (wr_stored ctx))) \<and> (ok \<longrightarrow>
    (if length (wr_stored ctx) = block_size p then placed q p ctx' f' (S @ wr_stored ctx) \<and> wr_stored ctx' = []
     else ctx' = ctx \<and> f' = f))"
proof (cases "length (wr_stored ctx) = block_size p")
  case True
  from write_block_defined [OF assms(1) True] obtain r ctx1 f1 where
    w: "write_block ctx (wr_stored ctx) f = Some (r, ctx1, f1)" by blast
  from write_block_placed [OF assms(1) True w] w True assms(1) show ?thesis
    by (auto simp: flush_full_def placed_def [of q p ctx])
qed (use assms in \<open>auto simp: flush_full_def placed_def intro: exI [of _ True]\<close>)

lemma write_round_session:
  assumes "session q p ctx f D" "bs \<noteq> []"
  shows "\<exists>r ctx' f'. write_round ctx bs f = Some (r, ctx', f')
    \<and> (r = None \<longrightarrow> too_long q (length D + length bs)) \<and> (\<forall>rest. r = Some rest \<longrightarrow>
    (\<exists>sent. bs = sent @ rest \<and> session q p ctx' f' (D @ sent)
      \<and> (rest \<noteq> [] \<longrightarrow> wr_stored ctx' = [] \<and> length rest < block_size p)
      \<and> (wr_stored ctx = [] \<and> length bs < block_size p \<longrightarrow> rest = [])))"
proof -
  let ?n = "block_size p"
  from assms(1) obtain S where S: "placed q p ctx f S" "D = S @ wr_stored ctx" "length (wr_stored ctx) < ?n"
    by (auto simp: session_def)
  then have p: "wr_partition ctx = p" "?n \<noteq> 0" by (auto simp: placed_def)
  let ?fill = "wr_stored ctx \<noteq> [] \<or> length bs < ?n"
  define k where "k = (if ?fill then ?n - length (wr_stored ctx) else 0)"
  define c1 where "c1 = ctx\<lparr>wr_stored := wr_stored ctx @ take k bs\<rparr>"
  have first: "(if ?fill then fill_stored ctx bs else (ctx, bs)) = (c1, drop k bs)"
    by (simp add: fill_stored_def c1_def k_def p(1) Let_def)
  have pl: "placed q p c1 f S" using S(1) by (simp add: c1_def)
  have "length (wr_stored c1) \<le> ?n" using S(3) by (auto simp: c1_def k_def)
  from flush_full_placed [OF pl this] obtain ok c2 f2 where fl: "flush_full c1 f = Some (ok, c2, f2)"
    "\<not> ok \<longrightarrow> too_long q (length S + length (wr_stored c1))"
    "ok \<longrightarrow> (if length (wr_stored c1) = ?n then placed q p c2 f2 (S @ wr_stored c1) \<and> wr_stored c2 = []
      else c2 = c1 \<and> f2 = f)" by blast
  show ?thesis
  proof (cases ok)
    case False
    with fl(2) have "too_long q (length S + length (wr_stored c1))" by simp
    then have "too_long q (length D + length bs)" by (rule too_long_mono) (simp add: S(2) c1_def)
    with False first fl(1) show ?thesis by (simp add: write_round_def p(1))
  next
    case True
    obtain S2 where S2: "placed q p c2 f2 S2" "S2 @ wr_stored c2 = S @ wr_stored c1" "length (wr_stored c2) < ?n"
    proof (cases "length (wr_stored c1) = ?n")
      case full: True
      with fl(3) True show thesis using that [of "S @ wr_stored c1"] p(2) by simp
    next
      case False
      with fl(3) True have "c2 = c1" "f2 = f" by auto
      with pl False \<open>length (wr_stored c1) \<le> ?n\<close> show thesis by (intro that [of S]) simp_all
    qed
    from write_whole_placed [OF S2(1), of "drop k bs"] obtain r c3 f3 where
      w: "write_whole c2 (drop k bs) f2 = Some (r, c3, f3)" "wr_stored c3 = wr_stored c2"
      "r = None \<longrightarrow> too_long q (length S2 + length (drop k bs))"
      "\<forall>rest. r = Some rest \<longrightarrow> (\<exists>sent. drop k bs = sent @ rest \<and> placed q p c3 f3 (S2 @ sent)
        \<and> (wr_stored c2 \<noteq> [] \<longrightarrow> sent = []) \<and> (wr_stored c2 = [] \<longrightarrow> length rest < ?n))" by blast
    have run: "write_round ctx bs f = Some (r, c3, f3)"
      using first fl(1) True w(1) by (simp add: write_round_def p(1))
    have fails: "too_long q (length D + length bs)" if "r = None"
    proof -
      have "length S2 + length (wr_stored c2) + length (drop k bs) = length D + length bs"
        using arg_cong [OF S2(2), of length] by (simp add: S(2) c1_def)
      then show ?thesis using w(3) that by (auto intro: too_long_mono)
    qed
    have used: "drop k bs = []" if "wr_stored c2 \<noteq> []"
    proof -
      have "length (wr_stored c1) \<noteq> ?n" using fl(3) True that by auto
      then have "c2 = c1" using fl(3) True by auto
      with that have ?fill by (auto simp: c1_def k_def split: if_splits)
      with \<open>length (wr_stored c1) \<noteq> ?n\<close> S(3) show ?thesis by (auto simp: c1_def k_def split: if_splits)
    qed
    have "\<exists>sent. bs = sent @ rest \<and> session q p c3 f3 (D @ sent) \<and> (rest \<noteq> [] \<longrightarrow> wr_stored c3 = [] \<and> length rest < ?n)
        \<and> (wr_stored ctx = [] \<and> length bs < ?n \<longrightarrow> rest = [])" if "r = Some rest" for rest
    proof -
      from w(4) that obtain sent where s: "drop k bs = sent @ rest" "placed q p c3 f3 (S2 @ sent)"
        "wr_stored c2 \<noteq> [] \<longrightarrow> sent = []" "wr_stored c2 = [] \<longrightarrow> length rest < ?n" by blast
      have all: "bs = (take k bs @ sent) @ rest" using s(1) by (metis append_assoc append_take_drop_id)
      have "D @ take k bs @ sent = S @ wr_stored c1 @ sent" by (simp add: S(2) c1_def)
      also have "\<dots> = (S2 @ sent) @ wr_stored c3" using S2(2) s(3) w(2) by (cases "wr_stored c2 = []") auto
      finally have "session q p c3 f3 (D @ take k bs @ sent)"
        unfolding session_def using s(2) S2(3) w(2) by auto
      moreover have "rest = []" if "wr_stored c2 \<noteq> []" using used [OF that] s(1) by simp
      moreover have "rest = []" if "wr_stored ctx = []" "length bs < ?n"
        using that s(1) by (simp add: k_def)
      ultimately show ?thesis using all w(2) s(4) by (intro exI [of _ "take k bs @ sent"]) auto
    qed
    with run fails show ?thesis by blast
  qed
qed

lemma mtd_write_data_session:
  assumes "session q p ctx f D"
  shows "\<exists>r ctx' f'. mtd_write_data ctx bs f = Some (r, ctx', f') \<and> (r = - 1 \<and> too_long q (length D + length bs)
      \<or> r = int (length bs) \<and> session q p ctx' f' (D @ bs))"
proof (cases "bs = []")
  case False
  from write_round_session [OF assms False] obtain r c1 f1 where r: "write_round ctx bs f = Some (r, c1, f1)"
    "r = None \<longrightarrow> too_long q (length D + length bs)"
    "\<forall>rest. r = Some rest \<longrightarrow> (\<exists>sent. bs = sent @ rest \<and> session q p c1 f1 (D @ sent)
      \<and> (rest \<noteq> [] \<longrightarrow> wr_stored c1 = [] \<and> length rest < block_size p))" by blast
  show ?thesis
  proof (cases r)
    case None
    with r(1,2) False show ?thesis by (simp add: mtd_write_data_def)
  next
    case (Some rest)
    with r(3) obtain sent where s: "bs = sent @ rest" "session q p c1 f1 (D @ sent)"
      "rest \<noteq> [] \<longrightarrow> wr_stored c1 = [] \<and> length rest < block_size p" by blast
    show ?thesis
    proof (cases "rest = []")
      case True
      with s r(1) Some False show ?thesis by (simp add: mtd_write_data_def)
    next
      case more: False
      from write_round_session [OF s(2) more] s(3) more obtain r2 c2 f2 where
        r2: "write_round c1 rest f1 = Some (r2, c2, f2)"
        "r2 = None \<longrightarrow> too_long q (length (D @ sent) + length rest)"
        "\<forall>rest'. r2 = Some rest' \<longrightarrow> (\<exists>sent'. rest = sent' @ rest' \<and> session q p c2 f2 ((D @ sent) @ sent') \<and> rest' = [])"
        by blast
      have "session q p c2 f2 (D @ bs)" if "r2 \<noteq> None"
      proof -
        from that obtain rest' where "r2 = Some rest'" by blast
        with r2(3) obtain sent' where "rest = sent'" "session q p c2 f2 ((D @ sent) @ sent')" by auto
        with s(1) show ?thesis by simp
      qed
      moreover from more obtain x xs where x: "rest = x # xs" by (cases rest) auto
      have "mtd_write_data ctx bs f = Some (if r2 = None then - 1 else int (length bs), c2, f2)"
        using False r(1) Some r2(1) by (simp add: mtd_write_data_def x)
      moreover have "too_long q (length D + length bs)" if "r2 = None" using r2(2) that s(1) by (simp add: add.assoc)
      ultimately show ?thesis by (cases r2) simp_all
    qed
  qed
qed (use assms in \<open>simp add: mtd_write_data_def\<close>)

section \<open>Erasing the rest, and closing\<close>

lemma erase_from_only:
  "erase_from n k pos f = (pos', g) \<Longrightarrow> pos' = pos + k * n \<and> only_bytes pos (pos + k * n) f g \<and> flash_pos g = flash_pos f"
proof (induction k arbitrary: pos f)
  case (Suc k)
  let ?f1 = "if bad_answer f pos = Bad_block then f else snd (flash_erase pos n f)"
  obtain ok e where e: "flash_erase pos n f = (ok, e)" by fastforce
  have f1: "only_bytes pos (pos + n) f ?f1" "flash_pos ?f1 = flash_pos f"
    using flash_erase_only [OF e] e by (auto simp: only_bytes_refl)
  from Suc.prems have "erase_from n k (pos + n) ?f1 = (pos', g)" by simp
  note IH = Suc.IH [OF this]
  have "only_bytes pos (pos + Suc k * n) f ?f1" by (rule only_bytes_mono [OF f1(1)]) simp_all
  moreover have "only_bytes pos (pos + Suc k * n) ?f1 g"
    by (rule only_bytes_mono [of "pos + n" "pos + n + k * n"]) (use IH in simp_all)
  ultimately have "only_bytes pos (pos + Suc k * n) f g" by (rule only_bytes_trans)
  with IH f1(2) show ?case by simp
qed (simp add: only_bytes_refl)

lemma placed_behind:
  assumes "placed q p ctx f S" "only_bytes (flash_pos f) b f g" "flash_pos g = flash_pos f"
  shows "placed q p ctx g S"
proof -
  let ?n = "block_size p"
  from assms(1) obtain i where i: "i \<le> blocks_of p" "flash_pos f = i * ?n"
    "none_given_up ctx f \<longrightarrow> readable ?n f 0 i = S" by (auto simp: placed_def)
  have same: "bad_answer g = bad_answer f" using assms(2) by (simp add: only_bytes_def)
  have "\<forall>k \<in> {0..<i}. block ?n g k = block ?n f k"
  proof
    fix k assume "k \<in> {0..<i}"
    then have "(k + 1) * ?n \<le> i * ?n" by (intro mult_le_mono1) simp
    then show "block ?n g k = block ?n f k" using i(2) by (intro only_bytes_block [OF assms(2)] disjI1) simp
  qed
  from readable_cong [OF same this] i(3) same have "none_given_up ctx g \<longrightarrow> readable ?n g 0 i = S"
    by (simp add: none_given_up_def)
  with assms i(1,2) capacity_only [OF assms(2), of p] show ?thesis
    by (auto simp: placed_def only_bytes_def none_given_up_def)
qed

lemma readable_dvd:
  assumes "block_size p \<noteq> 0" "end_of p \<le> int (length (cells f))" "j \<le> blocks_of p"
  shows "block_size p dvd length (readable (block_size p) f i j)"
proof -
  let ?n = "block_size p"
  have "length (block ?n f k) = ?n" if "k < j" for k
  proof -
    have "int (k * ?n + ?n) \<le> end_of p" using that assms(1,3) block_fits [of p k] by simp
    then have "k * ?n + ?n \<le> length (cells f)" using assms(2) by linarith
    then show ?thesis by (simp add: block_def)
  qed
  then have "length (readable ?n f i j)
      = (\<Sum>k \<leftarrow> filter (\<lambda>k. bad_answer f (k * ?n) = Good_block) [i..<j]. ?n)"
    unfolding readable_def length_concat map_map by (intro arg_cong [of _ _ sum_list] map_cong) auto
  then show ?thesis by (simp add: sum_list_triv)
qed

text \<open>A buffer that cannot be flushed to a working device holds data that does not fit.\<close>

lemma too_long_flush:
  assumes "placed q p ctx f S" "too_long q (length S + block_size p)" "0 < k"
  shows "too_long q (length S + k)"
  unfolding too_long_def
proof (intro allI impI)
  fix C
  assume C: "q = Some C"
  let ?n = "block_size p"
  from assms(1) C obtain i where i: "?n \<noteq> 0" "end_of p \<le> int (length (cells f))" "i \<le> blocks_of p"
    "none_given_up ctx f" "readable ?n f 0 i = S" "capacity p f = C" by (auto simp: placed_def)
  have "?n dvd C" "?n dvd length S"
    using readable_dvd [OF i(1,2,3), of 0] readable_dvd [OF i(1,2) order_refl, of 0] i(5,6)
    by (auto simp: capacity_def)
  then obtain a b where "C = ?n * a" "length S = ?n * b" by (auto simp: dvd_def)
  moreover have "C < length S + ?n" using assms(2) C by (simp add: too_long_def)
  ultimately have "?n * a < ?n * (b + 1)" by simp
  then have "a < b + 1" by (simp only: mult_less_cancel1)
  then have "a \<le> b" by simp
  then have "C \<le> length S" using \<open>C = ?n * a\<close> \<open>length S = ?n * b\<close> by simp
  with assms(3) show "C < length S + k" by simp
qed

lemma total_blocks:
  assumes "placed q p ctx f S"
  shows "0 \<le> sint ((part_size p - word_of_nat (flash_pos f)) div erase_size p)"
proof -
  from assms obtain i where i: "block_size p \<noteq> 0" "0 \<le> end_of p" "i \<le> blocks_of p" "flash_pos f = i * block_size p"
    by (auto simp: placed_def)
  have e: "int (unat (part_size p)) = end_of p"
    using i(2) sint_lt [of "part_size p"] by (simp add: uint_sint take_bit_int_eq_self)
  then have small: "unat (part_size p) < 2 ^ 31" "unat (part_size p) = nat (end_of p)"
  proof -
    have "end_of p < 2147483648" using sint_lt [of "part_size p"] by simp
    with e have "unat (part_size p) < 2147483648" by linarith
    then show "unat (part_size p) < 2 ^ 31" by simp
    from e show "unat (part_size p) = nat (end_of p)" by linarith
  qed
  have pos: "flash_pos f \<le> unat (part_size p)"
    using i(3,4) small(2) by (metis div_times_less_eq_dividend le_trans mult_le_mono1)
  then have "word_of_nat (flash_pos f) \<le> part_size p"
    using mod_less_eq_dividend [of "flash_pos f" "2 ^ 32"]
    by (simp add: word_le_nat_alt unsigned_of_nat take_bit_eq_mod)
  then have "unat (part_size p - word_of_nat (flash_pos f)) \<le> unat (part_size p)"
    by (simp add: unat_sub)
  then have "unat ((part_size p - word_of_nat (flash_pos f)) div erase_size p) < 2 ^ 31"
    using small(1) by (simp add: unat_div) (meson div_le_dividend le_less_trans)
  then have "uint ((part_size p - word_of_nat (flash_pos f)) div erase_size p) < 2 ^ 31"
    by (metis of_nat_less_iff of_nat_numeral of_nat_power uint_nat)
  then have "sint ((part_size p - word_of_nat (flash_pos f)) div erase_size p)
      = uint ((part_size p - word_of_nat (flash_pos f)) div erase_size p)"
    unfolding sint_uint by (intro signed_take_bit_int_eq_self) (simp_all add: order_trans [OF _ uint_ge_0])
  then show ?thesis by simp
qed

lemma mtd_erase_blocks_session:
  assumes "session q p ctx f D"
  shows "\<exists>r ctx' f'. mtd_erase_blocks ctx k f = Some (r, ctx', f')
    \<and> (r = - 1 \<and> k \<le> 0 \<longrightarrow> too_long q (length D))
    \<and> (r \<noteq> - 1 \<longrightarrow> (\<exists>pad. placed q p ctx' f' (D @ pad)) \<and> wr_stored ctx' = [])"
proof -
  let ?n = "block_size p"
  from assms obtain S where S: "placed q p ctx f S" "D = S @ wr_stored ctx" "length (wr_stored ctx) < ?n"
    by (auto simp: session_def)
  then have p: "wr_partition ctx = p" "?n \<noteq> 0" by (auto simp: placed_def)
  let ?pad = "replicate (?n - length (wr_stored ctx)) 0"
  define flush where "flush = (if wr_stored ctx \<noteq> [] then do {
       (r, ctx, f) \<leftarrow> write_block ctx (wr_stored ctx @ ?pad) f;
       Some (if r \<noteq> 0 then (False, ctx, f) else (True, ctx\<lparr>wr_stored := []\<rparr>, f))
     } else Some (True, ctx, f))"
  obtain ok c1 f1 where fl: "flush = Some (ok, c1, f1)"
    "\<not> ok \<longrightarrow> too_long q (length D)"
    "ok \<longrightarrow> (\<exists>pad. placed q p c1 f1 (D @ pad)) \<and> wr_stored c1 = []"
  proof (cases "wr_stored ctx = []")
    case True
    with S have "placed q p ctx f (D @ [])" by simp
    with True show thesis by (intro that [of True ctx f]) (auto simp: flush_def intro: exI [of _ "[]"])
  next
    case False
    have len: "length (wr_stored ctx @ ?pad) = ?n" using S(3) by simp
    from write_block_defined [OF S(1) len] obtain r c f2 where
      w: "write_block ctx (wr_stored ctx @ ?pad) f = Some (r, c, f2)" by blast
    from write_block_placed [OF S(1) len w] have "r = 0 \<Longrightarrow> placed q p c f2 (D @ ?pad)" using S(2) by simp
    moreover have "too_long q (length D)" if "r \<noteq> 0"
      using too_long_flush [OF S(1), of "length (wr_stored ctx)"] write_block_placed [OF S(1) len w] that False S(2)
      by simp
    ultimately show thesis using w False
      by (intro that [of "r = 0" "if r = 0 then c\<lparr>wr_stored := []\<rparr> else c" f2]) (auto simp: flush_def)
  qed
  let ?total = "sint ((part_size p - word_of_nat (flash_pos f1)) div erase_size p)"
  let ?k = "if k < 0 then ?total else k"
  have run: "mtd_erase_blocks ctx k f = (if \<not> ok then Some (- 1, c1, f1)
      else if ?k > ?total then Some (- 1, c1, f1)
      else (case erase_from ?n (nat ?k) (flash_pos f1) f1 of (pos, f) \<Rightarrow> Some (int pos, c1, f)))"
    using p(2) fl(1) by (simp add: mtd_erase_blocks_def p(1) Let_def flush_def [symmetric])
  show ?thesis
  proof (cases "ok \<and> \<not> ?k > ?total")
    case False
    have "ok \<Longrightarrow> 0 \<le> ?total" using fl(3) total_blocks by blast
    with False run fl(2) show ?thesis by (cases ok; cases "k = 0") (auto split: if_splits)
  next
    case True
    obtain pos g where e: "erase_from ?n (nat ?k) (flash_pos f1) f1 = (pos, g)" by fastforce
    from erase_from_only [OF e] fl(3) True have "\<exists>pad. placed q p c1 g (D @ pad)"
      by (meson placed_behind)
    with run True e fl(3) show ?thesis by simp
  qed
qed

lemma mtd_write_close_session:
  assumes "session q p ctx f D"
  shows "\<exists>r ctx' f'. mtd_write_close ctx f = Some (r, ctx', f') \<and> (r = 0 \<and> (\<exists>pad. placed q p ctx' f' (D @ pad))
      \<or> r = - 1 \<and> too_long q (length D))"
proof -
  from mtd_erase_blocks_session [OF assms, of 0] obtain r c1 f1 where
    e: "mtd_erase_blocks ctx 0 f = Some (r, c1, f1)" "r = - 1 \<longrightarrow> too_long q (length D)"
    "r \<noteq> - 1 \<longrightarrow> (\<exists>pad. placed q p c1 f1 (D @ pad))" by auto
  obtain ev f2 where n: "next_event f1 = (ev, f2)" by fastforce
  have "placed q p c1 f2 S" if "placed q p c1 f1 S" for S
    using placed_behind [OF that, of 0 f2] next_event_only [OF n, of "flash_pos f1" 0] by simp
  moreover have "too_long q (length D)" if "r \<noteq> - 1" "ev = Fails"
  proof -
    have "q = None"
      using e(3) that next_event_only [OF n, of 0 0] by (cases q) (auto simp: placed_def)
    then show ?thesis by (simp add: too_long_def)
  qed
  ultimately show ?thesis using e n by (cases "r = - 1") (auto simp: mtd_write_close_def)
qed

section \<open>Reading\<close>

text \<open>Reading a block on a device that works: the next one that is good.\<close>

lemma read_block_at_works:
  assumes "block_size p \<noteq> 0" "end_of p \<le> int (length (cells f))" "flash_events f = []"
  shows "(readable (block_size p) f i (blocks_of p) = [] \<and> (\<exists>q. read_block_at p (i * block_size p) (ecc_failed f) f
        = Some (None, f\<lparr>flash_pos := q\<rparr>)))
    \<or> (\<exists>j < blocks_of p. i \<le> j \<and> readable (block_size p) f i (blocks_of p)
          = block (block_size p) f j @ readable (block_size p) f (Suc j) (blocks_of p)
        \<and> length (block (block_size p) f j) = block_size p
        \<and> read_block_at p (i * block_size p) (ecc_failed f) f
          = Some (Some (block (block_size p) f j), f\<lparr>flash_pos := Suc j * block_size p\<rparr>))"
  using assms(2,3)
proof (induction "blocks_of p - i" arbitrary: i f)
  case 0
  then have "\<not> int (i * block_size p + block_size p) \<le> end_of p" using block_fits [OF assms(1), of i] by simp
  moreover have "f = f\<lparr>flash_pos := flash_pos f\<rparr>" by simp
  ultimately have "read_block_at p (i * block_size p) (ecc_failed f) f = Some (None, f\<lparr>flash_pos := flash_pos f\<rparr>)"
    by (subst read_block_at.simps) (simp add: Let_def)
  moreover have "readable (block_size p) f i (blocks_of p) = []" using 0 by (simp add: readable_def)
  ultimately show ?case by blast
next
  case (Suc m)
  let ?n = "block_size p" and ?N = "blocks_of p"
  have i: "i < ?N" using Suc.hyps(2) by simp
  then have fits: "int (i * ?n + ?n) \<le> end_of p" using block_fits [OF assms(1)] by blast
  then have inside: "i * ?n + ?n \<le> length (cells f)" using Suc.prems by linarith
  let ?f1 = "f\<lparr>flash_pos := i * ?n + ?n\<rparr>"
  have len: "length (block ?n f i) = ?n" using inside by (simp add: block_def)
  have read: "flash_read ?n (f\<lparr>flash_pos := i * ?n\<rparr>) = (Some (block ?n f i), ?f1)"
  proof -
    have "min (length (cells f) - i * ?n) ?n = ?n"
      by (rule min_absorb2) (use inside in linarith)
    with Suc.prems(2) show ?thesis by (simp add: flash_read_def next_event_def Let_def block_def)
  qed
  have quiet: "next_event ?f1 = (Works, ?f1)" using Suc.prems(2) by (simp add: next_event_def)
  note step = read_block_at.simps [of p "i * ?n" "ecc_failed f" f, unfolded Let_def]
  show ?case
  proof (cases "bad_answer f (i * ?n) = Good_block")
    case True
    then have "readable ?n f i ?N = block ?n f i @ readable ?n f (Suc i) ?N"
      using readable_split [of i "Suc i" ?N ?n f] i by (simp add: readable_one)
    moreover have "read_block_at p (i * ?n) (ecc_failed f) f
        = Some (Some (block ?n f i), f\<lparr>flash_pos := Suc i * ?n\<rparr>)"
      using step fits assms(1) read quiet True by (simp add: add.commute)
    ultimately show ?thesis using i len by blast
  next
    case False
    then have r: "readable ?n f i ?N = readable ?n f (Suc i) ?N"
      using readable_split [of i "Suc i" ?N ?n f] i by (simp add: readable_one)
    have go: "read_block_at p (i * ?n) (ecc_failed f) f = read_block_at p (Suc i * ?n) (ecc_failed ?f1) ?f1"
      using step fits assms(1) read quiet False by (simp add: add.commute)
    have m: "m = ?N - Suc i" using Suc.hyps(2) by simp
    have "end_of p \<le> int (length (cells ?f1))" "flash_events ?f1 = []" using Suc.prems by simp_all
    note IH = Suc.hyps(1) [OF m this]
    from IH show ?thesis unfolding go r readable_pos using Suc_leD by fastforce
  qed
qed

definition reading :: "MtdPartition \<Rightarrow> MtdReadContext \<Rightarrow> flash \<Rightarrow> byte list \<Rightarrow> bool" where
  "reading p ctx f rest \<longleftrightarrow> rd_partition ctx = p \<and> block_size p \<noteq> 0 \<and> end_of p \<le> int (length (cells f))
     \<and> flash_events f = [] \<and> consumed ctx \<le> block_size p
     \<and> (consumed ctx < block_size p \<longrightarrow> length (rd_buffer ctx) = block_size p)
     \<and> (\<exists>i. flash_pos f = i * block_size p
          \<and> rest = (if consumed ctx < block_size p then drop (consumed ctx) (rd_buffer ctx) else [])
              @ readable (block_size p) f i (blocks_of p))"

text \<open>A block can be read when something is left, and then as many bytes as a block has are left.\<close>

lemma read_block_reading:
  assumes "reading p ctx f rest" "consumed ctx = block_size p"
  shows "(rest = [] \<and> (\<exists>f'. read_block p f = Some (None, f')))
    \<or> (\<exists>bs rest' f'. read_block p f = Some (Some bs, f') \<and> rest = bs @ rest' \<and> length bs = block_size p
        \<and> reading p ctx f' rest')"
proof -
  let ?n = "block_size p"
  from assms obtain i where i: "rd_partition ctx = p" "?n \<noteq> 0" "end_of p \<le> int (length (cells f))" "flash_events f = []"
    "flash_pos f = i * ?n" "rest = readable ?n f i (blocks_of p)" by (auto simp: reading_def)
  have "next_event f = (Works, f)" using i(4) by (simp add: next_event_def)
  then have rb: "read_block p f = read_block_at p (i * ?n) (ecc_failed f) f" using i(5) by (simp add: read_block_def)
  from read_block_at_works [OF i(2,3,4), of i] show ?thesis
  proof (elim disjE conjE exE)
    fix q
    assume "readable ?n f i (blocks_of p) = []" "read_block_at p (i * ?n) (ecc_failed f) f = Some (None, f\<lparr>flash_pos := q\<rparr>)"
    with rb i(6) show ?thesis by simp
  next
    fix j
    assume j: "readable ?n f i (blocks_of p) = block ?n f j @ readable ?n f (Suc j) (blocks_of p)"
      "length (block ?n f j) = ?n"
      "read_block_at p (i * ?n) (ecc_failed f) f = Some (Some (block ?n f j), f\<lparr>flash_pos := Suc j * ?n\<rparr>)"
    have "reading p ctx (f\<lparr>flash_pos := Suc j * ?n\<rparr>) (readable ?n f (Suc j) (blocks_of p))"
      unfolding reading_def using i(1-4) assms(2) by (auto intro!: exI [of _ "Suc j"])
    with rb j i(6) show ?thesis
      by (intro disjI2 exI [of _ "block ?n f j"] exI [of _ "readable ?n f (Suc j) (blocks_of p)"] exI conjI) simp_all
  qed
qed

lemma read_whole_reading:
  "reading p ctx f rest \<Longrightarrow> consumed ctx = block_size p \<Longrightarrow>
   \<exists>r f'. read_whole p len out f = Some (r, f')
     \<and> (if block_size p * (len div block_size p) \<le> length rest
        then r = Some (len mod block_size p, out @ take (block_size p * (len div block_size p)) rest)
          \<and> reading p ctx f' (drop (block_size p * (len div block_size p)) rest)
        else r = None)"
proof (induction len arbitrary: out f rest rule: less_induct)
  case (less len)
  let ?n = "block_size p"
  from less.prems have n: "?n \<noteq> 0" by (simp add: reading_def)
  note step = read_whole.simps [of p len out f]
  show ?case
  proof (cases "?n \<le> len")
    case False
    with step n less.prems show ?thesis by simp
  next
    case True
    then have q: "len div ?n = Suc ((len - ?n) div ?n)" "len mod ?n = (len - ?n) mod ?n"
      using n by (simp_all add: le_div_geq le_mod_geq)
    from read_block_reading [OF less.prems] show ?thesis
    proof (elim disjE conjE exE)
      fix f' assume "rest = []" "read_block p f = Some (None, f')"
      with step n True q show ?thesis by simp
    next
      fix bs rest' f'
      assume b: "read_block p f = Some (Some bs, f')" "rest = bs @ rest'" "length bs = ?n" "reading p ctx f' rest'"
      have "len - ?n < len" using n True by simp
      from less.IH [OF this b(4) less.prems(2), of "out @ bs"] obtain r f2 where
        IH: "read_whole p (len - ?n) (out @ bs) f' = Some (r, f2)"
          "if ?n * ((len - ?n) div ?n) \<le> length rest'
           then r = Some ((len - ?n) mod ?n, (out @ bs) @ take (?n * ((len - ?n) div ?n)) rest')
             \<and> reading p ctx f2 (drop (?n * ((len - ?n) div ?n)) rest')
           else r = None" by blast
      have "read_whole p len out f = Some (r, f2)" using step n True b(1) IH(1) by simp
      with IH(2) b(2,3) show ?thesis unfolding q by (auto split: if_splits)
    qed
  qed
qed

text \<open>Taking from the buffer.\<close>

lemma read_buffered_reading:
  assumes "reading p ctx f rest"
  obtains k c1 where "read_buffered ctx len out = (c1, len - k, out @ take k rest)" "reading p c1 f (drop k rest)"
    "k \<le> len" "k \<le> length rest" "k < len \<Longrightarrow> consumed c1 = block_size p"
proof -
  let ?n = "block_size p"
  from assms obtain i where i: "rd_partition ctx = p" "?n \<noteq> 0" "consumed ctx \<le> ?n"
    "consumed ctx < ?n \<longrightarrow> length (rd_buffer ctx) = ?n" "flash_pos f = i * ?n"
    "rest = (if consumed ctx < ?n then drop (consumed ctx) (rd_buffer ctx) else []) @ readable ?n f i (blocks_of p)"
    by (auto simp: reading_def)
  define k where "k = min len (?n - consumed ctx)"
  define c1 where "c1 = ctx\<lparr>consumed := consumed ctx + k\<rparr>"
  have front: "take k (drop (consumed ctx) (rd_buffer ctx)) = take k rest"
    using i(3,4,6) by (cases "consumed ctx < ?n") (simp_all add: k_def)
  have "reading p c1 f (drop k rest)"
  proof (cases "consumed ctx < ?n")
    case True
    then have "drop k rest = drop (consumed ctx + k) (rd_buffer ctx) @ readable ?n f i (blocks_of p)"
      using i(4,6) by (simp add: k_def drop_drop add.commute)
    moreover have "drop (consumed ctx + k) (rd_buffer ctx) = []" if "\<not> consumed ctx + k < ?n"
      using that i(4) True by simp
    ultimately show ?thesis using assms(1) True i(5)
      by (auto simp: reading_def c1_def k_def intro!: exI [of _ i])
  next
    case False
    then have "k = 0" using i(3) by (simp add: k_def)
    with assms(1) show ?thesis by (simp add: c1_def)
  qed
  moreover have "read_buffered ctx len out = (c1, len - k, out @ take k rest)"
    using front by (simp add: read_buffered_def k_def c1_def i(1) Let_def)
  moreover have "k \<le> length rest" using i(3,4,6) by (cases "consumed ctx < ?n") (simp_all add: k_def)
  moreover have "k \<le> len" "k < len \<Longrightarrow> consumed c1 = ?n" using i(3) by (auto simp: k_def c1_def)
  ultimately show thesis using that by blast
qed

text \<open>Reading data: what is left is delivered from its front.\<close>

lemma mtd_read_data_reading:
  assumes "reading p ctx f rest" "len \<le> length rest"
  shows "\<exists>ctx' f'. mtd_read_data ctx len f = Some (Some (take len rest), ctx', f') \<and> reading p ctx' f' (drop len rest)"
proof (cases "len = 0")
  case False
  let ?n = "block_size p"
  obtain k c1 where rb: "read_buffered ctx len [] = (c1, len - k, take k rest)" and r1: "reading p c1 f (drop k rest)"
    and kl: "k \<le> len" "k < len \<Longrightarrow> consumed c1 = ?n"
    by (rule read_buffered_reading [OF assms(1), of len "[]"]) auto
  have part: "rd_partition c1 = p" "?n \<noteq> 0" using r1 by (auto simp: reading_def)
  show ?thesis
  proof (cases "len - k = 0")
    case True
    then have k: "k = len" using kl(1) by simp
    show ?thesis
    proof (cases "consumed c1 = ?n")
      case full: True
      from read_whole_reading [OF r1 full, of 0 "take len rest"] obtain f' where
        "read_whole p 0 (take len rest) f = Some (Some (0, take len rest), f')" "reading p c1 f' (drop len rest)"
        using k by auto
      with False rb k full part show ?thesis by (simp add: mtd_read_data_def)
    next
      case left: False
      with False rb k r1 part show ?thesis by (simp add: mtd_read_data_def)
    qed
  next
    case more: False
    then have full: "consumed c1 = ?n" using kl by simp
    let ?m = "len - k"
    let ?w = "?n * (?m div ?n)"
    have w: "?w + ?m mod ?n = ?m" "?w \<le> length (drop k rest)" using assms(2) by (simp_all add: mult_div_mod_eq) (metis
      assms(2) diff_le_mono le_trans times_div_less_eq_dividend)
    from read_whole_reading [OF r1 full, of ?m "take k rest"] w(2) obtain f2 where
      rw: "read_whole p ?m (take k rest) f = Some (Some (?m mod ?n, take k rest @ take ?w (drop k rest)), f2)"
        "reading p c1 f2 (drop ?w (drop k rest))" by auto
    have out2: "take k rest @ take ?w (drop k rest) = take (k + ?w) rest" by (simp add: take_add)
    show ?thesis
    proof (cases "?m mod ?n = 0")
      case True
      then have "k + ?w = len" using w(1) more by simp
      moreover from this have "drop ?w (drop k rest) = drop len rest" by (simp add: drop_drop add.commute)
      then have "reading p c1 f2 (drop len rest)" using rw(2) by simp
      ultimately show ?thesis using False rb full part rw(1) True out2 by (simp add: mtd_read_data_def)
    next
      case tail: False
      have left: "?m mod ?n \<le> length (drop ?w (drop k rest))"
        unfolding length_drop using w(1) assms(2) more by linarith
      with tail have "drop ?w (drop k rest) \<noteq> []" by auto
      with read_block_reading [OF rw(2) full] obtain bs rest' f3 where
        b: "read_block p f2 = Some (Some bs, f3)" "drop ?w (drop k rest) = bs @ rest'" "length bs = ?n"
          "reading p c1 f3 rest'" by blast
      define c3 where "c3 = c1\<lparr>rd_buffer := bs, consumed := ?m mod ?n\<rparr>"
      have short: "?m mod ?n < ?n" using part(2) by simp
      have "reading p c3 f3 (drop (?m mod ?n) (bs @ rest'))"
        using b(3,4) short full by (auto simp: reading_def c3_def)
      moreover have "drop (?m mod ?n) (bs @ rest') = drop len rest"
      proof -
        have "k + ?w + ?m mod ?n = len" using w(1) more by simp
        then have "drop (?m mod ?n) (drop ?w (drop k rest)) = drop len rest"
          by (simp add: drop_drop add.commute add.left_commute)
        with b(2) show ?thesis by simp
      qed
      moreover have "take (k + ?w) rest @ take (?m mod ?n) bs = take len rest"
      proof -
        have "take (?m mod ?n) bs = take (?m mod ?n) (drop (k + ?w) rest)"
        proof -
          have "take (?m mod ?n) (drop ?w (drop k rest)) = take (?m mod ?n) bs" using b(2,3) short by simp
          then show ?thesis by (simp add: drop_drop add.commute)
        qed
        then have "take (k + ?w) rest @ take (?m mod ?n) bs = take (k + ?w + ?m mod ?n) rest"
          by (simp only: take_add [of "k + ?w" "?m mod ?n"])
        also have "k + ?w + ?m mod ?n = len" using w(1) more by simp
        finally show ?thesis .
      qed
      moreover have "read_buffered (c1\<lparr>rd_buffer := bs, consumed := 0\<rparr>) (?m mod ?n) (take (k + ?w) rest)
          = (c3, 0, take (k + ?w) rest @ take (?m mod ?n) bs)"
        using short part(1) by (simp add: read_buffered_def c3_def Let_def)
      ultimately show ?thesis using False rb full part rw(1) tail b(1) out2
        by (simp add: mtd_read_data_def)
    qed
  qed
qed (use assms in \<open>simp add: mtd_read_data_def\<close>)

text \<open>More than what is left cannot be read.\<close>

lemma mtd_read_data_short:
  assumes "reading p ctx f rest" "length rest < len"
  shows "\<exists>ctx' f'. mtd_read_data ctx len f = Some (None, ctx', f')"
proof -
  let ?n = "block_size p"
  obtain k c1 where rb: "read_buffered ctx len [] = (c1, len - k, take k rest)" and r1: "reading p c1 f (drop k rest)"
    and kl: "k \<le> length rest" "k < len \<Longrightarrow> consumed c1 = ?n"
    by (rule read_buffered_reading [OF assms(1), of len "[]"]) auto
  have part: "rd_partition c1 = p" "?n \<noteq> 0" using r1 by (auto simp: reading_def)
  have full: "consumed c1 = ?n" using kl assms(2) by simp
  let ?m = "len - k"
  let ?w = "?n * (?m div ?n)"
  from read_whole_reading [OF r1 full, of ?m "take k rest"] obtain r f2 where
    rw: "read_whole p ?m (take k rest) f = Some (r, f2)"
      "if ?w \<le> length (drop k rest) then r = Some (?m mod ?n, take k rest @ take ?w (drop k rest))
         \<and> reading p c1 f2 (drop ?w (drop k rest)) else r = None" by blast
  show ?thesis
  proof (cases "?w \<le> length (drop k rest)")
    case False
    with rw rb full part assms(2) show ?thesis by (auto simp: mtd_read_data_def)
  next
    case True
    with rw(2) have r2: "r = Some (?m mod ?n, take k rest @ take ?w (drop k rest))"
      "reading p c1 f2 (drop ?w (drop k rest))" by auto
    have eq: "?w + ?m mod ?n = ?m" by simp
    have less: "length (drop ?w (drop k rest)) < ?m mod ?n"
      unfolding length_drop using eq True [unfolded length_drop] assms(2) kl(1) by linarith
    have short: "?m mod ?n < ?n" using part(2) by simp
    from read_block_reading [OF r2(2) full] obtain f3 where "read_block p f2 = Some (None, f3)"
    proof (elim disjE conjE exE)
      fix bs rest' f'
      assume "drop ?w (drop k rest) = bs @ rest'" "length bs = ?n"
      from arg_cong [OF this(1), of length] this(2) less short show thesis unfolding length_append by linarith
    qed
    with r2(1) rw(1) rb full part less assms(2) show ?thesis by (auto simp: mtd_read_data_def)
  qed
qed

end
