(* ===== verification/MtdSessions.thy ===== *)
theory MtdSessions
  imports MtdLaws "HOL-Library.Sublist"
begin

text \<open>
  Sessions on a flash partition from opening to closing, and the commands that restore and back up a
  partition: what was written comes back, and a device that works loses nothing.
\<close>

section \<open>From opening to closing\<close>

text \<open>What the laws ask of a partition and its device.\<close>

definition flash_fine :: "MtdPartition \<Rightarrow> flash \<Rightarrow> bool" where
  "flash_fine p f \<longleftrightarrow> 0 < sint (erase_size p) \<and> 0 \<le> end_of p \<and> end_of p \<le> int (length (cells f)) \<and> truthful f
     \<and> (\<forall>k. bad_answer f k \<noteq> Bad_unsupported)"

definition quiet :: "MtdPartition \<Rightarrow> flash \<Rightarrow> nat option" where
  "quiet p f = (if flash_events f = [] then Some (capacity p f) else None)"

lemma block_size_pos: "flash_fine p f \<Longrightarrow> block_size p \<noteq> 0"
  by (cases "erase_size p = 0") (auto simp: flash_fine_def unat_eq_zero)

lemma open_session:
  assumes "mtd_write_partition p f = (Some ctx, g)" "flash_fine p f"
  shows "session (quiet p f) p ctx g []"
proof -
  obtain e f1 where e: "next_event f = (e, f1)" by fastforce
  note n = next_event_only [OF e, of 0 0]
  have g: "ctx = \<lparr>wr_partition = p, wr_stored = [], bad_block_offsets = []\<rparr>" "g = f1\<lparr>flash_pos := 0\<rparr>"
    using assms(1) e by (auto simp: mtd_write_partition_def split: if_splits)
  have cap: "capacity p g = capacity p f" using capacity_only [of 0 0 f1 g p] capacity_only [of 0 0 f f1 p] n g(2)
    by (simp add: only_bytes_refl)
  have "placed (quiet p f) p ctx g []"
    unfolding placed_def using assms(2) block_size_pos [OF assms(2)] n g cap
    by (auto simp: flash_fine_def quiet_def none_given_up_def only_bytes_def readable_def truthful_def)
  then show ?thesis using g(1) block_size_pos [OF assms(2)] by (simp add: session_def)
qed

lemma restore_loop_session:
  "session q p ctx f D \<Longrightarrow> \<exists>ok ctx' f'. restore_loop ctx bss f = Some (ok, ctx', f')
    \<and> (if ok then session q p ctx' f' (D @ concat bss) else too_long q (length D + length (concat bss)))"
proof (induction bss arbitrary: ctx f D)
  case (Cons bs bss)
  from mtd_write_data_session [OF Cons.prems, of bs] obtain r c1 f1 where
    r: "mtd_write_data ctx bs f = Some (r, c1, f1)"
      "r = - 1 \<and> too_long q (length D + length bs) \<or> r = int (length bs) \<and> session q p c1 f1 (D @ bs)" by blast
  show ?case
  proof (cases "r = int (length bs)")
    case True
    with r(2) have "session q p c1 f1 (D @ bs)" by auto
    from Cons.IH [OF this] obtain ok c2 f2 where "restore_loop c1 bss f1 = Some (ok, c2, f2)"
      "if ok then session q p c2 f2 ((D @ bs) @ concat bss) else too_long q (length (D @ bs) + length (concat bss))"
      by blast
    with True r(1) show ?thesis
      by (intro exI [of _ ok] exI [of _ c2] exI [of _ f2]) (simp add: add.assoc split: if_splits)
  next
    case False
    with r have "too_long q (length D + length bs)" by auto
    then have "too_long q (length D + length (concat (bs # bss)))" by (rule too_long_mono) simp
    with False r(1) show ?thesis by (intro exI [of _ False] exI [of _ c1] exI [of _ f1]) simp
  qed
qed (auto intro: exI [of _ True])

text \<open>What was placed is at the front of what a reader finds.\<close>

lemma placed_front:
  assumes "placed q p ctx f S" "none_given_up ctx f"
  shows "prefix S (readable (block_size p) f 0 (blocks_of p))"
proof -
  from assms obtain i where "i \<le> blocks_of p" "readable (block_size p) f 0 i = S" by (auto simp: placed_def)
  then show ?thesis using readable_split [of 0 i "blocks_of p" "block_size p" f] by simp
qed

lemma placed_session: "placed q p ctx f S \<Longrightarrow> wr_stored ctx = [] \<Longrightarrow> session q p ctx f S"
  by (auto simp: session_def placed_def)

text \<open>Erasing the rest and closing on a device that works.\<close>

lemma finish_quiet:
  assumes "session (Some C) p ctx f D" "length D \<le> C"
  obtains pos c1 f1 c2 f2 where "mtd_erase_blocks ctx (- 1) f = Some (pos, c1, f1)"
    "mtd_write_close c1 f1 = Some (0, c2, f2)" "\<exists>pad. placed (Some C) p c2 f2 (D @ pad)"
proof -
  from mtd_erase_blocks_session [OF assms(1), of "- 1"] obtain pos c1 f1 where
    e: "mtd_erase_blocks ctx (- 1) f = Some (pos, c1, f1)" "pos = - 1 \<longrightarrow> too_long (Some C) (length D)"
      "pos \<noteq> - 1 \<longrightarrow> (\<exists>pad. placed (Some C) p c1 f1 (D @ pad)) \<and> wr_stored c1 = []" by auto
  from e(2) assms(2) have "pos \<noteq> - 1" by (auto simp: too_long_def)
  with e(3) obtain pad where pad: "placed (Some C) p c1 f1 (D @ pad)" "wr_stored c1 = []" by blast
  from pad(1) have fits: "length (D @ pad) \<le> C"
    using prefix_length_le [OF placed_front [OF pad(1)]] by (simp add: placed_def capacity_def)
  from mtd_write_close_session [OF placed_session [OF pad]] obtain r c2 f2 where
    c: "mtd_write_close c1 f1 = Some (r, c2, f2)"
      "r = 0 \<and> (\<exists>pad'. placed (Some C) p c2 f2 ((D @ pad) @ pad')) \<or> r = - 1 \<and> too_long (Some C) (length (D @ pad))"
    by blast
  from c(2) fits obtain pad' where "r = 0" "placed (Some C) p c2 f2 (D @ pad @ pad')" by (auto simp: too_long_def)
  with e(1) c(1) that show thesis by blast
qed

lemma open_reading:
  assumes "flash_fine p f" "flash_events f = []"
  shows "\<exists>ctx. mtd_read_partition p f = (Some ctx, f\<lparr>flash_pos := 0\<rparr>)
    \<and> reading p ctx (f\<lparr>flash_pos := 0\<rparr>) (readable (block_size p) f 0 (blocks_of p))"
proof -
  let ?ctx = "\<lparr>rd_partition = p, rd_buffer = [], consumed = block_size p\<rparr>"
  have "next_event f = (Works, f)" using assms(2) by (simp add: next_event_def)
  then have "mtd_read_partition p f = (Some ?ctx, f\<lparr>flash_pos := 0\<rparr>)"
    using assms(1) by (simp add: mtd_read_partition_def flash_fine_def)
  moreover have "reading p ?ctx (f\<lparr>flash_pos := 0\<rparr>) (readable (block_size p) f 0 (blocks_of p))"
    using assms block_size_pos [OF assms(1)] by (simp add: reading_def flash_fine_def)
  ultimately show ?thesis by blast
qed

lemma placed_fine:
  "placed q p ctx f S \<Longrightarrow> 0 < sint (erase_size p) \<Longrightarrow> flash_fine p f"
  by (simp add: placed_def flash_fine_def)


section \<open>Restoring and backing up\<close>

text \<open>
  A second scan of the same text finds the same partition: entries that are not on a line of the text are
  not valid after either scan.
\<close>

definition same_valid :: "MtdPartition list \<Rightarrow> MtdPartition list \<Rightarrow> bool" where
  "same_valid ps qs \<longleftrightarrow> list_all2 (\<lambda>p q. p = q \<or> device_index p < 0 \<and> device_index q < 0) ps qs"

lemma same_valid_find:
  "same_valid ps qs \<Longrightarrow> find (\<lambda>p. device_index p \<ge> 0 \<and> part_name p = Some name) ps
    = find (\<lambda>p. device_index p \<ge> 0 \<and> part_name p = Some name) qs"
  unfolding same_valid_def by (induction rule: list_all2_induct) auto

lemma same_valid_cleared:
  "length ps = length qs \<Longrightarrow> same_valid (map (\<lambda>p. p\<lparr>part_name := None, device_index := - 1\<rparr>) ps)
    (map (\<lambda>p. p\<lparr>part_name := None, device_index := - 1\<rparr>) qs)"
  by (simp add: same_valid_def list_all2_conv_all_nth)

lemma scan_mtd_lines_same:
  "same_valid ps qs \<Longrightarrow> scan_mtd_lines bufp ps n = Some st \<Longrightarrow>
   \<exists>st' ps' qs'. scan_mtd_lines bufp qs n = Some st' \<and> partition_count st' = partition_count st
     \<and> partitions st = Some ps' \<and> partitions st' = Some qs' \<and> same_valid ps' qs' \<and> length ps' = length ps"
proof (induction bufp arbitrary: ps qs n rule: measure_induct_rule [of length])
  case (less bufp)
  have len: "length ps = length qs" using less.prems(1) by (simp add: same_valid_def list_all2_lengthD)
  note step = scan_mtd_lines.simps [of bufp]
  let ?rest = "drop 1 (dropWhile (\<lambda>c. c \<noteq> CHR 0x0A) bufp)"
  show ?case
  proof (cases "bufp = []")
    case True
    with less.prems show ?thesis by (auto simp: scan_mtd_lines.simps [of "[]"])
  next
    case False
    have "length ?rest < length bufp" by (rule rest_shorter [OF False])
    note IH = less.IH [OF this]
    show ?thesis
    proof (cases "sscanf_mtd bufp")
      case None
      with less.prems False show ?thesis using IH [of ps qs n] by (simp add: step Let_def del: drop_Suc)
    next
      case (Some r)
      obtain num sz es name where r: "r = (num, sz, es, name)" by (cases r)
      let ?e = "\<lparr>device_index = num, part_size = sz, erase_size = es, part_name = Some name\<rparr>"
      have ok: "0 \<le> num \<and> nat num < length ps"
        using less.prems(2) False Some r by (auto simp: step Let_def split: if_splits)
      have "same_valid (ps[nat num := ?e]) (qs[nat num := ?e])"
        using less.prems(1) by (simp add: same_valid_def list_all2_update_cong)
      from IH [OF this, of "n + 1"] less.prems(2) False Some r ok len show ?thesis
        by (simp add: step Let_def del: drop_Suc)
    qed
  qed
qed

lemma scan_twice:
  assumes "mtd_scan_partitions t st = Some (n, st1)"
    and "find (\<lambda>p. device_index p \<ge> 0 \<and> part_name p = Some name) (the (partitions st1)) = Some p" "n > 0"
  shows "\<exists>st2. mtd_scan_partitions t st1 = Some (n, st2) \<and> mtd_find_partition_by_name name st2 = Some p"
proof -
  obtain tx where t: "t = Some tx" using assms(1,3) by (cases t) (auto simp: mtd_scan_partitions_def)
  let ?clear = "map (\<lambda>p. p\<lparr>part_name := None, device_index := - 1\<rparr>)"
  let ?ps = "case partitions st of None \<Rightarrow> replicate 32 no_partition | Some ps \<Rightarrow> ps"
  have s1: "scan_mtd_lines (take 2047 tx) (?clear ?ps) 0 = Some st1" "n = partition_count st1"
    using assms(1) by (auto simp: mtd_scan_partitions_def t Let_def split: bind_splits)
  from scan_mtd_lines_same [OF same_valid_cleared [OF refl, of ?ps] s1(1)] obtain ps1 where
    ps1: "partitions st1 = Some ps1" "length ps1 = length ?ps" by auto
  from scan_mtd_lines_same [OF same_valid_cleared [OF ps1(2) [symmetric]] s1(1)] obtain st2 ps2 where
    s2: "scan_mtd_lines (take 2047 tx) (?clear ps1) 0 = Some st2" "partition_count st2 = partition_count st1"
      "partitions st2 = Some ps2" "same_valid ps1 ps2" using ps1(1) by auto
  from s2 s1(2) ps1(1) have "mtd_scan_partitions t st1 = Some (n, st2)"
    by (simp add: mtd_scan_partitions_def t)
  moreover have "mtd_find_partition_by_name name st2 = Some p"
    using same_valid_find [OF s2(4), of name] assms(2) ps1(1) s2(3) by (simp add: mtd_find_partition_by_name_def)
  ultimately show ?thesis by blast
qed

lemma open_again:
  assumes "open_partition name sys = Some (Some p, sys1)"
  shows "\<exists>sys2. open_partition name (put_device p f sys1) = Some (Some p, sys2)
    \<and> mtd_device sys2 (device_index p) = f"
proof -
  from assms obtain n st where s: "mtd_scan_partitions (proc_mtd sys) (mtd_table sys) = Some (n, st)" "n > 0"
    "mtd_find_partition_by_name name st = Some p" "sys1 = sys\<lparr>mtd_table := st\<rparr>"
    by (auto simp: open_partition_def split: bind_splits if_splits)
  from s(3) have "find (\<lambda>p. device_index p \<ge> 0 \<and> part_name p = Some name) (the (partitions st)) = Some p"
    by (auto simp: mtd_find_partition_by_name_def split: option.splits)
  from scan_twice [OF s(1) this s(2)] s(2,4) show ?thesis
    by (auto simp: open_partition_def put_device_def)
qed

text \<open>On a device that works a backup is what a reader finds, in pieces of \<open>BLOCK_SIZE\<close>; a rest that is shorter is lost.\<close>

lemma backup_loop_reads:
  "reading p ctx f rest \<Longrightarrow> \<exists>f'. backup_loop ctx [] out f
    = Some (Some (out @ take (BLOCK_SIZE * (length rest div BLOCK_SIZE)) rest), [], f')"
proof (induction "length rest" arbitrary: ctx f rest out rule: less_induct)
  case less
  have pos: "0 < BLOCK_SIZE" by (simp add: BLOCK_SIZE_def)
  show ?case
  proof (cases "BLOCK_SIZE \<le> length rest")
    case False
    from mtd_read_data_short [OF less.prems, of BLOCK_SIZE] False obtain c1 f1 where
      "mtd_read_data ctx BLOCK_SIZE f = Some (None, c1, f1)" by auto
    with False show ?thesis by (subst backup_loop.simps) simp
  next
    case True
    from mtd_read_data_reading [OF less.prems True] obtain c1 f1 where
      r: "mtd_read_data ctx BLOCK_SIZE f = Some (Some (take BLOCK_SIZE rest), c1, f1)"
        "reading p c1 f1 (drop BLOCK_SIZE rest)" by blast
    have "length (drop BLOCK_SIZE rest) < length rest" using True pos by simp
    from less.hyps [OF this r(2), of "out @ take BLOCK_SIZE rest"] obtain f' where
      IH: "backup_loop c1 [] (out @ take BLOCK_SIZE rest) f1 = Some (Some ((out @ take BLOCK_SIZE rest)
        @ take (BLOCK_SIZE * (length (drop BLOCK_SIZE rest) div BLOCK_SIZE)) (drop BLOCK_SIZE rest)), [], f')" by blast
    have "length rest div BLOCK_SIZE = Suc (length (drop BLOCK_SIZE rest) div BLOCK_SIZE)"
      using True pos by (simp add: le_div_geq)
    then have "take BLOCK_SIZE rest @ take (BLOCK_SIZE * (length (drop BLOCK_SIZE rest) div BLOCK_SIZE)) (drop BLOCK_SIZE rest)
        = take (BLOCK_SIZE * (length rest div BLOCK_SIZE)) rest"
      by (simp add: take_add [symmetric])
    with IH r(1) show ?thesis by (subst backup_loop.simps) simp
  qed
qed


section \<open>A small device\<close>

text \<open>Three blocks of two bytes, the first of them bad; the first attempt to erase a block fails.\<close>

definition small_part :: MtdPartition where
  "small_part = \<lparr>device_index = 0, part_size = 6, erase_size = 2, part_name = Some ''misc''\<rparr>"

definition small_flash :: "byte list \<Rightarrow> nat \<Rightarrow> flash_event list \<Rightarrow> flash" where
  "small_flash bs pos es = \<lparr>cells = bs, flash_pos = pos, ecc_failed = 0,
     bad_answer = (\<lambda>p. if p = 0 then Bad_block else Good_block), flash_events = es\<rparr>"

lemma small_fine: "flash_fine small_part (small_flash [0, 0, 0, 0, 0, 0] 0 [Works, Fails, Works])"
  by (simp add: flash_fine_def small_part_def small_flash_def truthful_def)

definition small_ctx :: "byte list \<Rightarrow> nat list \<Rightarrow> MtdWriteContext" where
  "small_ctx bs bad = \<lparr>wr_partition = small_part, wr_stored = bs, bad_block_offsets = bad\<rparr>"

lemmas device_defs = small_part_def small_flash_def try_block_def flash_erase_def flash_write_def flash_read_def
  next_event_def put_cells_def Let_def

lemma small_blocks:
  "write_block_at small_part 0 [1, 2] [] (small_flash [0, 0, 0, 0, 0, 0] 0 [Fails, Works])
    = Some (0, [0], small_flash [0, 0, 1, 2, 0, 0] 4 [])"
  "write_block_at small_part 4 [3, 0] [0] (small_flash [0, 0, 1, 2, 0, 0] 4 [])
    = Some (0, [0], small_flash [0, 0, 1, 2, 3, 0] 6 [])"
  by (simp_all add: write_block_at.simps device_defs)

lemma small_parts: "block_size small_part = 2" "flash_pos (small_flash bs k es) = k"
  "wr_partition (small_ctx bs bad) = small_part" "wr_stored (small_ctx bs bad) = bs"
  "bad_block_offsets (small_ctx bs bad) = bad"
  "(small_ctx bs bad)\<lparr>bad_block_offsets := bad'\<rparr> = small_ctx bs bad'"
  "(small_ctx bs bad)\<lparr>wr_stored := bs'\<rparr> = small_ctx bs' bad"
  by (simp_all add: small_part_def small_flash_def small_ctx_def)

lemma small_restore:
  "mtd_write_partition small_part (small_flash [0, 0, 0, 0, 0, 0] 0 [Works, Fails, Works])
    = (Some (small_ctx [] []), small_flash [0, 0, 0, 0, 0, 0] 0 [Fails, Works])"
  "restore_loop (small_ctx [] []) [[1, 2, 3]] (small_flash [0, 0, 0, 0, 0, 0] 0 [Fails, Works])
    = Some (True, small_ctx [3] [0], small_flash [0, 0, 1, 2, 0, 0] 4 [])"
  "mtd_write_close (small_ctx [3] [0]) (small_flash [0, 0, 1, 2, 0, 0] 4 [])
    = Some (0, small_ctx [] [0], small_flash [0, 0, 1, 2, 3, 0] 6 [])"
proof -
  show "mtd_write_partition small_part (small_flash [0, 0, 0, 0, 0, 0] 0 [Works, Fails, Works])
    = (Some (small_ctx [] []), small_flash [0, 0, 0, 0, 0, 0] 0 [Fails, Works])"
    by (simp add: mtd_write_partition_def small_ctx_def device_defs)
  show "restore_loop (small_ctx [] []) [[1, 2, 3]] (small_flash [0, 0, 0, 0, 0, 0] 0 [Fails, Works])
    = Some (True, small_ctx [3] [0], small_flash [0, 0, 1, 2, 0, 0] 4 [])"
    by (simp add: mtd_write_data_def write_round_def flush_full_def fill_stored_def write_block_def
        write_whole.simps small_blocks small_parts Let_def)
  show "mtd_write_close (small_ctx [3] [0]) (small_flash [0, 0, 1, 2, 0, 0] 4 [])
    = Some (0, small_ctx [] [0], small_flash [0, 0, 1, 2, 3, 0] 6 [])"
    by (simp add: mtd_write_close_def mtd_erase_blocks_def write_block_def small_blocks small_parts Let_def)
      (simp add: device_defs)
qed


text \<open>Three blocks of 2048 bytes, the second of them bad, found in the text of \<open>/proc/mtd\<close>.\<close>

definition boot_flash :: flash where
  "boot_flash = \<lparr>cells = replicate 6144 0xFF, flash_pos = 0, ecc_failed = 0,
     bad_answer = (\<lambda>p. if p = 2048 then Bad_block else Good_block), flash_events = []\<rparr>"

definition boot_head :: string where
  "boot_head = ''dev:    size   erasesize  name''"

definition boot_line :: string where
  "boot_line = ''mtd0: 00001800 00000800 '' @ [CHR 0x22] @ ''boot'' @ [CHR 0x22]"

definition boot_text :: string where
  "boot_text = boot_head @ [CHR 0x0A] @ boot_line"

definition boot_system :: mtd_system where
  "boot_system = \<lparr>mtd_table = mtd_start, proc_mtd = Some boot_text, mtd_device = (\<lambda>_. boot_flash)\<rparr>"

definition boot_part :: MtdPartition where
  "boot_part = \<lparr>device_index = 0, part_size = 6144, erase_size = 2048, part_name = Some ''boot''\<rparr>"

definition boot_table :: MtdState where
  "boot_table = \<lparr>partitions = Some (boot_part # replicate 31 (no_partition\<lparr>device_index := - 1\<rparr>)), partition_count = 1\<rparr>"

lemmas sscanf_defs = scan_dec_def strtol10_def isspace_def isdigit_def digits_val_def digit_val_def clamp_long_def
  LONG_MIN_def LONG_MAX_def scan_hex_def is_xdigit_def xdigit_def Let_def scan_lit_def scan_quoted_def sscanf_mtd_def

lemma boot_sscanf: "sscanf_mtd boot_text = None" "sscanf_mtd boot_line = Some (0, 0x1800, 0x800, ''boot'')"
  by (simp_all add: sscanf_defs boot_text_def boot_head_def boot_line_def)

lemma boot_lines: "boot_text \<noteq> []" "boot_line \<noteq> []" "take 2047 boot_text = boot_text"
  "drop 1 (dropWhile (\<lambda>c. c \<noteq> CHR 0x0A) boot_text) = boot_line"
  "drop 1 (dropWhile (\<lambda>c. c \<noteq> CHR 0x0A) boot_line) = []"
  by (simp_all add: boot_text_def boot_head_def boot_line_def)

lemma boot_scan: "mtd_scan_partitions (Some boot_text) mtd_start = Some (1, boot_table)"
proof -
  define q where "q = no_partition\<lparr>part_name := None, device_index := - 1\<rparr>"
  have q: "q = no_partition\<lparr>device_index := - 1\<rparr>" by (simp add: q_def no_partition_def)
  have "replicate 32 q = q # replicate 31 q" by (simp add: numeral_eq_Suc)
  then have "scan_mtd_lines boot_text (replicate 32 q) 0
      = Some \<lparr>partitions = Some (boot_part # replicate 31 q), partition_count = 1\<rparr>"
    by (simp add: scan_mtd_lines.simps [of boot_text] scan_mtd_lines.simps [of boot_line]
      scan_mtd_lines.simps [of "[]"] boot_lines boot_lines [unfolded One_nat_def]
      boot_sscanf Let_def boot_part_def del: drop_Suc replicate_Suc)
  then show ?thesis
    by (simp add: mtd_scan_partitions_def mtd_start_def boot_lines(3) boot_table_def map_replicate q_def [symmetric]
      flip: q)
qed

lemma boot_found: "open_partition ''boot'' boot_system = Some (Some boot_part, boot_system\<lparr>mtd_table := boot_table\<rparr>)"
  by (simp add: open_partition_def boot_system_def boot_scan)
    (simp add: mtd_find_partition_by_name_def boot_table_def boot_part_def)

lemma boot_flash_parts: "cells boot_flash = replicate 6144 0xFF" "flash_pos boot_flash = 0"
  "ecc_failed boot_flash = 0" "flash_events boot_flash = []"
  "bad_answer boot_flash q = (if q = 2048 then Bad_block else Good_block)"
  unfolding boot_flash_def flash.select_convs by (rule refl)+

lemma boot_length: "length (cells boot_flash) = 6144"
  unfolding boot_flash_parts by (rule length_replicate)

lemma boot_block: "k * 2048 + 2048 \<le> 6144 \<Longrightarrow> length (block 2048 boot_flash k) = 2048"
  unfolding block_def length_take length_drop boot_length by linarith

lemma boot_fine: "flash_fine boot_part boot_flash" "capacity boot_part boot_flash = 4096"
proof -
  show "flash_fine boot_part boot_flash"
    by (simp add: flash_fine_def boot_part_def boot_length boot_flash_parts(2-5) truthful_def)
  have parts: "block_size boot_part = 2048" "nat (end_of boot_part) div 2048 = 3" by (simp_all add: boot_part_def)
  have "[0..<3] = [0, 1, 2 :: nat]" by (simp add: upt_rec)
  then have "readable 2048 boot_flash 0 3 = block 2048 boot_flash 0 @ block 2048 boot_flash 2"
    by (simp add: readable_def boot_flash_parts(5))
  then show "capacity boot_part boot_flash = 4096" by (simp add: capacity_def parts boot_block)
qed


end
