(* ===== verification/Spec2Isabelle.thy ===== *)
theory Spec2Isabelle
  imports Edify_Builtins Edify_Table HashOps Zip BsDiff ImgPatch Retouch World LoadSave FreeCache
    PartitionWrite SinkLaws ApplyPatch ApplyPartition BsDiffFile ZipExtract Mounts UpdaterMain MtdSessions
begin

text \<open>
  A verification library for the update path of the recovery: the program \<open>updater\<close> that an update package
  carries, from opening the package to the last patched file.

  \<^bold>\<open>The program.\<close>  \<open>updater/updater.c\<close> opens the package as a zip archive (\<open>minzip\<close>), reads the script of the
  update, parses it (\<open>edify\<close>) and evaluates it.  The functions a script calls (\<open>updater/install.c\<close>) mount and
  format partitions (\<open>mtdutils\<close>), extract files (\<open>minzip\<close>), set links and permissions, and patch files and
  partitions (\<open>applypatch\<close>): a patch is a binary difference (\<open>bsdiff\<close>, \<open>bspatch\<close>) or a sequence of chunks
  (\<open>imgpatch\<close>); libraries whose addresses were randomised are masked before their digest is compared
  (\<open>minelf\<close>); and space in the cache is made when it is short (\<open>freecache\<close>).

  \<^bold>\<open>Conventions.\<close>  A function that the C text can take into undefined behaviour, or into a loop without an end,
  returns an \<open>option\<close>, and \<open>None\<close> is that outcome (type \<open>ub\<close> of MR_Prelude); a NULL that the program
  handles is an inner \<open>option\<close>, and an error that it reports is a constructor or a negative number, as in the
  code.  Effects are explicit: the record \<open>world\<close> (World) holds files, block devices and flash partitions,
  and a \<open>tape\<close> says what the next system calls do (fail, be interrupted, transfer a part, report space); a
  theorem for all worlds holds for all behaviours of the system.  Its \<open>history\<close> records the files after each
  change, so a statement about all its elements is a statement about every moment at which power can fail.
  Machine integers are words of their width where they can wrap (sizes and offsets of \<open>minzip\<close>, addresses of
  \<open>minelf\<close>, byte counts of scripts), and \<open>int\<close> or \<open>nat\<close> where a bound that is stated keeps them small.

  \<^bold>\<open>The theories, in the order of their imports.\<close>
  \<^item> MR_Prelude: bytes, C strings, \<open>strcmp\<close>, \<open>strtok\<close>, \<open>strtol\<close>, \<open>memcmp\<close>, decimal printing, array accesses.
  \<^item> Edify (\<open>edify/expr.c\<close>, \<open>expr.h\<close>): values, state, the evaluation of expressions, the readers of arguments and
    the built-in functions.  The locale \<open>edify_functions\<close> is the contract between the interpreter and the
    functions: a call whose number of arguments is right is defined, leaves the script alone and explains a
    NULL.  Edify_Builtins interprets it for the built-in functions and gives the pure expressions a
    denotation; Edify_Table is the function table with \<open>RegisterFunction\<close>, \<open>FinishRegistration\<close> and the
    binary search of \<open>FindFunction\<close>, which refines a map.
  \<^item> MinzipHash (\<open>minzip/Hash.c\<close>): open addressing with tombstones; HashRefine has its invariant \<open>table_ok\<close> and
    abstraction \<open>table_map\<close>, HashOps the refinement of every operation, sequences of operations, and the
    bound under which a table does not grow.
  \<^item> Bits (\<open>minzip/Bits.h\<close>, \<open>applypatch/utils.c\<close>): readers and writers of little and big endian fields.
  \<^item> Zip (\<open>minzip/Zip.c\<close>, opening): the scan of the central directory in mapped memory, entry by entry, with the
    insertion into the sorted array and into the hash table, and the lookup by name.  ZipContents streams the
    contents of an entry (stored or deflated) to a function, ZipReaders states what the four readers deliver:
    the locale of a process function is interpreted for copying, buffering, writing and the checksum.  ZipEnds
    shows that these loops end.
  \<^item> BsPatch (\<open>applypatch/bspatch.c\<close>), BsDiff (the search loop of \<open>applypatch/bsdiff.c\<close>), ImgPatch
    (\<open>applypatch/imgpatch.c\<close>), Retouch (\<open>minelf/Retouch.c\<close>).
  \<^item> SufSort, SufSplit, FirstSort, SufArray: \<open>qsufsort\<close> and \<open>split\<close> of \<open>bsdiff.c\<close>, from the counting sort to the
    suffix array; BsDiffFile: \<open>bsdiff\<close> as a whole with the array it keeps for its caller.
  \<^item> World: the system.  LoadSave (digests, loading, saving and checking files and partitions), FreeCache
    (\<open>applypatch/freecache.c\<close>), PartitionWrite (\<open>WriteToPartition\<close>), SinkLaws (the interface of an output
    sink, interpreted for a file and for memory), ApplyPatch (\<open>applypatch\<close> and \<open>GenerateTarget\<close>),
    ApplyPartition (the same for partitions): \<open>applypatch/applypatch.c\<close>.
  \<^item> DirUtil (\<open>minzip/DirUtil.c\<close>) on top of World: nodes with a mode, directories on the way of a path; ZipExtract:
    \<open>mzExtractRecursive\<close> of \<open>minzip/Zip.c\<close>; Mounts (\<open>mtdutils/mounts.c\<close>).
  \<^item> Updater (\<open>updater/install.c\<close>, and the functions of \<open>mtdutils.c\<close> and \<open>flashutils.c\<close> it calls), UpdaterLaws (the
    contract of \<open>edify_functions\<close> for them, function by function), UpdaterMain (\<open>updater/updater.c\<close>).
  \<^item> Mtd (\<open>mtdutils/mtdutils.c\<close>): a flash partition as a device with bytes, bad blocks and a list of events that
    says which calls fail; the table of partitions, reading and writing in erase blocks, and the commands
    that erase, restore and back up a partition.  MtdLaws has the invariants of a write session (\<open>session\<close>,
    \<open>placed\<close>) and of a reader (\<open>reading\<close>), MtdSessions the properties of whole sessions.

  \<^bold>\<open>What is shown.\<close>  A patch that is interrupted at any moment can be resumed, and one that reports success has
  put the target in place (ApplyPatch, ApplyPartition, and for the call in a script UpdaterMain); a difference
  computed by \<open>bsdiff\<close> and applied by \<open>bspatch\<close> restores the new file, with the suffix array proved sorted;
  opening any file as an archive stays in bounds, the entries of an archive are its directory, lookups find
  them, readers and extraction deliver them, extraction is confined to its target and succeeds on a system
  without failures; writing a partition is verified, and what a write session has put around the bad blocks
  of a flash partition is what a reader finds; the hash table and the function table refine maps;
  scripts with well-formed calls never run into undefined behaviour, and the program says why it failed.
  Where the code does not do what it should, the properties say what it does: an extraction that fails is
  reported as a success (ZipExtract), the table of volumes overruns its array (Mounts).

  \<^bold>\<open>Bounds and fuel.\<close>  Files are shorter than \<open>2 ^ 31\<close> bytes where their size is an \<open>int\<close> of the code; mapped
  archives end below the top of the address space and no offset in them points to its last 30 bytes (the one
  addition the scan does not check); hash tables hold less than \<open>2 ^ 28\<close> items, below which their size is a
  power of two that does not wrap.  Loops over a \<open>tape\<close> end because the tape is finite and a system without
  further events works.  The depth of a directory tree that is deleted or changed is bounded by 4096, more
  components than a path of the system can have.  Decompression works in chunks of 32768 bytes; for an
  abstract decoder the loop ends when each call that asks to be called again makes progress
  (\<open>inflate_ends\<close>).  All other recursion is structural or has a measure: no theorem depends on fuel.

  \<^bold>\<open>Parameters.\<close>  zlib and bzip2 are decoders with the documented protocol of their streams (\<open>inflater_ok\<close>,
  \<open>inflater_live\<close>, \<open>zlib\<close>, \<open>bz2\<close>), SHA-1 is a function with digests of 20 bytes, the property service,
  \<open>strerror\<close>, programs that are run, raw partition tools and the text of floating point numbers are fields of
  \<open>updater_env\<close>; \<open>safe_iop\<close> is the library of checked additions.  The parser that bison makes from
  \<open>edify/parser.y\<close> is an argument of \<open>updater_main\<close>.

  \<^bold>\<open>Not modelled.\<close>  The C++ parts (installation, verification of signatures, backups, the roots of file
  systems, the menus), the graphical user interface under \<open>miui\<close> and \<open>minui\<close>, whose state is that of the
  screen, the input devices and the threads; the generated scanner and parser, and the copy of edify under
  \<open>miui/src/edify\<close>; the vendored programs and libraries (\<open>pigz\<close>, freetype and png headers, \<open>iniparser\<close>, \<open>digest\<close>,
  \<open>yaffs2_static\<close>, \<open>minadbd\<close>); the tools that run on the build host (\<open>imgdiff\<close>, \<open>tools\<close>); and the thin
  wrappers around devices (\<open>mmcutils\<close>, \<open>bmlutils\<close>, \<open>bml_over_mtd\<close>, the command line tools of \<open>flashutils\<close>).
  Memory is always available, except where an allocation is refused because of its size; SELinux contexts,
  log messages and file times are left out.
\<close>

end
